(* ===== verification/Prelude.thy ===== *)
theory Prelude
  imports Main "HOL-Library.Word"
begin

text \<open>
  The vocabulary shared by the component theories.

  \<^item> Machine types: \<open>u8\<close>, \<open>u16\<close>, \<open>u32\<close> are the C types \<open>uint8_t\<close>, \<open>uint16_t\<close>,
    \<open>uint32_t\<close>/\<open>size_t\<close>/\<open>uintptr_t\<close> of the i386 target.
  \<^item> \<open>errno\<close>: the error numbers of \<open>src/libs/error.h\<close>; a C function that returns \<open>-E_X\<close>
    yields \<open>Err E_X\<close>.
  \<^item> \<open>outcome\<close>: what a C function does.  \<open>Ok v\<close> is a normal return, \<open>Err e\<close> an error return and
    \<open>Fault\<close> a failed \<open>assert\<close>, a call of \<open>panic\<close> or a memory access outside the object.
  \<^item> Buffers: byte lists, read through \<open>rd\<close> and \<open>rdn\<close> and written through \<open>wrn\<close>, which fault
    outside the buffer.
  \<^item> Generic lemmas on lists, maps and words that several components use.
\<close>

unbundle bit_operations_syntax

type_synonym u8 = "8 word"
type_synonym u16 = "16 word"
type_synonym u32 = "32 word"

section \<open>Collections of facts\<close>

named_theorems outcome_simps "elimination of outcome-valued binds"
named_theorems nofault "introduction rules for \<open>_ \<noteq> Fault\<close>, driven by the shape of the program"

section \<open>Error numbers\<close>

datatype errno =
    E_UNSPECIFIED | E_BAD_PROC | E_INVAL | E_NO_MEM | E_NO_FREE_PROC | E_FAULT | E_SWAP_FAULT
  | E_INVAL_ELF | E_KILLED | E_PANIC | E_TIMEOUT | E_TOO_BIG | E_NO_DEV | E_NA_DEV | E_BUSY
  | E_NOENT | E_ISDIR | E_NOTDIR | E_XDEV | E_UNIMP | E_SEEK | E_MAX_OPEN | E_EXISTS
  | E_NOTEMPTY | E_PIPE | E_INTR | E_AGAIN

fun errno_code :: "errno \<Rightarrow> int" where
  "errno_code E_UNSPECIFIED = 1"
| "errno_code E_BAD_PROC = 2"
| "errno_code E_INVAL = 3"
| "errno_code E_NO_MEM = 4"
| "errno_code E_NO_FREE_PROC = 5"
| "errno_code E_FAULT = 6"
| "errno_code E_SWAP_FAULT = 7"
| "errno_code E_INVAL_ELF = 8"
| "errno_code E_KILLED = 9"
| "errno_code E_PANIC = 10"
| "errno_code E_TIMEOUT = 11"
| "errno_code E_TOO_BIG = 12"
| "errno_code E_NO_DEV = 13"
| "errno_code E_NA_DEV = 14"
| "errno_code E_BUSY = 15"
| "errno_code E_NOENT = 16"
| "errno_code E_ISDIR = 17"
| "errno_code E_NOTDIR = 18"
| "errno_code E_XDEV = 19"
| "errno_code E_UNIMP = 20"
| "errno_code E_SEEK = 21"
| "errno_code E_MAX_OPEN = 22"
| "errno_code E_EXISTS = 23"
| "errno_code E_NOTEMPTY = 24"
| "errno_code E_PIPE = 25"
| "errno_code E_INTR = 26"
| "errno_code E_AGAIN = 27"

section \<open>Outcomes\<close>

datatype 'a outcome = Ok 'a | Err errno | Fault

fun obind :: "'a outcome \<Rightarrow> ('a \<Rightarrow> 'b outcome) \<Rightarrow> 'b outcome" where
  "obind (Ok a) f = f a"
| "obind (Err e) f = Err e"
| "obind Fault f = Fault"

fun is_ok :: "'a outcome \<Rightarrow> bool" where
  "is_ok (Ok _) = True"
| "is_ok _ = False"

lemma obind_assoc [simp]: "obind (obind m f) g = obind m (\<lambda>x. obind (f x) g)"
  by (cases m) simp_all

lemma obind_eq_Ok [outcome_simps]:
  "obind m f = Ok b \<longleftrightarrow> (\<exists>a. m = Ok a \<and> f a = Ok b)"
  by (cases m) simp_all

lemma obind_eq_Err [outcome_simps]:
  "obind m f = Err e \<longleftrightarrow> m = Err e \<or> (\<exists>a. m = Ok a \<and> f a = Err e)"
  by (cases m) simp_all

lemma obind_eq_Fault [outcome_simps]:
  "obind m f = Fault \<longleftrightarrow> m = Fault \<or> (\<exists>a. m = Ok a \<and> f a = Fault)"
  by (cases m) simp_all

lemma is_ok_iff: "is_ok m \<longleftrightarrow> (\<exists>a. m = Ok a)"
  by (cases m) simp_all

text \<open>The same for operations that pass a state: the state survives an error return.\<close>

fun sbind :: "'a outcome \<times> 's \<Rightarrow> ('a \<Rightarrow> 's \<Rightarrow> 'b outcome \<times> 's) \<Rightarrow> 'b outcome \<times> 's" where
  "sbind (Ok a, s) f = f a s"
| "sbind (Err e, s) f = (Err e, s)"
| "sbind (Fault, s) f = (Fault, s)"

lemma sbind_eq_Ok [outcome_simps]:
  "sbind m f = (Ok b, t) \<longleftrightarrow> (\<exists>a s. m = (Ok a, s) \<and> f a s = (Ok b, t))"
  by (cases m; cases "fst m") auto

lemma sbind_eq_Fault [outcome_simps]:
  "sbind m f = (Fault, t) \<longleftrightarrow> m = (Fault, t) \<or> (\<exists>a s. m = (Ok a, s) \<and> f a s = (Fault, t))"
  by (cases m; cases "fst m") auto

section \<open>Buffers\<close>

definition rd :: "'a list \<Rightarrow> nat \<Rightarrow> 'a outcome" where
  "rd xs i = (if i < length xs then Ok (xs ! i) else Fault)"

definition rdn :: "'a list \<Rightarrow> nat \<Rightarrow> nat \<Rightarrow> 'a list outcome" where
  "rdn xs off n = (if off + n \<le> length xs then Ok (take n (drop off xs)) else Fault)"

definition overwrite :: "'a list \<Rightarrow> nat \<Rightarrow> 'a list \<Rightarrow> 'a list" where
  "overwrite xs off ys = take off xs @ ys @ drop (off + length ys) xs"

definition wrn :: "'a list \<Rightarrow> nat \<Rightarrow> 'a list \<Rightarrow> 'a list outcome" where
  "wrn xs off ys = (if off + length ys \<le> length xs then Ok (overwrite xs off ys) else Fault)"

lemma rdn_Ok [simp]: "off + n \<le> length xs \<Longrightarrow> rdn xs off n = Ok (take n (drop off xs))"
  by (simp add: rdn_def)

lemma rdn_not_Err [simp]: "rdn xs off n \<noteq> Err e"
  by (simp add: rdn_def)

lemma rdn_append_skip [simp]:
  "length pre \<le> off \<Longrightarrow> rdn (pre @ xs) off n = rdn xs (off - length pre) n"
  by (auto simp: rdn_def)

lemma rdn_append_here [simp]: "n = length xs \<Longrightarrow> rdn (xs @ post) 0 n = Ok xs"
  by (simp add: rdn_def)

lemma length_overwrite [simp]:
  "off + length ys \<le> length xs \<Longrightarrow> length (overwrite xs off ys) = length xs"
  by (simp add: overwrite_def)

lemma nth_overwrite:
  "off + length ys \<le> length xs \<Longrightarrow> i < length xs \<Longrightarrow>
    overwrite xs off ys ! i = (if off \<le> i \<and> i < off + length ys then ys ! (i - off) else xs ! i)"
  by (auto simp: overwrite_def nth_append min_def)

lemma rdn_overwrite_same:
  "off + length ys \<le> length xs \<Longrightarrow> rdn (overwrite xs off ys) off (length ys) = Ok ys"
  by (simp add: rdn_def overwrite_def)

text \<open>Rules that walk a program and leave the bounds of its accesses as goals.\<close>

lemma nofault_if [nofault]:
  "(b \<Longrightarrow> x \<noteq> Fault) \<Longrightarrow> (\<not> b \<Longrightarrow> y \<noteq> Fault) \<Longrightarrow> (if b then x else y) \<noteq> Fault"
  by simp

lemma nofault_rdn [nofault]:
  "off + n \<le> length xs \<Longrightarrow> f (take n (drop off xs)) \<noteq> Fault \<Longrightarrow> obind (rdn xs off n) f \<noteq> Fault"
  by simp

lemma nofault_rd [nofault]:
  "i < length xs \<Longrightarrow> f (xs ! i) \<noteq> Fault \<Longrightarrow> obind (rd xs i) f \<noteq> Fault"
  by (simp add: rd_def)

lemma nofault_const [nofault]: "Ok a \<noteq> Fault" "Err e \<noteq> Fault"
  by simp_all

section \<open>Words\<close>

lemma unat_plus_noov:
  fixes a b :: "'a::len word"
  assumes "unat a + unat b < 2 ^ LENGTH('a)"
  shows "unat (a + b) = unat a + unat b"
  using assms by (simp add: unat_word_ariths(1))

lemma unat_minus_le:
  fixes a b :: "'a::len word"
  assumes "b \<le> a"
  shows "unat (a - b) = unat a - unat b"
  using assms by (rule unat_sub)

lemma unat_of_nat_small:
  "n < 2 ^ LENGTH('a) \<Longrightarrow> unat (of_nat n :: 'a::len word) = n"
  by (simp add: unat_of_nat take_bit_nat_eq_self)

lemma bit_u8_ge [simp]: "8 \<le> n \<Longrightarrow> \<not> bit (a :: u8) n"
  using bit_imp_le_length [of a n] by auto

lemma unat_lt_u8 [simp]: "unat (x :: u8) < 256"
  using unsigned_less [of x] by simp

lemma unat_lt_u16 [simp]: "unat (x :: u16) < 65536"
  using unsigned_less [of x] by simp

lemma unat_lt_u32 [simp]: "unat (x :: u32) < 4294967296"
  using unsigned_less [of x] by simp

lemma unat_ucast_u8 [simp]: "unat (ucast (b :: u8) :: u32) = unat b"
  using unat_lt_u8 [of b]
  by (simp add: unsigned_ucast_eq take_bit_nat_eq_self del: unat_lt_u8)

lemma unat_ucast_u16 [simp]: "unat (ucast (b :: u16) :: u32) = unat b"
  using unat_lt_u16 [of b]
  by (simp add: unsigned_ucast_eq take_bit_nat_eq_self del: unat_lt_u16)

text \<open>Single bits of a word.\<close>

lemma and_bit: "(w :: u32) AND push_bit k 1 \<noteq> 0 \<longleftrightarrow> k < 32 \<and> bit w k"
proof
  assume "w AND push_bit k 1 \<noteq> 0"
  then obtain n where "bit (w AND push_bit k 1) n"
    using bit_eqI [of "w AND push_bit k 1" 0] by auto
  then show "k < 32 \<and> bit w k"
    by (auto simp: bit_simps)
next
  assume "k < 32 \<and> bit w k"
  then have "bit (w AND push_bit k 1) k"
    by (simp add: bit_simps)
  then show "w AND push_bit k 1 \<noteq> 0"
    by (metis bit_0_eq bot_apply bot_bool_def)
qed

lemma bit_xor_push: "k < 32 \<Longrightarrow> bit ((w :: u32) XOR push_bit k 1) n \<longleftrightarrow> (if n = k then \<not> bit w k else bit w n)"
  by (auto simp: bit_simps)

lemma bit_or_push: "k < 32 \<Longrightarrow> bit ((w :: u32) OR push_bit k 1) n \<longleftrightarrow> n = k \<or> bit w n"
  by (auto simp: bit_simps)

end
