(* ===== verification/Pmm.thy ===== *)
theory Pmm
  imports Prelude
begin

text \<open>
  The first-fit physical page allocator, \<open>src/kern/mm/default_pmm.c\<close>, on the page descriptors of
  \<open>src/kern/mm/memlayout.h\<close>.  A page is its index in the \<open>pages\<close> array and the circular free list is
  the list of the indices it links, in order.
\<close>

section \<open>State and operations\<close>

record Page =
  ref :: int
  flags :: u32
  property :: nat
  pra_vaddr :: u32
  pra_mm :: "nat option"

record pmm =
  pages :: "nat \<Rightarrow> Page"
  free_list :: "nat list"
  nr_free :: nat

definition upd_page :: "nat \<Rightarrow> (Page \<Rightarrow> Page) \<Rightarrow> 'a pmm_scheme \<Rightarrow> 'a pmm_scheme" where
  "upd_page p f s = s\<lparr>pages := (pages s)(p := f (pages s p))\<rparr>"

abbreviation prop_of :: "'a pmm_scheme \<Rightarrow> nat \<Rightarrow> nat" where
  "prop_of s p \<equiv> property (pages s p)"

definition SetPageReserved :: "Page \<Rightarrow> Page" where
  "SetPageReserved g = g\<lparr>flags := set_bit 0 (flags g)\<rparr>"

definition PageReserved :: "Page \<Rightarrow> bool" where
  "PageReserved g = bit (flags g) 0"

definition SetPageProperty :: "Page \<Rightarrow> Page" where
  "SetPageProperty g = g\<lparr>flags := set_bit 1 (flags g)\<rparr>"

definition ClearPageProperty :: "Page \<Rightarrow> Page" where
  "ClearPageProperty g = g\<lparr>flags := unset_bit 1 (flags g)\<rparr>"

definition PageProperty :: "Page \<Rightarrow> bool" where
  "PageProperty g = bit (flags g) 1"

definition default_init :: "'a pmm_scheme \<Rightarrow> 'a pmm_scheme" where
  "default_init s = s\<lparr>free_list := [], nr_free := 0\<rparr>"

text \<open>The loop of \<open>default_init_memmap\<close> over the descriptors of the range.\<close>

fun init_memmap_loop :: "nat list \<Rightarrow> 'a pmm_scheme \<Rightarrow> unit outcome \<times> 'a pmm_scheme" where
  "init_memmap_loop [] s = (Ok (), s)"
| "init_memmap_loop (p # ps) s =
     (if \<not> PageReserved (pages s p) then (Fault, s)
      else init_memmap_loop ps
        ((upd_page p (\<lambda>g. (SetPageProperty (g\<lparr>flags := 0\<rparr>))\<lparr>property := 0, ref := 0, pra_mm := None\<rparr>) s)
         \<lparr>free_list := free_list s @ [p]\<rparr>))"

definition default_init_memmap ::
    "nat \<Rightarrow> nat \<Rightarrow> 'a pmm_scheme \<Rightarrow> unit outcome \<times> 'a pmm_scheme" where
  "default_init_memmap base n s = (
     if n = 0 then (Fault, s)
     else sbind (init_memmap_loop [base..<base + n] s) (\<lambda>_ s.
       (Ok (), upd_page base (\<lambda>g. g\<lparr>property := n\<rparr>) (s\<lparr>nr_free := nr_free s + n\<rparr>))))"

text \<open>
  The scan stops at the first listed page whose \<open>property\<close> is at least \<open>n\<close>; the inner loop unlinks
  that page and the \<open>n - 1\<close> entries after it.  Running into the list head there, or using it as a
  page to receive the remainder, is a fault.
\<close>

definition default_alloc_pages ::
    "nat \<Rightarrow> 'a pmm_scheme \<Rightarrow> nat option outcome \<times> 'a pmm_scheme" where
  "default_alloc_pages n s = (
     if n = 0 then (Fault, s)
     else if n > nr_free s then (Ok None, s)
     else
       let before = takeWhile (\<lambda>p. prop_of s p < n) (free_list s);
           from = dropWhile (\<lambda>p. prop_of s p < n) (free_list s)
       in case from of
         [] \<Rightarrow> (Ok None, s)
       | p # _ \<Rightarrow>
         if length from < n then (Fault, s)
         else
           let s = fold (\<lambda>pp. upd_page pp (ClearPageProperty \<circ> SetPageReserved)) (take n from) s;
               s = s\<lparr>free_list := before @ drop n from\<rparr>
           in if prop_of s p > n \<and> drop n from = [] then (Fault, s)
              else
                let s = (if prop_of s p > n
                         then upd_page (hd (drop n from)) (\<lambda>g. g\<lparr>property := prop_of s p - n\<rparr>) s
                         else s)
                in (Ok (Some p), s\<lparr>nr_free := nr_free s - n\<rparr>))"

definition default_free_pages ::
    "nat \<Rightarrow> nat \<Rightarrow> 'a pmm_scheme \<Rightarrow> unit outcome \<times> 'a pmm_scheme" where
  "default_free_pages base n s = (
     if n = 0 \<or> \<not> PageReserved (pages s base) then (Fault, s)
     else
       let before = takeWhile (\<lambda>p. p \<le> base) (free_list s);
           after = dropWhile (\<lambda>p. p \<le> base) (free_list s);
           s = fold (\<lambda>p. upd_page p (\<lambda>g. g\<lparr>pra_mm := None\<rparr>)) [base..<base + n] s;
           s = s\<lparr>free_list := before @ [base..<base + n] @ after\<rparr>;
           s = upd_page base
                 (\<lambda>g. (SetPageProperty (g\<lparr>flags := 0, ref := 0\<rparr>))\<lparr>property := n\<rparr>) s;
           s = (case after of
                  [] \<Rightarrow> s
                | p # _ \<Rightarrow>
                    if base + n = p
                    then upd_page p (\<lambda>g. g\<lparr>property := 0\<rparr>)
                           (upd_page base (\<lambda>g. g\<lparr>property := property g + prop_of s p\<rparr>) s)
                    else s);
           s = (if before \<noteq> [] \<and> Suc (last before) = base
                then case dropWhile (\<lambda>p. prop_of s p = 0) (rev before) of
                       [] \<Rightarrow> s
                     | p # _ \<Rightarrow>
                         upd_page base (\<lambda>g. g\<lparr>property := 0\<rparr>)
                           (upd_page p (\<lambda>g. g\<lparr>property := property g + prop_of s base\<rparr>) s)
                else s)
       in (Ok (), s\<lparr>nr_free := nr_free s + n\<rparr>))"

definition default_nr_free_pages :: "'a pmm_scheme \<Rightarrow> nat" where
  "default_nr_free_pages s = nr_free s"

section \<open>The free list as a set of blocks\<close>

text \<open>
  \<open>blocks S P\<close>: every page of \<open>S\<close> lies in a block \<open>[h, h + P h)\<close> of \<open>S\<close> whose head \<open>h\<close> carries the
  block size and whose other pages carry 0.
\<close>

definition blocks :: "nat set \<Rightarrow> (nat \<Rightarrow> nat) \<Rightarrow> bool" where
  "blocks S P \<longleftrightarrow>
     (\<forall>p\<in>S. \<forall>q. p \<le> q \<and> q < p + P p \<longrightarrow> q \<in> S \<and> (q \<noteq> p \<longrightarrow> P q = 0)) \<and>
     (\<forall>p\<in>S. \<exists>h\<in>S. h \<le> p \<and> p < h + P h)"

text \<open>No block ends where another one starts: neighbours have been merged.\<close>

definition merged :: "nat set \<Rightarrow> (nat \<Rightarrow> nat) \<Rightarrow> bool" where
  "merged S P \<longleftrightarrow> (\<forall>h\<in>S. 0 < P h \<longrightarrow> h + P h \<notin> S)"

definition pmm_wf :: "'a pmm_scheme \<Rightarrow> bool" where
  "pmm_wf s \<longleftrightarrow> sorted_wrt (<) (free_list s) \<and> nr_free s = length (free_list s) \<and>
     blocks (set (free_list s)) (prop_of s) \<and> merged (set (free_list s)) (prop_of s)"

lemma upd_page_simps [simp]:
  "pages (upd_page p f s) = (pages s)(p := f (pages s p))"
  "free_list (upd_page p f s) = free_list s"
  "nr_free (upd_page p f s) = nr_free s"
  by (simp_all add: upd_page_def)

lemma property_flag_simps [simp]:
  "property (SetPageReserved g) = property g" "property (SetPageProperty g) = property g"
  "property (ClearPageProperty g) = property g"
  "PageReserved (SetPageReserved g)"
  "PageReserved (ClearPageProperty g) = PageReserved g"
  by (simp_all add: SetPageReserved_def SetPageProperty_def ClearPageProperty_def PageReserved_def
      bit_simps)

lemma fold_upd_page [simp]:
  "free_list (fold (\<lambda>p. upd_page p f) ps s) = free_list s"
  "nr_free (fold (\<lambda>p. upd_page p f) ps s) = nr_free s"
  by (induction ps arbitrary: s) simp_all

lemma fold_upd_page_pages:
  "distinct ps \<Longrightarrow>
     pages (fold (\<lambda>p. upd_page p f) ps s) = (\<lambda>q. if q \<in> set ps then f (pages s q) else pages s q)"
  by (induction ps arbitrary: s) (auto simp: fun_eq_iff)

lemma blocksD:
  assumes "blocks S P" "p \<in> S" "p \<le> q" "q < p + P p"
  shows "q \<in> S" and "q \<noteq> p \<Longrightarrow> P q = 0"
  using assms unfolding blocks_def by blast+

lemma blocks_head:
  assumes "blocks S P" "p \<in> S"
  obtains h where "h \<in> S" "h \<le> p" "p < h + P h"
  using assms unfolding blocks_def by blast

lemma blocks_apart:
  assumes "blocks S P" "p \<in> S" "0 < P p" "q \<in> S" "0 < P q" "q \<noteq> p"
  shows "q + P q \<le> p \<or> p + P p \<le> q"
proof -
  have "\<not> (p < q \<and> q < p + P p)"
    using blocksD(2) [OF assms(1,2), of q] assms(5) by auto
  moreover have "\<not> (q < p \<and> p < q + P q)"
    using blocksD(2) [OF assms(1,4), of p] assms(3) by auto
  ultimately show ?thesis
    using assms(6) by arith
qed

lemma mergedD: "merged S P \<Longrightarrow> h \<in> S \<Longrightarrow> 0 < P h \<Longrightarrow> h + P h \<notin> S"
  by (simp add: merged_def)

lemma take_run:
  "sorted_wrt (<) (p # ps) \<Longrightarrow> (\<And>q. p \<le> q \<Longrightarrow> q < p + n \<Longrightarrow> q \<in> set (p # ps)) \<Longrightarrow>
    take n (p # ps) = [p..<p + n]"
proof (induction n arbitrary: p ps)
  case (Suc n)
  show ?case
  proof (cases "n = 0")
    case False
    then have "Suc p \<in> set ps"
      using Suc.prems(2) [of "Suc p"] by simp
    then obtain q qs where ps: "ps = q # qs"
      by (cases ps) auto
    then have q: "q = Suc p"
      using Suc.prems(1) \<open>Suc p \<in> set ps\<close> by auto
    have "take n (q # qs) = [Suc p..<Suc p + n]"
      unfolding q
    proof (rule Suc.IH)
      show "sorted_wrt (<) (Suc p # qs)"
        using Suc.prems(1) ps q by simp
      show "r \<in> set (Suc p # qs)" if "Suc p \<le> r" "r < Suc p + n" for r
        using Suc.prems(2) [of r] that ps q by auto
    qed
    then show ?thesis
      using ps by (simp add: upt_conv_Cons)
  qed simp
qed simp

lemma blocks_alloc:
  assumes b: "blocks S P" and p: "p \<in> S" and n: "0 < n" "n \<le> P p"
  shows "blocks (S - {p..<p + n}) (if n < P p then P(p + n := P p - n) else P)"
proof -
  let ?P = "if n < P p then P(p + n := P p - n) else P" and ?S = "S - {p..<p + n}"
  have 1: "r \<in> ?S \<and> (r \<noteq> q \<longrightarrow> ?P r = 0)" if q: "q \<in> ?S" and r: "q \<le> r" "r < q + ?P q" for q r
  proof (cases "n < P p \<and> q = p + n")
    case True
    then show ?thesis
      using r n blocksD [OF b p, of r] by auto
  next
    case False
    then have Pq: "?P q = P q" by auto
    have "q + P q \<le> p \<or> p + P p \<le> q"
      using blocks_apart [OF b p _ _ _, of q] q r Pq n by auto
    then show ?thesis
      using q r n Pq blocksD [OF b, of q r] by auto
  qed
  have 2: "\<exists>h\<in>?S. h \<le> q \<and> q < h + ?P h" if q: "q \<in> ?S" for q
  proof -
    obtain h where h: "h \<in> S" "h \<le> q" "q < h + P h"
      using blocks_head [OF b, of q] q by auto
    show ?thesis
    proof (cases "h = p")
      case True
      then show ?thesis
        using q h n blocksD(1) [OF b p, of "p + n"] by (intro bexI [of _ "p + n"]) auto
    next
      case False
      then have "h + P h \<le> p \<or> p + P p \<le> h"
        using blocks_apart [OF b p _ h(1)] h n by auto
      then show ?thesis
        using h n by (intro bexI [of _ h]) auto
    qed
  qed
  show ?thesis
    unfolding blocks_def using 1 2 by blast
qed

lemma merged_alloc:
  assumes "blocks S P" "merged S P" "p \<in> S" "0 < n" "n \<le> P p"
  shows "merged (S - {p..<p + n}) (if n < P p then P(p + n := P p - n) else P)"
  using assms by (auto simp: merged_def)

lemma blocks_new:
  assumes b: "blocks S P" and d: "\<And>q. b \<le> q \<Longrightarrow> q < b + n \<Longrightarrow> q \<notin> S" and n: "0 < n"
    and z: "\<And>q. b < q \<Longrightarrow> q < b + n \<Longrightarrow> P q = 0"
  shows "blocks (S \<union> {b..<b + n}) (P(b := n))"
proof -
  let ?S = "S \<union> {b..<b + n}" and ?P = "P(b := n)"
  have bS: "b \<notin> S"
    using d n by simp
  have "r \<in> ?S \<and> (r \<noteq> q \<longrightarrow> ?P r = 0)" if "q \<in> ?S" "q \<le> r" "r < q + ?P q" for q r
  proof (cases "q \<in> S")
    case True
    then have "q \<noteq> b"
      using bS by blast
    moreover from this have "r \<in> S" "r \<noteq> q \<longrightarrow> P r = 0"
      using that blocksD [OF b True, of r] by auto
    ultimately show ?thesis
      using bS by auto
  next
    case False
    then show ?thesis
      using that z [of q] z [of r] n by (cases "q = b") auto
  qed
  moreover have "\<exists>h\<in>?S. h \<le> q \<and> q < h + ?P h" if "q \<in> ?S" for q
  proof (cases "q \<in> S")
    case True
    then show ?thesis
      using bS blocks_head [OF b, of q] by (metis UnI1 fun_upd_other)
  next
    case False
    then show ?thesis
      using that n by (intro bexI [of _ b]) auto
  qed
  ultimately show ?thesis
    unfolding blocks_def by blast
qed

lemma blocks_merge:
  assumes b: "blocks S P" and h: "h \<in> S" "0 < P h" and q: "q = h + P h" "q \<in> S"
  shows "blocks S (P(h := P h + P q, q := 0))" and "0 < P q"
proof -
  let ?P = "P(h := P h + P q, q := 0)"
  show Pq: "0 < P q"
  proof -
    obtain y where y: "y \<in> S" "y \<le> q" "q < y + P y"
      using blocks_head [OF b q(2)] .
    then have "y + P y \<le> h \<or> q \<le> y"
      using blocks_apart [OF b h y(1)] q by auto
    with y h q show ?thesis
      by (cases "y = q") auto
  qed
  have hq: "h < q"
    using q h by simp
  have "r \<in> S \<and> (r \<noteq> x \<longrightarrow> ?P r = 0)" if x: "x \<in> S" and r: "x \<le> r" "r < x + ?P x" for x r
  proof -
    consider "x = h" "r < q" | "x = h" "q \<le> r" | "x \<noteq> h" "x \<noteq> q" "0 < P x"
      using r hq by (cases "x = h"; cases "x = q"; cases "r < q") auto
    then show ?thesis
    proof cases
      case 1
      then show ?thesis using r q blocksD [OF b h(1), of r] by auto
    next
      case 2
      then show ?thesis using r q hq blocksD [OF b q(2), of r] by auto
    next
      case 3
      then have "x + P x \<le> h \<or> q \<le> x" "x + P x \<le> q \<or> q + P q \<le> x"
        using blocks_apart [OF b h x] blocks_apart [OF b q(2) Pq x] q by auto
      then show ?thesis
        using 3 r x hq Pq blocksD [OF b x, of r] by auto
    qed
  qed
  moreover have "\<exists>y\<in>S. y \<le> x \<and> x < y + ?P y" if x: "x \<in> S" for x
  proof -
    obtain y where y: "y \<in> S" "y \<le> x" "x < y + P y"
      using blocks_head [OF b x] .
    then show ?thesis
      using h q hq by (cases "y = q"; cases "y = h") (auto intro: bexI [of _ h] bexI [of _ y])
  qed
  ultimately show "blocks S ?P"
    unfolding blocks_def by blast
qed

lemma blocks_run:
  assumes b: "blocks S P" and m: "merged S P" and n: "0 < n" and run: "\<And>i. i < n \<Longrightarrow> a + i \<in> S"
  obtains h where "h \<in> S" "n \<le> P h" "h \<le> a"
proof -
  have "a \<in> S"
    using run [of 0] n by simp
  then obtain h where h: "h \<in> S" "h \<le> a" "a < h + P h"
    by (rule blocks_head [OF b])
  have "a + n \<le> h + P h"
  proof (rule ccontr)
    assume "\<not> a + n \<le> h + P h"
    then have "h + P h - a < n" "a + (h + P h - a) = h + P h"
      using h by simp_all
    then have "h + P h \<in> S"
      using run [of "h + P h - a"] by simp
    then show False
      using m h by (auto simp: merged_def)
  qed
  then show thesis
    using that [of h] h by simp
qed

lemma blocks_card: "blocks S P \<Longrightarrow> finite S \<Longrightarrow> h \<in> S \<Longrightarrow> P h \<le> card S"
  using card_mono [of S "{h..<h + P h}"] blocksD(1) [of S P h] by fastforce

lemma sorted_from:
  fixes L :: "nat list"
  assumes "sorted_wrt (<) L" and "dropWhile Q L = p # ps"
  shows "sorted_wrt (<) (p # ps)" and "p \<in> set L" and "\<not> Q p"
    and "\<And>q. q \<in> set L \<Longrightarrow> p \<le> q \<Longrightarrow> q \<in> set (p # ps)"
    and "\<And>q. q \<in> set L \<Longrightarrow> q < p \<Longrightarrow> Q q"
    and "\<And>q. q \<in> set (takeWhile Q L) \<Longrightarrow> q < p"
proof -
  have L: "L = takeWhile Q L @ p # ps"
    using assms(2) by (metis takeWhile_dropWhile_id)
  then have srt: "sorted_wrt (<) (takeWhile Q L @ p # ps)"
    using assms(1) by simp
  then show "sorted_wrt (<) (p # ps)" and lt: "\<And>q. q \<in> set (takeWhile Q L) \<Longrightarrow> q < p"
    by (auto simp: sorted_wrt_append)
  show "p \<in> set L"
    by (subst L) simp
  show "\<not> Q p"
    using assms(2) hd_dropWhile [of Q L] by simp
  have cases: "q \<in> set (takeWhile Q L) \<or> q \<in> set (p # ps)" if "q \<in> set L" for q
    using that by (subst (asm) L) auto
  show "q \<in> set (p # ps)" if "q \<in> set L" "p \<le> q" for q
    using cases [OF that(1)] lt [of q] that(2) by auto
  show "Q q" if "q \<in> set L" "q < p" for q
    using cases [OF that(1)] srt that(2) by (auto simp: sorted_wrt_append dest: set_takeWhileD)
qed

lemma alloc_Some:
  assumes wf: "pmm_wf s" and n: "0 < n" "n \<le> nr_free s"
    and frm: "dropWhile (\<lambda>p. prop_of s p < n) (free_list s) = p # ps"
  obtains t where "default_alloc_pages n s = (Ok (Some p), t)"
    "free_list t = takeWhile (\<lambda>p. prop_of s p < n) (free_list s) @ drop n (p # ps)"
    "take n (p # ps) = [p..<p + n]" "nr_free t = nr_free s - n"
    "prop_of t = (if n < prop_of s p then (prop_of s)(p + n := prop_of s p - n) else prop_of s)"
    "\<And>q. p \<le> q \<Longrightarrow> q < p + n \<Longrightarrow> PageReserved (pages t q)"
proof -
  let ?P = "prop_of s" and ?S = "set (free_list s)"
  have b: "blocks ?S ?P" and srt: "sorted_wrt (<) (free_list s)"
    using wf by (simp_all add: pmm_wf_def)
  note f = sorted_from [OF srt frm]
  have Pp: "n \<le> ?P p" "p \<in> ?S"
    using f(2,3) by simp_all
  have run: "q \<in> set (p # ps)" if "p \<le> q" "q < p + ?P p" for q
    using f(4) [OF blocksD(1) [OF b Pp(2) that] that(1)] .
  have tk: "take n (p # ps) = [p..<p + n]"
    using take_run [OF f(1)] run Pp by simp
  have tk2: "take (?P p) (p # ps) = [p..<p + ?P p]"
    using take_run [OF f(1)] run by simp
  have len: "?P p \<le> length (p # ps)"
    using arg_cong [OF tk2, of length] by simp
  have hd: "hd (drop n (p # ps)) = p + n" "drop n (p # ps) \<noteq> []" if "n < ?P p"
  proof -
    have "(p # ps) ! n = p + n"
      using arg_cong [OF tk2, of "\<lambda>xs. xs ! n"] that by simp
    then show "hd (drop n (p # ps)) = p + n"
      using that len by (simp add: hd_drop_conv_nth)
    show "drop n (p # ps) \<noteq> []"
      using that len by simp
  qed
  let ?s1 = "fold (\<lambda>pp. upd_page pp (ClearPageProperty \<circ> SetPageReserved)) [p..<p + n] s"
  have P1: "prop_of ?s1 = ?P"
    by (auto simp: fold_upd_page_pages fun_eq_iff)
  have eq: "default_alloc_pages n s = (Ok (Some p),
      (if n < ?P p then upd_page (p + n) (\<lambda>g. g\<lparr>property := ?P p - n\<rparr>)
          (?s1\<lparr>free_list := takeWhile (\<lambda>p. ?P p < n) (free_list s) @ drop n (p # ps)\<rparr>)
       else ?s1\<lparr>free_list := takeWhile (\<lambda>p. ?P p < n) (free_list s) @ drop n (p # ps)\<rparr>)
        \<lparr>nr_free := nr_free s - n\<rparr>)"
    using n frm len Pp hd fun_cong [OF P1, of p]
    by (auto simp: default_alloc_pages_def Let_def tk simp del: drop_Cons' take_Cons')
  show thesis
    by (rule that [OF eq]) (auto simp: fold_upd_page_pages fun_eq_iff tk)
qed

lemma set_drop_run:
  assumes "sorted_wrt (<) (before @ L)" and "take n L = [p..<p + n]"
  shows "set (before @ drop n L) = set (before @ L) - {p..<p + n}"
proof -
  have "distinct (before @ take n L @ drop n L)"
    using assms(1) by (simp add: strict_sorted_iff)
  then have d: "set (take n L) \<inter> set (before @ drop n L) = {}"
    unfolding distinct_append set_append by blast
  have "set (before @ L) = set (take n L) \<union> set (before @ drop n L)"
    by (metis append_take_drop_id set_append sup_left_commute)
  then show ?thesis
    using d by (auto simp: assms(2))
qed

lemma alloc_wf:
  assumes wf: "pmm_wf s" and n: "0 < n" "n \<le> nr_free s"
    and frm: "dropWhile (\<lambda>p. prop_of s p < n) (free_list s) = p # ps"
    and t: "default_alloc_pages n s = (Ok (Some p), t)"
  shows "pmm_wf t" and "set (free_list t) = set (free_list s) - {p..<p + n}"
    and "\<And>i. i < n \<Longrightarrow> p + i \<in> set (free_list s) \<and> PageReserved (pages t (p + i))"
    and "\<And>i. 0 < i \<Longrightarrow> i < n \<Longrightarrow> prop_of t (p + i) = 0"
    and "\<And>q. q \<in> set (free_list s) \<Longrightarrow> n \<le> prop_of s q \<Longrightarrow> p \<le> q"
proof -
  define B where "B = takeWhile (\<lambda>p. prop_of s p < n) (free_list s)"
  let ?P = "if n < prop_of s p then (prop_of s)(p + n := prop_of s p - n) else prop_of s"
  have b: "blocks (set (free_list s)) (prop_of s)" and m: "merged (set (free_list s)) (prop_of s)"
    and srt: "sorted_wrt (<) (free_list s)" and nr: "nr_free s = length (free_list s)"
    using wf by (simp_all add: pmm_wf_def)
  note f = sorted_from [OF srt frm]
  have eqL: "free_list s = B @ p # ps"
    unfolding B_def using frm by (metis takeWhile_dropWhile_id)
  obtain t' where t': "default_alloc_pages n s = (Ok (Some p), t')"
    and fl: "free_list t' = B @ drop n (p # ps)" and tk: "take n (p # ps) = [p..<p + n]"
    and nf: "nr_free t' = nr_free s - n" and P: "prop_of t' = ?P"
    and R: "\<And>q. p \<le> q \<Longrightarrow> q < p + n \<Longrightarrow> PageReserved (pages t' q)"
    unfolding B_def using alloc_Some [OF wf n frm] by blast
  have [simp]: "t' = t"
    using t t' by simp
  have Pp: "n \<le> prop_of s p"
    using f(3) by simp
  have srtB: "sorted_wrt (<) (B @ p # ps)"
    using srt eqL by simp
  show set: "set (free_list t) = set (free_list s) - {p..<p + n}"
    using set_drop_run [OF srtB tk] eqL fl by simp
  have "sorted_wrt (<) (free_list t)"
    using srtB fl sorted_wrt_drop [of "(<)" "p # ps" n] set_drop_subset [of n "p # ps"]
    by (fastforce simp: sorted_wrt_append)
  moreover have "nr_free t = length (free_list t)"
    using nf fl eqL nr arg_cong [OF tk, of length] by simp
  ultimately show "pmm_wf t"
    using blocks_alloc [OF b f(2) n(1) Pp] merged_alloc [OF b m f(2) n(1) Pp] P set
    by (simp add: pmm_wf_def)
  show "p + i \<in> set (free_list s) \<and> PageReserved (pages t (p + i))" if "i < n" for i
    using that Pp blocksD(1) [OF b f(2), of "p + i"] R [of "p + i"] by simp
  show "prop_of t (p + i) = 0" if "0 < i" "i < n" for i
    using that Pp blocksD(2) [OF b f(2), of "p + i"] fun_cong [OF P, of "p + i"] by simp
  show "p \<le> q" if "q \<in> set (free_list s)" "n \<le> prop_of s q" for q
    using f(5) [of q] that by fastforce
qed

lemma alloc_spec:
  assumes wf: "pmm_wf s" and n: "0 < n"
  shows "case default_alloc_pages n s of
           (Ok (Some p), t) \<Rightarrow>
             pmm_wf t \<and> set (free_list t) = set (free_list s) - {p..<p + n} \<and>
             (\<forall>i<n. p + i \<in> set (free_list s) \<and> PageReserved (pages t (p + i))) \<and>
             (\<forall>i. 0 < i \<and> i < n \<longrightarrow> prop_of t (p + i) = 0) \<and>
             (\<forall>a. (\<forall>i<n. a + i \<in> set (free_list s)) \<longrightarrow> p \<le> a)
         | (Ok None, t) \<Rightarrow> t = s \<and> (\<nexists>a. \<forall>i<n. a + i \<in> set (free_list s))
         | _ \<Rightarrow> False"
proof -
  have b: "blocks (set (free_list s)) (prop_of s)" and m: "merged (set (free_list s)) (prop_of s)"
    and nr: "card (set (free_list s)) \<le> nr_free s"
    using wf by (simp_all add: pmm_wf_def card_length)
  have run: "\<exists>h\<in>set (free_list s). n \<le> prop_of s h \<and> h \<le> a"
    if "\<forall>i<n. a + i \<in> set (free_list s)" for a
    using blocks_run [OF b m n, of a] that by blast
  show ?thesis
  proof (cases "n \<le> nr_free s")
    case False
    then have "\<nexists>a. \<forall>i<n. a + i \<in> set (free_list s)"
      using run blocks_card [OF b] nr by (metis List.finite_set le_trans)
    with False n show ?thesis
      by (simp add: default_alloc_pages_def)
  next
    case True
    show ?thesis
    proof (cases "dropWhile (\<lambda>p. prop_of s p < n) (free_list s)")
      case Nil
      then have "\<nexists>a. \<forall>i<n. a + i \<in> set (free_list s)"
        using run by (fastforce simp: dropWhile_eq_Nil_conv)
      with True n show ?thesis
        by (simp add: default_alloc_pages_def Nil)
    next
      case (Cons p ps)
      obtain t where t: "default_alloc_pages n s = (Ok (Some p), t)"
        using alloc_Some [OF wf n True Cons] by blast
      note a = alloc_wf [OF wf n True Cons t]
      have "\<forall>a. (\<forall>i<n. a + i \<in> set (free_list s)) \<longrightarrow> p \<le> a"
        using run a(5) by (meson le_trans)
      then show ?thesis
        using a(1,2,3,4) by (simp add: t)
    qed
  qed
qed

text \<open>
  C21: The first-fit allocator.  On a well-formed free list an allocation of \<open>n\<close> pages either returns
  the lowest run of \<open>n\<close> contiguous free pages, unlinks exactly these, marks them reserved, leaves no
  block size in the descriptors after the first one and keeps the free list well formed (sorted, partitioned in merged blocks, counted by \<open>nr_free\<close>), or
  returns \<open>NULL\<close> without changing anything, and then no \<open>n\<close> contiguous free pages exist.
\<close>

theorem default_alloc_pages_first_fit:
  assumes wf: "pmm_wf s" and n: "0 < n"
  shows "case default_alloc_pages n s of
           (Ok (Some p), t) \<Rightarrow>
             pmm_wf t \<and> set (free_list t) = set (free_list s) - {p..<p + n} \<and>
             (\<forall>i<n. p + i \<in> set (free_list s) \<and> PageReserved (pages t (p + i))) \<and>
             (\<forall>i. 0 < i \<and> i < n \<longrightarrow> prop_of t (p + i) = 0) \<and>
             (\<forall>a. (\<forall>i<n. a + i \<in> set (free_list s)) \<longrightarrow> p \<le> a)
         | (Ok None, t) \<Rightarrow> t = s \<and> (\<nexists>a. \<forall>i<n. a + i \<in> set (free_list s))
         | _ \<Rightarrow> False"
  using alloc_spec [OF assms] .

text \<open>Freeing: the new block, its merge to the right, its merge to the left.\<close>

definition ends_only_at :: "nat \<Rightarrow> nat set \<Rightarrow> (nat \<Rightarrow> nat) \<Rightarrow> bool" where
  "ends_only_at b S P \<longleftrightarrow> (\<forall>h\<in>S. 0 < P h \<longrightarrow> h + P h \<in> S \<longrightarrow> h + P h = b)"

lemma free_right:
  assumes b: "blocks S P" and m: "merged S P" and n: "0 < n"
    and free: "\<forall>q. b \<le> q \<and> q < b + n \<longrightarrow> q \<notin> S"
    and inner: "\<forall>q. b < q \<and> q < b + n \<longrightarrow> P q = 0"
  defines "T \<equiv> S \<union> {b..<b + n}"
  defines "P2 \<equiv> (if b + n \<in> S then P(b := n + P (b + n), b + n := 0) else P(b := n))"
  shows "blocks T P2" and "ends_only_at b T P2" and "0 < P2 b"
proof -
  have d: "\<And>q. b \<le> q \<Longrightarrow> q < b + n \<Longrightarrow> q \<notin> S"
    and z: "\<And>q. b < q \<Longrightarrow> q < b + n \<Longrightarrow> P q = 0"
    using free inner by blast+
  have new: "blocks T (P(b := n))"
    unfolding T_def using b d n z by (intro blocks_new)
  show "blocks T P2"
  proof (cases "b + n \<in> S")
    case True
    have "b \<in> T" "b + n \<in> T"
      using True n by (simp_all add: T_def)
    then show ?thesis
      using blocks_merge(1) [OF new, of b "b + n"] n True by (simp add: P2_def fun_upd_twist)
  qed (use new in \<open>simp add: P2_def\<close>)
  show "0 < P2 b"
    using n by (simp add: P2_def)
  show "ends_only_at b T P2"
    unfolding ends_only_at_def
  proof (intro ballI impI)
    fix h
    assume h: "h \<in> T" "0 < P2 h" "h + P2 h \<in> T"
    consider "h = b" | "h \<in> S" "h \<noteq> b"
      using h(1,2) z n by (cases "h \<in> S") (auto simp: T_def P2_def split: if_splits)
    then show "h + P2 h = b"
    proof cases
      case 1
      have "0 < P (b + n)" if s: "b + n \<in> S"
      proof -
        have "b \<in> T" "b + n \<in> T"
          using s n by (simp_all add: T_def)
        then show ?thesis
          using blocks_merge(2) [OF new, of b "b + n"] n by simp
      qed
      then have "b + P2 b \<notin> S"
        using mergedD [OF m, of "b + n"] n by (simp add: P2_def add.assoc)
      then show ?thesis
        using 1 h(3) n by (auto simp: T_def P2_def split: if_splits)
    next
      case 2
      then have P2h: "P2 h = P h" "h \<noteq> b + n"
        using h(2) by (auto simp: P2_def split: if_splits)
      then have nS: "h + P h \<notin> S"
        using mergedD [OF m 2(1)] h(2) by simp
      then have "b \<le> h + P h" "h + P h < b + n"
        using h(3) P2h by (auto simp: T_def)
      moreover have "\<not> (h \<le> b \<and> b < h + P h)"
        using blocksD(1) [OF b 2(1), of b] d [of b] n by auto
      moreover have "\<not> (b \<le> h \<and> h < b + n)"
        using d [of h] 2(1) by auto
      ultimately show ?thesis
        using P2h by linarith
    qed
  qed
qed

lemma ends_only_atD:
  "ends_only_at b T P \<Longrightarrow> h \<in> T \<Longrightarrow> 0 < P h \<Longrightarrow> h + P h \<in> T \<Longrightarrow> h + P h = b"
  by (simp add: ends_only_at_def)

lemma free_left:
  assumes b: "blocks T P" and e: "ends_only_at b T P" and bT: "b \<in> T" "0 < P b"
    and x: "x \<in> T" "Suc x = b"
  obtains h where "h \<in> T" "h < b" "0 < P h" "\<forall>y. h < y \<and> y < b \<longrightarrow> P y = 0"
    "blocks T (P(h := P h + P b, b := 0))" "merged T (P(h := P h + P b, b := 0))"
proof -
  obtain h where h: "h \<in> T" "h \<le> x" "x < h + P h"
    using blocks_head [OF b x(1)] .
  then have Ph: "0 < P h" "h < b"
    using x by simp_all
  then have "h + P h \<le> b"
    using blocks_apart [OF b bT h(1)] by auto
  then have hb: "h + P h = b"
    using h x by simp
  have z: "\<forall>y. h < y \<and> y < b \<longrightarrow> P y = 0"
    using blocksD(2) [OF b h(1)] hb by simp
  have past: "b + P b \<notin> T"
    using ends_only_atD [OF e bT] bT(2) by auto
  have "y + (P(h := P h + P b, b := 0)) y \<notin> T"
    if y: "y \<in> T" "0 < (P(h := P h + P b, b := 0)) y" for y
  proof (cases "y = h")
    case True
    then show ?thesis
      using past y hb by (cases "h = b") (simp_all add: add.assoc [symmetric])
  next
    case False
    then have "0 < P y" "y \<noteq> b"
      using y by (auto split: if_splits)
    then have "y + P y \<noteq> b"
      using blocks_apart [OF b h(1) Ph(1) y(1)] hb Ph(2) False by auto
    then show ?thesis
      using ends_only_atD [OF e y(1)] \<open>0 < P y\<close> \<open>y \<noteq> b\<close> False by auto
  qed
  then have "merged T (P(h := P h + P b, b := 0))"
    by (simp add: merged_def)
  moreover have "blocks T (P(h := P h + P b, b := 0))"
    by (rule blocks_merge(1) [OF b h(1) Ph(1) hb [symmetric] bT(1)])
  ultimately show thesis
    using that h(1) Ph z by blast
qed

lemma free_left_none:
  assumes b: "blocks T P" and e: "ends_only_at b T P" and x: "\<And>x. Suc x = b \<Longrightarrow> x \<notin> T"
  shows "merged T P"
  unfolding merged_def
proof (intro ballI impI notI)
  fix h
  assume h: "h \<in> T" "0 < P h" "h + P h \<in> T"
  then have "h + P h = b"
    by (rule ends_only_atD [OF e])
  then show False
    using blocksD(1) [OF b h(1), of "b - 1"] x [of "b - 1"] h(2) by auto
qed

lemma split_at:
  fixes L :: "nat list"
  assumes srt: "sorted_wrt (<) L" and free: "\<forall>q. b \<le> q \<and> q < b + n \<longrightarrow> q \<notin> set L"
    and n: "0 < n"
  defines "B \<equiv> takeWhile (\<lambda>p. p \<le> b) L" and "A \<equiv> dropWhile (\<lambda>p. p \<le> b) L"
  shows "L = B @ A" and "\<And>q. q \<in> set B \<longleftrightarrow> q \<in> set L \<and> q < b"
    and "\<And>q. q \<in> set A \<longleftrightarrow> q \<in> set L \<and> b + n \<le> q"
    and "sorted_wrt (<) (B @ [b..<b + n] @ A)"
    and "set (B @ [b..<b + n] @ A) = set L \<union> {b..<b + n}"
    and "b + n \<in> set L \<longleftrightarrow> A \<noteq> [] \<and> b + n = hd A"
    and "B \<noteq> [] \<and> Suc (last B) = b \<longleftrightarrow> (\<exists>x\<in>set L. Suc x = b)"
proof -
  have d: "\<And>q. b \<le> q \<Longrightarrow> q < b + n \<Longrightarrow> q \<notin> set L"
    using free by blast
  show L: "L = B @ A"
    by (simp add: B_def A_def)
  have sBA: "sorted_wrt (<) (B @ A)"
    using srt L by simp
  have B_le: "q < b" if "q \<in> set B" for q
  proof -
    have "q \<in> set L" "q \<le> b"
      using that set_takeWhileD [of q "\<lambda>p. p \<le> b" L] by (auto simp: B_def)
    then show ?thesis
      using d [of q] n by (cases "q = b") auto
  qed
  have A_gt: "b + n \<le> q" if q: "q \<in> set A" for q
  proof -
    obtain a as where A: "A = a # as"
      using q by (cases A) auto
    then have "b < a" "a \<le> q"
      using hd_dropWhile [of "\<lambda>p. p \<le> b" L] sBA q by (auto simp: A_def sorted_wrt_append)
    then show ?thesis
      using d [of q] q L by (cases "q < b + n") auto
  qed
  show memB: "q \<in> set B \<longleftrightarrow> q \<in> set L \<and> q < b" for q
    using B_le A_gt n by (subst L) fastforce
  show memA: "q \<in> set A \<longleftrightarrow> q \<in> set L \<and> b + n \<le> q" for q
    using B_le A_gt n by (subst L) fastforce
  show "sorted_wrt (<) (B @ [b..<b + n] @ A)"
    using sBA B_le A_gt by (fastforce simp: sorted_wrt_append)
  show "set (B @ [b..<b + n] @ A) = set L \<union> {b..<b + n}"
    by (subst L) auto
  show "b + n \<in> set L \<longleftrightarrow> A \<noteq> [] \<and> b + n = hd A"
  proof
    assume "b + n \<in> set L"
    then have "b + n \<in> set A"
      by (simp add: memA)
    then show "A \<noteq> [] \<and> b + n = hd A"
      using A_gt [of "hd A"] sBA by (cases A) (auto simp: sorted_wrt_append)
  next
    assume "A \<noteq> [] \<and> b + n = hd A"
    then show "b + n \<in> set L"
      using memA by fastforce
  qed
  show "B \<noteq> [] \<and> Suc (last B) = b \<longleftrightarrow> (\<exists>x\<in>set L. Suc x = b)"
  proof
    assume "B \<noteq> [] \<and> Suc (last B) = b"
    then show "\<exists>x\<in>set L. Suc x = b"
      using memB last_in_set by blast
  next
    assume "\<exists>x\<in>set L. Suc x = b"
    then obtain x where x: "x \<in> set B" "Suc x = b"
      using memB by auto
    then obtain ys zs where B: "B = ys @ x # zs"
      by (meson split_list)
    then have "zs = []"
      using sBA B_le x by (cases zs) (fastforce simp: sorted_wrt_append)+
    then show "B \<noteq> [] \<and> Suc (last B) = b"
      using B x by simp
  qed
qed

lemma last_head:
  fixes B :: "nat list"
  assumes "sorted_wrt (<) B" and "h \<in> set B" and "0 < P h" and "\<And>y. y \<in> set B \<Longrightarrow> h < y \<Longrightarrow> P y = 0"
  obtains r where "dropWhile (\<lambda>p. P p = (0 :: nat)) (rev B) = h # r"
proof -
  obtain xs ys where B: "B = xs @ h # ys"
    using assms(2) by (meson split_list)
  have "\<forall>y\<in>set (rev ys). P y = 0"
    using assms(1,4) B by (auto simp: sorted_wrt_append)
  then have "dropWhile (\<lambda>p. P p = 0) (rev ys @ h # rev xs) = h # rev xs"
    using assms(3) by (subst dropWhile_append2) auto
  then show thesis
    using that B by simp
qed

lemma free_spec:
  assumes wf: "pmm_wf s" and n: "0 < n" and res: "PageReserved (pages s base)"
    and d: "\<forall>i<n. base + i \<notin> set (free_list s)"
    and z: "\<forall>i. 0 < i \<and> i < n \<longrightarrow> prop_of s (base + i) = 0"
  shows "case default_free_pages base n s of
           (Ok _, t) \<Rightarrow> pmm_wf t \<and> set (free_list t) = set (free_list s) \<union> {base..<base + n}
         | _ \<Rightarrow> False"
proof -
  let ?b = base and ?L = "free_list s" and ?P = "prop_of s"
  define B where "B = takeWhile (\<lambda>p. p \<le> base) ?L"
  define A where "A = dropWhile (\<lambda>p. p \<le> base) ?L"
  define P2 where
    "P2 = (if base + n \<in> set ?L then ?P(base := n + ?P (base + n), base + n := 0) else ?P(base := n))"
  define T where "T = set ?L \<union> {base..<base + n}"
  have b: "blocks (set ?L) ?P" and m: "merged (set ?L) ?P" and srt: "sorted_wrt (<) ?L"
    and nr: "nr_free s = length ?L"
    using wf by (simp_all add: pmm_wf_def)
  have d': "\<forall>q. base \<le> q \<and> q < base + n \<longrightarrow> q \<notin> set ?L"
    and z': "\<forall>q. base < q \<and> q < base + n \<longrightarrow> ?P q = 0"
    using d z by (metis le_Suc_ex nat_add_left_cancel_less less_imp_le_nat add.right_neutral)+
  note sp = split_at [OF srt d' n, folded B_def A_def]
  note fr = free_right [OF b m n d' z', folded P2_def T_def]
  have len: "length (B @ [base..<base + n] @ A) = length ?L + n"
    using arg_cong [OF sp(1), of length] by simp
  define s1 where "s1 = (fold (\<lambda>p. upd_page p (\<lambda>g. g\<lparr>pra_mm := None\<rparr>)) [base..<base + n] s)
    \<lparr>free_list := B @ [base..<base + n] @ A\<rparr>"
  define s2 where
    "s2 = upd_page base (\<lambda>g. (SetPageProperty (g\<lparr>flags := 0, ref := 0\<rparr>))\<lparr>property := n\<rparr>) s1"
  define s3 where "s3 = (case A of [] \<Rightarrow> s2 | p # _ \<Rightarrow> if base + n = p
      then upd_page p (\<lambda>g. g\<lparr>property := 0\<rparr>)
             (upd_page base (\<lambda>g. g\<lparr>property := property g + prop_of s2 p\<rparr>) s2) else s2)"
  have fl: "free_list s3 = B @ [base..<base + n] @ A" "nr_free s3 = nr_free s"
    by (simp_all add: s3_def s2_def s1_def split: list.split)
  have P3: "prop_of s3 = P2"
    using n sp(6) by (cases A) (auto simp: s3_def s2_def s1_def P2_def fun_eq_iff fold_upd_page_pages)
  define s4 where "s4 = (if B \<noteq> [] \<and> Suc (last B) = base
      then case dropWhile (\<lambda>p. prop_of s3 p = 0) (rev B) of [] \<Rightarrow> s3
         | p # _ \<Rightarrow> upd_page base (\<lambda>g. g\<lparr>property := 0\<rparr>)
                    (upd_page p (\<lambda>g. g\<lparr>property := property g + prop_of s3 base\<rparr>) s3)
      else s3)"
  have eq: "default_free_pages base n s = (Ok (), s4\<lparr>nr_free := nr_free s4 + n\<rparr>)"
    using n res unfolding default_free_pages_def s4_def s3_def s2_def s1_def B_def A_def Let_def
    by simp
  have fl4: "free_list s4 = B @ [base..<base + n] @ A" "nr_free s4 = nr_free s"
    using fl by (simp_all add: s4_def split: list.split)
  have "blocks T (prop_of s4) \<and> merged T (prop_of s4)"
  proof (cases "\<exists>x\<in>set ?L. Suc x = base")
    case True
    then obtain x where x: "x \<in> T" "Suc x = base"
      by (auto simp: T_def)
    have bT: "base \<in> T"
      using n by (simp add: T_def)
    obtain h where h: "h \<in> T" "h < base" "0 < P2 h" and y: "\<forall>y. h < y \<and> y < base \<longrightarrow> P2 y = 0"
      and ok: "blocks T (P2(h := P2 h + P2 base, base := 0))"
        "merged T (P2(h := P2 h + P2 base, base := 0))"
      by (rule free_left [OF fr(1,2) bT fr(3) x])
    have hB: "h \<in> set B"
      using h(1,2) sp(2) [of h] by (simp add: T_def)
    have sB: "sorted_wrt (<) B"
      using sp(4) by (simp add: sorted_wrt_append)
    obtain r where "dropWhile (\<lambda>p. P2 p = 0) (rev B) = h # r"
    proof (rule last_head [of B h P2, OF sB hB h(3)])
      show "P2 v = 0" if "v \<in> set B" "h < v" for v
        using y sp(2) [of v] that by simp
    qed
    then have "prop_of s4 = P2(h := P2 h + P2 base, base := 0)"
      using True sp(7) h(2) by (auto simp: s4_def fun_cong [OF P3] fun_eq_iff)
    with ok show ?thesis
      by simp
  next
    case False
    then have "prop_of s4 = P2"
      using sp(7) P3 by (auto simp: s4_def)
    moreover have "merged T P2"
      using free_left_none [OF fr(1,2)] False n by (fastforce simp: T_def)
    ultimately show ?thesis
      using fr(1) by simp
  qed
  then show ?thesis
    using fl4 sp(4,5) len nr by (simp add: eq pmm_wf_def T_def)
qed

text \<open>
  C23: Freeing \<open>n\<close> reserved pages that are not on the free list, and whose descriptors other than the
  first carry no block size, puts exactly these pages back, merges the block with both neighbours
  and keeps the free list well formed.  The pages of an allocated block satisfy the condition on
  the descriptors.
\<close>

theorem default_free_pages_merges:
  assumes wf: "pmm_wf s" and n: "0 < n" and res: "PageReserved (pages s base)"
    and d: "\<forall>i<n. base + i \<notin> set (free_list s)"
    and z: "\<forall>i. 0 < i \<and> i < n \<longrightarrow> prop_of s (base + i) = 0"
  shows "case default_free_pages base n s of
           (Ok _, t) \<Rightarrow> pmm_wf t \<and> set (free_list t) = set (free_list s) \<union> {base..<base + n}
         | _ \<Rightarrow> False"
  using free_spec [OF assms] .

section \<open>The allocator interface\<close>

text \<open>
  What \<open>struct pmm_manager\<close> (\<open>src/kern/mm/pmm.h\<close>) promises to its callers: \<open>avail\<close> is the set of free
  pages and \<open>owned p n\<close> says that the descriptors of a block are fit for freeing it as one.
\<close>

locale page_manager =
  fixes alloc :: "nat \<Rightarrow> 's \<Rightarrow> nat option outcome \<times> 's"
    and free :: "nat \<Rightarrow> nat \<Rightarrow> 's \<Rightarrow> unit outcome \<times> 's"
    and inv :: "'s \<Rightarrow> bool" and avail :: "'s \<Rightarrow> nat set" and owned :: "nat \<Rightarrow> nat \<Rightarrow> 's \<Rightarrow> bool"
  assumes alloc_total: "inv s \<Longrightarrow> 0 < n \<Longrightarrow> \<exists>r t. alloc n s = (Ok r, t)"
    and alloc_some: "inv s \<Longrightarrow> 0 < n \<Longrightarrow> alloc n s = (Ok (Some p), t) \<Longrightarrow>
      inv t \<and> {p..<p + n} \<subseteq> avail s \<and> avail t = avail s - {p..<p + n} \<and> owned p n t"
    and alloc_none: "inv s \<Longrightarrow> 0 < n \<Longrightarrow> alloc n s = (Ok None, t) \<Longrightarrow>
      t = s \<and> (\<nexists>p. {p..<p + n} \<subseteq> avail s)"
    and free_ok: "inv s \<Longrightarrow> 0 < n \<Longrightarrow> owned p n s \<Longrightarrow> {p..<p + n} \<inter> avail s = {} \<Longrightarrow>
      \<exists>t. free p n s = (Ok (), t) \<and> inv t \<and> avail t = avail s \<union> {p..<p + n}"
begin

lemma alloc_then_free:
  assumes "inv s" "0 < n" "alloc n s = (Ok (Some p), t)"
  obtains u where "free p n t = (Ok (), u)" "inv u" "avail u = avail s"
proof -
  have t: "inv t" "{p..<p + n} \<subseteq> avail s" "avail t = avail s - {p..<p + n}" "owned p n t"
    using alloc_some [OF assms] by auto
  then obtain u where "free p n t = (Ok (), u)" "inv u" "avail u = avail t \<union> {p..<p + n}"
    using free_ok [OF t(1) assms(2) t(4)] by auto
  with t(2,3) show thesis
    using that [of u] by (simp add: Un_absorb2)
qed

lemma allocs_disjoint:
  assumes "inv s" "0 < n" "0 < m" "alloc n s = (Ok (Some p), t)" "alloc m t = (Ok (Some q), u)"
  shows "{p..<p + n} \<inter> {q..<q + m} = {}"
  using alloc_some [OF assms(1,2,4)] alloc_some [OF _ assms(3,5)] by blast

lemma single_page_fails_iff_empty:
  assumes "inv s"
  shows "fst (alloc 1 s) = Ok None \<longleftrightarrow> avail s = {}"
proof -
  obtain r t where a: "alloc 1 s = (Ok r, t)"
    using alloc_total [OF assms, of 1] by auto
  show ?thesis
  proof (cases r)
    case None
    then show ?thesis
      using alloc_none [OF assms, of 1 t] a by (force simp: lessThan_Suc)
  next
    case (Some p)
    then show ?thesis
      using alloc_some [OF assms, of 1 p t] a by auto
  qed
qed

end

definition block_owned :: "nat \<Rightarrow> nat \<Rightarrow> 'a pmm_scheme \<Rightarrow> bool" where
  "block_owned p n s \<longleftrightarrow> PageReserved (pages s p) \<and> (\<forall>i. 0 < i \<and> i < n \<longrightarrow> prop_of s (p + i) = 0)"

interpretation first_fit: page_manager default_alloc_pages default_free_pages pmm_wf
  "\<lambda>s. set (free_list s)" block_owned
proof
  fix s t :: "'a pmm_scheme" and n p :: nat
  assume wf: "pmm_wf s" and n: "0 < n"
  note a = alloc_spec [OF wf n]
  show "\<exists>r t. default_alloc_pages n s = (Ok r, t)"
    using a by (cases "default_alloc_pages n s") (auto split: outcome.splits)
  have range: "{p..<p + n} \<subseteq> A \<longleftrightarrow> (\<forall>i<n. p + i \<in> A)" for p A
    by (auto simp: subset_eq) (metis le_Suc_ex nat_add_left_cancel_less)
  show "pmm_wf t \<and> {p..<p + n} \<subseteq> set (free_list s) \<and>
      set (free_list t) = set (free_list s) - {p..<p + n} \<and> block_owned p n t"
    if "default_alloc_pages n s = (Ok (Some p), t)"
    using a n unfolding that range block_owned_def by (auto dest: spec [of _ 0])
  show "t = s \<and> (\<nexists>p. {p..<p + n} \<subseteq> set (free_list s))"
    if "default_alloc_pages n s = (Ok None, t)"
    using a unfolding that range by auto
  show "\<exists>t. default_free_pages p n s = (Ok (), t) \<and> pmm_wf t \<and>
      set (free_list t) = set (free_list s) \<union> {p..<p + n}"
    if "block_owned p n s" "{p..<p + n} \<inter> set (free_list s) = {}"
  proof -
    have "\<forall>i<n. p + i \<notin> set (free_list s)"
      using that(2) by (simp add: disjoint_iff)
    then show ?thesis
      using free_spec [OF wf n, of p] that(1)
      by (cases "default_free_pages p n s") (auto simp: block_owned_def split: outcome.splits)
  qed
qed

text \<open>
  Allocating a block and freeing it again gives back a well-formed allocator with the same free
  pages.
\<close>

theorem alloc_free_restores:
  assumes "pmm_wf s" and "0 < n" and "default_alloc_pages n s = (Ok (Some p), t)"
  shows "\<exists>u. default_free_pages p n t = (Ok (), u) \<and> pmm_wf u \<and> set (free_list u) = set (free_list s)"
  by (rule first_fit.alloc_then_free [OF assms]) blast

lemma init_loop:
  "(\<forall>p\<in>set ps. PageReserved (pages s p)) \<Longrightarrow> distinct ps \<Longrightarrow>
   \<exists>t. init_memmap_loop ps s = (Ok (), t) \<and> free_list t = free_list s @ ps \<and>
       nr_free t = nr_free s \<and> prop_of t = (\<lambda>p. if p \<in> set ps then 0 else prop_of s p)"
proof (induction ps arbitrary: s)
  case (Cons p ps)
  let ?u = "(upd_page p (\<lambda>g. (SetPageProperty (g\<lparr>flags := 0\<rparr>))\<lparr>property := 0, ref := 0, pra_mm := None\<rparr>)
    s)\<lparr>free_list := free_list s @ [p]\<rparr>"
  have "\<forall>q\<in>set ps. PageReserved (pages ?u q)"
    using Cons.prems by auto
  then obtain t where "init_memmap_loop ps ?u = (Ok (), t)" "free_list t = free_list ?u @ ps"
    "nr_free t = nr_free ?u" "prop_of t = (\<lambda>p. if p \<in> set ps then 0 else prop_of ?u p)"
    using Cons.IH [of ?u] Cons.prems by auto
  then show ?case
    using Cons.prems by (auto simp: fun_eq_iff)
qed simp

lemma init_region:
  assumes "0 < n" and "\<forall>p\<in>{base..<base + n}. PageReserved (pages s p)"
  shows "case default_init_memmap base n (default_init s) of
           (Ok _, t) \<Rightarrow> pmm_wf t \<and> free_list t = [base..<base + n] \<and> nr_free t = n
         | _ \<Rightarrow> False"
proof -
  obtain t where t: "init_memmap_loop [base..<base + n] (default_init s) = (Ok (), t)"
    "free_list t = [base..<base + n]" "nr_free t = 0"
    "prop_of t = (\<lambda>p. if p \<in> {base..<base + n} then 0 else prop_of (default_init s) p)"
    using init_loop [of "[base..<base + n]" "default_init s"] assms
    by (auto simp: default_init_def)
  have "blocks {base..<base + n} ((prop_of t)(base := n))"
  proof -
    have "blocks {} (prop_of t)"
      by (simp add: blocks_def)
    then show ?thesis
      using blocks_new [of "{}" "prop_of t" base n] assms(1) fun_cong [OF t(4)] by simp
  qed
  moreover have "merged {base..<base + n} ((prop_of t)(base := n))"
    using fun_cong [OF t(4)] by (simp add: merged_def)
  moreover have "prop_of (upd_page base (property_update (\<lambda>_. n)) (t\<lparr>nr_free := n\<rparr>)) =
      (prop_of t)(base := n)"
    by (simp add: fun_eq_iff)
  ultimately show ?thesis
    using assms(1) t(1,2,3)
    by (simp add: default_init_memmap_def pmm_wf_def sorted_wrt_upt del: fun_upd_apply)
qed

text \<open>
  Boot: registering one region of \<open>n\<close> reserved pages with the freshly initialised allocator
  succeeds and gives a well-formed free list of exactly these pages.
\<close>

theorem default_init_memmap_wf:
  assumes "0 < n" and "\<forall>p\<in>{base..<base + n}. PageReserved (pages s p)"
  shows "case default_init_memmap base n (default_init s) of
           (Ok _, t) \<Rightarrow> pmm_wf t \<and> free_list t = [base..<base + n] \<and> nr_free t = n
         | _ \<Rightarrow> False"
  using init_region [OF assms] .

text \<open>A concrete machine for the witnesses: six reserved pages handed to the allocator.\<close>

definition boot_pmm :: pmm where
  "boot_pmm = \<lparr> pages = (\<lambda>_. \<lparr> ref = 0, flags = 1, property = 0, pra_vaddr = 0, pra_mm = None \<rparr>),
                free_list = [], nr_free = 0 \<rparr>"

definition boot6 :: pmm where
  "boot6 = snd (default_init_memmap 0 6 (default_init boot_pmm))"

lemma boot6_wf: "pmm_wf boot6" "free_list boot6 = [0..<6]" "nr_free boot6 = 6"
  using init_region [of 6 0 boot_pmm]
  by (auto simp: boot6_def boot_pmm_def PageReserved_def split: prod.splits outcome.splits)

theorem default_init_memmap_wf_witness:
  "case default_init_memmap 0 6 (default_init boot_pmm) of
     (Ok _, t) \<Rightarrow> pmm_wf t \<and> free_list t = [0..<0 + 6] \<and> nr_free t = 6 | _ \<Rightarrow> False"
  using default_init_memmap_wf [of 6 0 boot_pmm] by (simp add: boot_pmm_def PageReserved_def)

theorem default_alloc_pages_first_fit_witness:
  "case default_alloc_pages 2 boot6 of
     (Ok (Some p), t) \<Rightarrow>
       pmm_wf t \<and> set (free_list t) = set (free_list boot6) - {p..<p + 2} \<and>
       (\<forall>i<2. p + i \<in> set (free_list boot6) \<and> PageReserved (pages t (p + i))) \<and>
       (\<forall>i. 0 < i \<and> i < 2 \<longrightarrow> prop_of t (p + i) = 0) \<and>
       (\<forall>a. (\<forall>i<2. a + i \<in> set (free_list boot6)) \<longrightarrow> p \<le> a)
   | (Ok None, t) \<Rightarrow> t = boot6 \<and> (\<nexists>a. \<forall>i<2. a + i \<in> set (free_list boot6))
   | _ \<Rightarrow> False"
  using default_alloc_pages_first_fit [OF boot6_wf(1), of 2] by simp

text \<open>
  The condition on the descriptors in the freeing contract is needed, and \<open>default_alloc_pages\<close>
  does not re-establish it: a page keeps its \<open>property\<close> when it is allocated.  Freeing two
  neighbouring pages that had been allocated one by one as a block of two (what \<open>slob_free\<close> does
  with a coalesced run) leaves a stale size in the second one, and a later request for three
  pages is answered with a run that contains page 2, which is still allocated.
\<close>

theorem stale_property_hands_out_allocated_page:
  "let s1 = snd (default_alloc_pages 1 boot6);
       s2 = snd (default_alloc_pages 1 s1);
       s3 = snd (default_alloc_pages 1 s2);
       s4 = snd (default_free_pages 0 2 s3)
   in map fst [default_alloc_pages 1 boot6, default_alloc_pages 1 s1, default_alloc_pages 1 s2]
        = [Ok (Some 0), Ok (Some 1), Ok (Some 2)] \<and>
      free_list s4 = [0, 1, 3, 4, 5] \<and> fst (default_alloc_pages 3 s4) = Ok (Some 1)"
  by code_simp

definition boot6_two :: pmm where
  "boot6_two = snd (default_alloc_pages 2 boot6)"

lemma boot6_two_wf: "pmm_wf boot6_two"
proof (rule alloc_wf(1) [OF boot6_wf(1)])
  show "dropWhile (\<lambda>p. prop_of boot6 p < 2) (free_list boot6) = 0 # [1, 2, 3, 4, 5]"
    by code_simp
  show "default_alloc_pages 2 boot6 = (Ok (Some 0), boot6_two)"
    unfolding boot6_two_def by (rule prod_eqI) (code_simp, simp)
qed (simp_all add: boot6_wf)

theorem default_free_pages_merges_witness:
  "free_list boot6_two = [2, 3, 4, 5] \<and>
   (case default_free_pages 0 2 boot6_two of
      (Ok _, t) \<Rightarrow> pmm_wf t \<and> set (free_list t) = set (free_list boot6_two) \<union> {0..<0 + 2}
    | _ \<Rightarrow> False)"
proof
  show fl: "free_list boot6_two = [2, 3, 4, 5]"
    by code_simp
  have "PageReserved (pages boot6_two 0)" "prop_of boot6_two 1 = 0"
    by code_simp+
  then show "case default_free_pages 0 2 boot6_two of
      (Ok _, t) \<Rightarrow> pmm_wf t \<and> set (free_list t) = set (free_list boot6_two) \<union> {0..<0 + 2}
    | _ \<Rightarrow> False"
    by (intro default_free_pages_merges boot6_two_wf)
      (auto simp: fl less_Suc_eq numeral_2_eq_2)
qed

theorem alloc_free_restores_witness:
  "\<exists>u. default_free_pages 0 2 boot6_two = (Ok (), u) \<and> pmm_wf u \<and> set (free_list u) = {0..<6}"
proof -
  have "default_alloc_pages 2 boot6 = (Ok (Some 0), boot6_two)"
    unfolding boot6_two_def by (rule prod_eqI) (code_simp, simp)
  from alloc_free_restores [OF boot6_wf(1) _ this] show ?thesis
    by (simp add: boot6_wf)
qed

end
