(* ===== verification/Paging.thy ===== *)
theory Paging
  imports Pmm
begin

text \<open>
  Page tables, the swap subsystem and the reclaiming page allocator: the core of
  \<open>src/kern/mm/pmm.c\<close>, \<open>swap.c\<close>, \<open>swap_fifo.c\<close> and \<open>src/kern/fs/swap/swapfs.c\<close>.

  The state extends the one of the page allocator.  A page directory is a number; \<open>pde\<close> gives the
  page that holds a page table (the flags of a directory entry are always \<open>P|W|U\<close>) and \<open>pt\<close> the
  entries of the tables, which are kept apart from the contents \<open>page_data\<close> of the other pages.  Tables
  are pages of the allocator, so their numbers are below \<open>npage\<close> and \<open>KADDR\<close> does not panic on them.
  A \<open>pte_t *\<close> is the pair of table page and index.  Linear addresses are
  natural numbers below \<open>2\<^sup>3\<^sup>2\<close>; every loop over them runs below \<open>USERTOP\<close>, so nothing wraps.
  Spin locks are not modelled: each operation is one atomic step.  TLB flushes have no effect on
  the state.  The disk answers the transfers with the results in \<open>disk_errors\<close>, and succeeds when
  that list is used up.
\<close>

section \<open>State\<close>

abbreviation PGSIZE :: nat where "PGSIZE \<equiv> 4096"
abbreviation PTSIZE :: nat where "PTSIZE \<equiv> 4194304"
abbreviation USERBASE :: nat where "USERBASE \<equiv> 0x00200000"
abbreviation USERTOP :: nat where "USERTOP \<equiv> 0xB0000000"
abbreviation PTE_P :: u32 where "PTE_P \<equiv> 0x001"
abbreviation PTE_W :: u32 where "PTE_W \<equiv> 0x002"
abbreviation PTE_U :: u32 where "PTE_U \<equiv> 0x004"
abbreviation PTE_MPROTECT :: u32 where "PTE_MPROTECT \<equiv> 0x080"
abbreviation PTE_COW :: u32 where "PTE_COW \<equiv> 0x200"
abbreviation PTE_USER :: u32 where "PTE_USER \<equiv> 0x007"

record kmem = pmm +
  npage :: nat
  pde :: "nat \<Rightarrow> nat \<Rightarrow> nat option"
  pt :: "nat \<Rightarrow> nat \<Rightarrow> u32"
  page_data :: "nat \<Rightarrow> nat \<Rightarrow> u8"
  swap_init_ok :: bool
  pra_list :: "nat list"
  slot_refs :: "nat \<Rightarrow> u16"
  slot_count :: nat
  disk :: "nat \<Rightarrow> nat \<Rightarrow> u8"
  disk_errors :: "errno option list"
  mm_pgdir :: "nat \<Rightarrow> nat"
  sm_priv :: "nat \<Rightarrow> bool"
  mm_busy :: "nat \<Rightarrow> bool"
  reclaim_mm :: "nat option"

definition PDX :: "nat \<Rightarrow> nat" where
  "PDX la = la div 4194304 mod 1024"

definition PTX :: "nat \<Rightarrow> nat" where
  "PTX la = la div 4096 mod 1024"

definition USER_ACCESS :: "nat \<Rightarrow> nat \<Rightarrow> bool" where
  "USER_ACCESS start stop \<longleftrightarrow> USERBASE \<le> start \<and> start < stop \<and> stop \<le> USERTOP"

definition PTE_ADDR :: "u32 \<Rightarrow> u32" where
  "PTE_ADDR pte = pte AND NOT 0xFFF"

definition PPN :: "u32 \<Rightarrow> nat" where
  "PPN pa = unat (drop_bit 12 pa)"

definition page2pa :: "nat \<Rightarrow> u32" where
  "page2pa page = push_bit 12 (of_nat page)"

definition pa2page :: "u32 \<Rightarrow> 'a kmem_scheme \<Rightarrow> nat outcome" where
  "pa2page pa s = (if PPN pa \<ge> npage s then Fault else Ok (PPN pa))"

definition pte2page :: "u32 \<Rightarrow> 'a kmem_scheme \<Rightarrow> nat outcome" where
  "pte2page pte s = (if \<not> bit pte 0 then Fault else pa2page (PTE_ADDR pte) s)"

definition set_page_ref :: "nat \<Rightarrow> int \<Rightarrow> 'a kmem_scheme \<Rightarrow> 'a kmem_scheme" where
  "set_page_ref page v s = upd_page page (\<lambda>g. g\<lparr>ref := v\<rparr>) s"

definition page_ref :: "nat \<Rightarrow> 'a kmem_scheme \<Rightarrow> int" where
  "page_ref page s = ref (pages s page)"

definition page_ref_inc :: "nat \<Rightarrow> 'a kmem_scheme \<Rightarrow> 'a kmem_scheme" where
  "page_ref_inc page s = set_page_ref page (page_ref page s + 1) s"

definition page_ref_dec :: "nat \<Rightarrow> 'a kmem_scheme \<Rightarrow> 'a kmem_scheme" where
  "page_ref_dec page s = set_page_ref page (page_ref page s - 1) s"

section \<open>Swap slots\<close>

definition swap_entry_valid :: "u32 \<Rightarrow> 'a kmem_scheme \<Rightarrow> nat option" where
  "swap_entry_valid entry s = (
     let slot = unat (drop_bit 8 entry) in
     if slot = 0 \<or> slot \<ge> slot_count s then None else Some slot)"

definition swap_alloc_entry :: "'a kmem_scheme \<Rightarrow> u32 outcome \<times> 'a kmem_scheme" where
  "swap_alloc_entry s = (
     case find (\<lambda>slot. slot_refs s slot = 0) [1..<slot_count s] of
       Some slot \<Rightarrow> (Ok (push_bit 8 (of_nat slot)), s\<lparr>slot_refs := (slot_refs s)(slot := 1)\<rparr>)
     | None \<Rightarrow> (Err E_NO_MEM, s))"

definition swap_duplicate_entry :: "u32 \<Rightarrow> 'a kmem_scheme \<Rightarrow> unit outcome \<times> 'a kmem_scheme" where
  "swap_duplicate_entry entry s = (
     case swap_entry_valid entry s of
       None \<Rightarrow> (Err E_INVAL, s)
     | Some slot \<Rightarrow>
         if slot_refs s slot = 0 \<or> slot_refs s slot = 0xFFFF then (Err E_INVAL, s)
         else (Ok (), s\<lparr>slot_refs := (slot_refs s)(slot := slot_refs s slot + 1)\<rparr>))"

definition swap_release_entry :: "u32 \<Rightarrow> 'a kmem_scheme \<Rightarrow> 'a kmem_scheme" where
  "swap_release_entry entry s = (
     case swap_entry_valid entry s of
       None \<Rightarrow> s
     | Some slot \<Rightarrow>
         if slot_refs s slot \<noteq> 0
         then s\<lparr>slot_refs := (slot_refs s)(slot := slot_refs s slot - 1)\<rparr>
         else s)"

definition disk_result :: "'a kmem_scheme \<Rightarrow> errno option \<times> 'a kmem_scheme" where
  "disk_result s = (case disk_errors s of [] \<Rightarrow> (None, s) | r # rs \<Rightarrow> (r, s\<lparr>disk_errors := rs\<rparr>))"

definition swap_offset :: "u32 \<Rightarrow> 'a kmem_scheme \<Rightarrow> nat outcome" where
  "swap_offset entry s = (
     let off = unat (drop_bit 8 entry) in if 0 < off \<and> off < slot_count s then Ok off else Fault)"

definition swapfs_read :: "u32 \<Rightarrow> nat \<Rightarrow> 'a kmem_scheme \<Rightarrow> unit outcome \<times> 'a kmem_scheme" where
  "swapfs_read entry page s = (
     case swap_offset entry s of
       Ok off \<Rightarrow> (case disk_result s of
           (None, s) \<Rightarrow> (Ok (), s\<lparr>page_data := (page_data s)(page := disk s off)\<rparr>)
         | (Some e, s) \<Rightarrow> (Err e, s))
     | _ \<Rightarrow> (Fault, s))"

definition swapfs_write :: "u32 \<Rightarrow> nat \<Rightarrow> 'a kmem_scheme \<Rightarrow> unit outcome \<times> 'a kmem_scheme" where
  "swapfs_write entry page s = (
     case swap_offset entry s of
       Ok off \<Rightarrow> (case disk_result s of
           (None, s) \<Rightarrow> (Ok (), s\<lparr>disk := (disk s)(off := page_data s page)\<rparr>)
         | (Some e, s) \<Rightarrow> (Err e, s))
     | _ \<Rightarrow> (Fault, s))"

section \<open>The FIFO replacement queue\<close>

text \<open>New entries are linked at the head of the list, the victim is taken from its tail.\<close>

definition fifo_untrack_page :: "nat \<Rightarrow> 'a kmem_scheme \<Rightarrow> 'a kmem_scheme" where
  "fifo_untrack_page page s =
     upd_page page (\<lambda>g. g\<lparr>pra_mm := None, pra_vaddr := 0\<rparr>)
       (s\<lparr>pra_list := filter (\<lambda>p. p \<noteq> page) (pra_list s)\<rparr>)"

definition fifo_map_swappable ::
    "nat \<Rightarrow> nat \<Rightarrow> nat \<Rightarrow> 'a kmem_scheme \<Rightarrow> unit outcome \<times> 'a kmem_scheme" where
  "fifo_map_swappable mm addr page s = (
     if \<not> sm_priv s mm then (Err E_INVAL, s)
     else if page \<in> set (pra_list s) then (Ok (), s)
     else (Ok (), upd_page page (\<lambda>g. g\<lparr>pra_mm := Some mm, pra_vaddr := of_nat addr\<rparr>)
                    (s\<lparr>pra_list := page # pra_list s\<rparr>)))"

definition fifo_swap_out_victim ::
    "nat \<Rightarrow> bool \<Rightarrow> 'a kmem_scheme \<Rightarrow> nat outcome \<times> 'a kmem_scheme" where
  "fifo_swap_out_victim mm in_tick s = (
     if \<not> sm_priv s mm \<or> in_tick then (Err E_INVAL, s)
     else if pra_list s = [] then (Err E_NO_MEM, s)
     else (Ok (last (pra_list s)), s\<lparr>pra_list := butlast (pra_list s)\<rparr>))"

section \<open>Reclaim and allocation\<close>

definition free_pages :: "nat \<Rightarrow> nat \<Rightarrow> 'a kmem_scheme \<Rightarrow> unit outcome \<times> 'a kmem_scheme" where
  "free_pages base n s = (
     let s = (if swap_init_ok s then fold fifo_untrack_page [base..<base + n] s else s)
     in default_free_pages base n s)"

abbreviation free_page :: "nat \<Rightarrow> 'a kmem_scheme \<Rightarrow> unit outcome \<times> 'a kmem_scheme" where
  "free_page page s \<equiv> free_pages page 1 s"

text \<open>\<open>get_pte\<close> with \<open>create = 0\<close>.\<close>

definition find_pte :: "nat \<Rightarrow> nat \<Rightarrow> 'a kmem_scheme \<Rightarrow> (nat \<times> nat) option" where
  "find_pte pgdir la s = map_option (\<lambda>q. (q, PTX la)) (pde s pgdir (PDX la))"

definition read_pte :: "nat \<times> nat \<Rightarrow> 'a kmem_scheme \<Rightarrow> u32" where
  "read_pte ptr s = pt s (fst ptr) (snd ptr)"

definition write_pte :: "nat \<times> nat \<Rightarrow> u32 \<Rightarrow> 'a kmem_scheme \<Rightarrow> 'a kmem_scheme" where
  "write_pte ptr v s = s\<lparr>pt := (pt s)(fst ptr := (pt s (fst ptr))(snd ptr := v))\<rparr>"

definition fifo_set_unswappable ::
    "nat \<Rightarrow> nat \<Rightarrow> 'a kmem_scheme \<Rightarrow> unit outcome \<times> 'a kmem_scheme" where
  "fifo_set_unswappable mm addr s = (
     case find_pte (mm_pgdir s mm) addr s of
       None \<Rightarrow> (Ok (), s)
     | Some ptr \<Rightarrow>
         if bit (read_pte ptr s) 0
         then (case pte2page (read_pte ptr s) s of
                 Ok page \<Rightarrow>
                   (Ok (), if page \<in> set (pra_list s) then fifo_untrack_page page s else s)
               | _ \<Rightarrow> (Fault, s))
         else (Ok (), s))"

text \<open>\<open>if (page_ref_dec(page) == 0) free_page(page);\<close>\<close>

definition put_page :: "nat \<Rightarrow> 'a kmem_scheme \<Rightarrow> unit outcome \<times> 'a kmem_scheme" where
  "put_page page s = (
     let s = page_ref_dec page s in
     if page_ref page s = 0 then free_page page s else (Ok (), s))"

text \<open>
  The loop of \<open>swap_out\<close>.  The first argument is what is left of the scan limit.  A page that cannot
  be written out goes back to the head of the queue through \<open>fifo_map_swappable\<close>.
\<close>

fun swap_out_loop ::
    "nat \<Rightarrow> nat \<Rightarrow> nat \<Rightarrow> nat \<Rightarrow> bool \<Rightarrow> 'a kmem_scheme \<Rightarrow> nat outcome \<times> 'a kmem_scheme" where
  "swap_out_loop 0 swapped n mm in_tick s = (Ok swapped, s)"
| "swap_out_loop (Suc scans) swapped n mm in_tick s = (
     if \<not> swapped < n then (Ok swapped, s)
     else case fifo_swap_out_victim mm in_tick s of
       (Ok page, s) \<Rightarrow>
         (case pra_mm (pages s page) of
            None \<Rightarrow> swap_out_loop scans swapped n mm in_tick s
          | Some owner \<Rightarrow>
            let v = unat (pra_vaddr (pages s page));
                again = (\<lambda>s. swap_out_loop scans swapped n mm in_tick
                                (snd (fifo_map_swappable owner v page s)))
            in if page_ref page s \<noteq> 1 then swap_out_loop scans swapped n mm in_tick s
               else if owner \<noteq> mm \<and> mm_busy s owner then again s
               else case find_pte (mm_pgdir s owner) v s of
                   None \<Rightarrow> again s
                 | Some ptr \<Rightarrow>
                   if \<not> bit (read_pte ptr s) 0 then again s
                   else case pte2page (read_pte ptr s) s of
                     Ok p \<Rightarrow>
                       if p \<noteq> page then again s
                       else (case swap_alloc_entry s of
                         (Ok entry, s) \<Rightarrow>
                           (case swapfs_write entry page s of
                              (Ok _, s) \<Rightarrow>
                                (case put_page page (write_pte ptr entry s) of
                                   (Ok _, s) \<Rightarrow> swap_out_loop scans (Suc swapped) n mm in_tick s
                                 | (_, s) \<Rightarrow> (Fault, s))
                            | (Err _, s) \<Rightarrow> again (swap_release_entry entry s)
                            | (Fault, s) \<Rightarrow> (Fault, s))
                       | (_, s) \<Rightarrow> (Ok swapped, snd (fifo_map_swappable owner v page s)))
                   | _ \<Rightarrow> (Fault, s))
     | (_, s) \<Rightarrow> (Ok swapped, s))"

definition swap_out :: "nat \<Rightarrow> nat \<Rightarrow> bool \<Rightarrow> 'a kmem_scheme \<Rightarrow> nat outcome \<times> 'a kmem_scheme" where
  "swap_out mm n in_tick s = (if n = 0 then (Ok 0, s) else swap_out_loop 64 0 n mm in_tick s)"

fun alloc_pages_loop ::
    "nat \<Rightarrow> nat \<Rightarrow> 'a kmem_scheme \<Rightarrow> nat option outcome \<times> 'a kmem_scheme" where
  "alloc_pages_loop attempts n s = (
     case default_alloc_pages n s of
       (Ok None, s) \<Rightarrow>
         if n > 1 \<or> \<not> swap_init_ok s then (Ok None, s)
         else (case reclaim_mm s of
            None \<Rightarrow> (Ok None, s)
          | Some mm \<Rightarrow>
            (case attempts of
               0 \<Rightarrow> (Ok None, s)
             | Suc left \<Rightarrow>
               (case swap_out mm n False s of
                  (Ok k, s) \<Rightarrow> if k = 0 then (Ok None, s) else alloc_pages_loop left n s
                | (_, s) \<Rightarrow> (Fault, s))))
     | r \<Rightarrow> r)"

definition alloc_pages :: "nat \<Rightarrow> 'a kmem_scheme \<Rightarrow> nat option outcome \<times> 'a kmem_scheme" where
  "alloc_pages n s = alloc_pages_loop 8 n s"

abbreviation alloc_page :: "'a kmem_scheme \<Rightarrow> nat option outcome \<times> 'a kmem_scheme" where
  "alloc_page s \<equiv> alloc_pages 1 s"

definition nr_free_pages :: "'a kmem_scheme \<Rightarrow> nat" where
  "nr_free_pages s = default_nr_free_pages s"

section \<open>Page tables\<close>

definition get_pte ::
    "nat \<Rightarrow> nat \<Rightarrow> bool \<Rightarrow> 'a kmem_scheme \<Rightarrow> (nat \<times> nat) option outcome \<times> 'a kmem_scheme" where
  "get_pte pgdir la create s = (
     case pde s pgdir (PDX la) of
       Some q \<Rightarrow> (Ok (Some (q, PTX la)), s)
     | None \<Rightarrow>
         if \<not> create then (Ok None, s)
         else sbind (alloc_page s) (\<lambda>page s.
           case page of
             None \<Rightarrow> (Ok None, s)
           | Some q \<Rightarrow>
               let s = set_page_ref q 1 s;
                   s = s\<lparr>pt := (pt s)(q := (\<lambda>_. 0)),
                         pde := (pde s)(pgdir := (pde s pgdir)(PDX la \<mapsto> q))\<rparr>
               in (Ok (Some (q, PTX la)), s)))"

definition get_page :: "nat \<Rightarrow> nat \<Rightarrow> 'a kmem_scheme \<Rightarrow> nat option outcome" where
  "get_page pgdir la s = (
     case find_pte pgdir la s of
       None \<Rightarrow> Ok None
     | Some ptr \<Rightarrow>
         if bit (read_pte ptr s) 0 then obind (pte2page (read_pte ptr s) s) (\<lambda>p. Ok (Some p))
         else Ok None)"

definition page_remove_pte :: "nat \<times> nat \<Rightarrow> 'a kmem_scheme \<Rightarrow> unit outcome \<times> 'a kmem_scheme" where
  "page_remove_pte ptr s = (
     if bit (read_pte ptr s) 0
     then (case pte2page (read_pte ptr s) s of
             Ok page \<Rightarrow> sbind (put_page page s) (\<lambda>_ s. (Ok (), write_pte ptr 0 s))
           | _ \<Rightarrow> (Fault, s))
     else (Ok (), s))"

text \<open>The body of the inner loop of \<open>unmap_range\<close>.\<close>

definition unmap_pte :: "nat \<times> nat \<Rightarrow> 'a kmem_scheme \<Rightarrow> unit outcome \<times> 'a kmem_scheme" where
  "unmap_pte ptr s = (
     let pte = read_pte ptr s in
     if bit pte 0 then page_remove_pte ptr s
     else if bit pte 7
     then (case pa2page (PTE_ADDR pte) s of
             Ok page \<Rightarrow> sbind (put_page page s) (\<lambda>_ s. (Ok (), write_pte ptr 0 s))
           | _ \<Rightarrow> (Fault, s))
     else if pte \<noteq> 0 then (Ok (), write_pte ptr 0 (swap_release_entry pte s))
     else (Ok (), s))"

function unmap_ptes ::
    "nat \<Rightarrow> nat \<Rightarrow> nat \<Rightarrow> 'a kmem_scheme \<Rightarrow> unit outcome \<times> 'a kmem_scheme" where
  "unmap_ptes q la limit s = (
     if la < limit
     then sbind (unmap_pte (q, PTX la) s) (\<lambda>_ s. unmap_ptes q (la + PGSIZE) limit s)
     else (Ok (), s))"
  by auto
termination
  by (relation "measure (\<lambda>(q, la, limit, s). limit - la)") auto

lemma div_mult_add_gt: "0 < (k :: nat) \<Longrightarrow> n < n div k * k + k"
  by (metis div_mult_mod_eq mod_less_divisor nat_add_left_cancel_less)

function unmap_range_loop ::
    "nat \<Rightarrow> nat \<Rightarrow> nat \<Rightarrow> 'a kmem_scheme \<Rightarrow> unit outcome \<times> 'a kmem_scheme" where
  "unmap_range_loop pgdir start stop s = (
     if start < stop
     then
       let limit = min stop (start div PTSIZE * PTSIZE + PTSIZE) in
       case pde s pgdir (PDX start) of
         None \<Rightarrow> unmap_range_loop pgdir limit stop s
       | Some q \<Rightarrow>
           sbind (unmap_ptes q start limit s) (\<lambda>_ s.
           if \<forall>i\<in>{0..<1024}. pt s q i = 0
           then sbind (free_page q s) (\<lambda>_ s.
             unmap_range_loop pgdir limit stop
               (s\<lparr>pde := (pde s)(pgdir := (pde s pgdir)(PDX start := None))\<rparr>))
           else unmap_range_loop pgdir limit stop s)
     else (Ok (), s))"
  by auto
termination
  by (relation "measure (\<lambda>(d, start, stop, s). stop - start)")
    (auto simp: min_def div_mult_add_gt diff_less_mono2)

definition unmap_range ::
    "nat \<Rightarrow> nat \<Rightarrow> nat \<Rightarrow> 'a kmem_scheme \<Rightarrow> unit outcome \<times> 'a kmem_scheme" where
  "unmap_range pgdir start stop s = (
     if start mod PGSIZE \<noteq> 0 \<or> stop mod PGSIZE \<noteq> 0 \<or> \<not> USER_ACCESS start stop then (Fault, s)
     else unmap_range_loop pgdir start stop s)"

text \<open>
  The loop of \<open>exit_range\<close> runs at least once; its other exit, \<open>start\<close> wrapping to 0, cannot be taken
  below \<open>USERTOP\<close>.
\<close>

function exit_range_loop ::
    "nat \<Rightarrow> nat \<Rightarrow> nat \<Rightarrow> 'a kmem_scheme \<Rightarrow> unit outcome \<times> 'a kmem_scheme" where
  "exit_range_loop pgdir start stop s =
     sbind (case pde s pgdir (PDX start) of
              None \<Rightarrow> (Ok (), s)
            | Some q \<Rightarrow> sbind (free_page q s) (\<lambda>_ s.
                (Ok (), s\<lparr>pde := (pde s)(pgdir := (pde s pgdir)(PDX start := None))\<rparr>)))
       (\<lambda>_ s. if start + PTSIZE < stop then exit_range_loop pgdir (start + PTSIZE) stop s
              else (Ok (), s))"
  by auto
termination
  by (relation "measure (\<lambda>(d, start, stop, s). stop - start)") auto

definition exit_range ::
    "nat \<Rightarrow> nat \<Rightarrow> nat \<Rightarrow> 'a kmem_scheme \<Rightarrow> unit outcome \<times> 'a kmem_scheme" where
  "exit_range pgdir start stop s = (
     if start mod PGSIZE \<noteq> 0 \<or> stop mod PGSIZE \<noteq> 0 \<or> \<not> USER_ACCESS start stop then (Fault, s)
     else exit_range_loop pgdir (start div PTSIZE * PTSIZE) stop s)"

text \<open>
  The body of \<open>copy_range\<close> for a non-zero entry of the parent.  \<open>source\<close> is read before \<open>get_pte\<close> may
  allocate, and used after it, as in the code.
\<close>

definition copy_pte ::
    "nat \<Rightarrow> nat \<times> nat \<Rightarrow> nat \<Rightarrow> bool \<Rightarrow> 'a kmem_scheme \<Rightarrow> unit outcome \<times> 'a kmem_scheme" where
  "copy_pte dst ptr la share s = (
     let source = read_pte ptr s in
     sbind (get_pte dst la True s) (\<lambda>np s.
     case np of
       None \<Rightarrow> (Err E_NO_MEM, s)
     | Some nptr \<Rightarrow>
         if bit source 0
         then (case pte2page source s of
             Ok page \<Rightarrow>
               let (source, s) = (if \<not> share \<and> bit source 1
                     then ((source AND NOT PTE_W) OR PTE_COW,
                           write_pte ptr ((source AND NOT PTE_W) OR PTE_COW) s)
                     else (source, s));
                   perm = source AND (PTE_USER OR PTE_COW);
                   s = page_ref_inc page s
               in (Ok (), write_pte nptr (page2pa page OR perm) s)
           | _ \<Rightarrow> (Fault, s))
         else if bit source 7
         then (case pa2page (PTE_ADDR source) s of
             Ok page \<Rightarrow>
               let (source, s) = (if \<not> share \<and> bit source 1
                     then ((source AND NOT PTE_W) OR PTE_COW,
                           write_pte ptr ((source AND NOT PTE_W) OR PTE_COW) s)
                     else (source, s));
                   s = page_ref_inc page s
               in (Ok (), write_pte nptr source s)
           | _ \<Rightarrow> (Fault, s))
         else (case swap_duplicate_entry source s of
             (Ok _, s) \<Rightarrow> (Ok (), write_pte nptr source s)
           | (_, s) \<Rightarrow> (Err E_INVAL, s))))"

function copy_range_loop ::
    "nat \<Rightarrow> nat \<Rightarrow> nat \<Rightarrow> nat \<Rightarrow> bool \<Rightarrow> 'a kmem_scheme \<Rightarrow> unit outcome \<times> 'a kmem_scheme" where
  "copy_range_loop dst src start stop share s = (
     case find_pte src start s of
       None \<Rightarrow>
         let next = (start + PTSIZE) div PTSIZE * PTSIZE in
         if next < stop then copy_range_loop dst src next stop share s else (Ok (), s)
     | Some ptr \<Rightarrow>
         sbind (if read_pte ptr s \<noteq> 0 then copy_pte dst ptr start share s else (Ok (), s)) (\<lambda>_ s.
         if start + PGSIZE < stop then copy_range_loop dst src (start + PGSIZE) stop share s
         else (Ok (), s)))"
  by auto
termination
  by (relation "measure (\<lambda>(d, d', start, stop, sh, s). stop - start)")
    (auto simp: diff_less_mono2 div_mult_add_gt [of 4194304, simplified])

definition copy_range ::
    "nat \<Rightarrow> nat \<Rightarrow> nat \<Rightarrow> nat \<Rightarrow> bool \<Rightarrow> 'a kmem_scheme \<Rightarrow> unit outcome \<times> 'a kmem_scheme" where
  "copy_range dst src start stop share s = (
     if start mod PGSIZE \<noteq> 0 \<or> stop mod PGSIZE \<noteq> 0 \<or> \<not> USER_ACCESS start stop then (Fault, s)
     else copy_range_loop dst src start stop share s)"

definition page_remove :: "nat \<Rightarrow> nat \<Rightarrow> 'a kmem_scheme \<Rightarrow> unit outcome \<times> 'a kmem_scheme" where
  "page_remove pgdir la s = (
     case find_pte pgdir la s of None \<Rightarrow> (Ok (), s) | Some ptr \<Rightarrow> page_remove_pte ptr s)"

definition page_insert ::
    "nat \<Rightarrow> nat \<Rightarrow> nat \<Rightarrow> u32 \<Rightarrow> 'a kmem_scheme \<Rightarrow> unit outcome \<times> 'a kmem_scheme" where
  "page_insert pgdir page la perm s =
     sbind (get_pte pgdir la True s) (\<lambda>p s.
     case p of
       None \<Rightarrow> (Err E_NO_MEM, s)
     | Some ptr \<Rightarrow>
         let s = page_ref_inc page s in
         sbind (if bit (read_pte ptr s) 0
                then (case pte2page (read_pte ptr s) s of
                        Ok old \<Rightarrow>
                          if old = page then (Ok (), page_ref_dec page s)
                          else page_remove_pte ptr s
                      | _ \<Rightarrow> (Fault, s))
                else (Ok (), s))
           (\<lambda>_ s. (Ok (), write_pte ptr (page2pa page OR PTE_P OR perm) s)))"

definition pgdir_alloc_page ::
    "nat \<Rightarrow> nat \<Rightarrow> u32 \<Rightarrow> 'a kmem_scheme \<Rightarrow> nat option outcome \<times> 'a kmem_scheme" where
  "pgdir_alloc_page pgdir la perm s =
     sbind (alloc_page s) (\<lambda>p s.
     case p of
       None \<Rightarrow> (Ok None, s)
     | Some page \<Rightarrow>
         (case page_insert pgdir page la perm s of
            (Err _, s) \<Rightarrow> sbind (free_page page s) (\<lambda>_ s. (Ok None, s))
          | (Fault, s) \<Rightarrow> (Fault, s)
          | (Ok _, s) \<Rightarrow>
              (case (swap_init_ok s, reclaim_mm s) of
                 (True, Some mm) \<Rightarrow>
                   let s = snd (fifo_map_swappable mm la page s);
                       s = upd_page page (\<lambda>g. g\<lparr>pra_vaddr := of_nat la\<rparr>) s
                   in if page_ref page s = 1 then (Ok (Some page), s) else (Fault, s)
               | _ \<Rightarrow> (Ok (Some page), s))))"

definition swap_in :: "nat \<Rightarrow> nat \<Rightarrow> 'a kmem_scheme \<Rightarrow> nat outcome \<times> 'a kmem_scheme" where
  "swap_in mm addr s =
     sbind (alloc_page s) (\<lambda>p s.
     case p of
       None \<Rightarrow> (Err E_NO_MEM, s)
     | Some result \<Rightarrow>
         (case find_pte (mm_pgdir s mm) addr s of
            None \<Rightarrow> sbind (free_page result s) (\<lambda>_ s. (Err E_INVAL, s))
          | Some ptr \<Rightarrow>
              let pte = read_pte ptr s in
              if pte = 0 \<or> bit pte 0 \<or> swap_entry_valid pte s = None
              then sbind (free_page result s) (\<lambda>_ s. (Err E_INVAL, s))
              else (case swapfs_read pte result s of
                      (Ok _, s) \<Rightarrow> (Ok result, s)
                    | (Err e, s) \<Rightarrow> sbind (free_page result s) (\<lambda>_ s. (Err e, s))
                    | (Fault, s) \<Rightarrow> (Fault, s))))"

lemmas page_loops = unmap_ptes.simps unmap_range_loop.simps exit_range_loop.simps
  copy_range_loop.simps alloc_pages_loop.simps

declare page_loops [simp del]

section \<open>What the allocator leaves alone\<close>

lemma more_upd_page [simp]: "pmm.more (upd_page p f s) = pmm.more s"
  by (simp add: upd_page_def)

lemma more_fold_upd_page [simp]: "pmm.more (fold (\<lambda>p. upd_page p (f p)) ps s) = pmm.more s"
  by (induction ps arbitrary: s) simp_all

lemma more_alloc [simp]: "pmm.more (snd (default_alloc_pages n s)) = pmm.more s"
  by (simp add: default_alloc_pages_def Let_def split: list.split)

lemma more_free [simp]: "pmm.more (snd (default_free_pages base n s)) = pmm.more s"
  by (simp add: default_free_pages_def Let_def split: list.split)

lemma kmem_more:
  "pmm.more (s :: 'a kmem_scheme) = pmm.more t \<Longrightarrow>
     npage s = npage t \<and> pde s = pde t \<and> pt s = pt t \<and> page_data s = page_data t \<and>
     swap_init_ok s = swap_init_ok t \<and> pra_list s = pra_list t \<and> slot_refs s = slot_refs t \<and>
     slot_count s = slot_count t \<and> disk s = disk t \<and> mm_pgdir s = mm_pgdir t \<and>
     sm_priv s = sm_priv t \<and> mm_busy s = mm_busy t \<and> reclaim_mm s = reclaim_mm t"
  by (cases s; cases t) simp

text \<open>
  \<open>tables_kept s t\<close>: the page directories, the contents of the pages, the number of pages and
  whether swapping is on are the same in both states.
\<close>

definition tables_kept :: "'a kmem_scheme \<Rightarrow> 'a kmem_scheme \<Rightarrow> bool" where
  "tables_kept s t \<longleftrightarrow> pde t = pde s \<and> page_data t = page_data s \<and> npage t = npage s \<and>
     swap_init_ok t = swap_init_ok s \<and> mm_pgdir t = mm_pgdir s"

named_theorems kept

lemma kept_refl [kept]: "tables_kept s s"
  by (simp add: tables_kept_def)

lemma kept_trans: "tables_kept s t \<Longrightarrow> tables_kept t u \<Longrightarrow> tables_kept s u"
  by (simp add: tables_kept_def)

lemma kept_more: "pmm.more (t :: 'a kmem_scheme) = pmm.more s \<Longrightarrow> tables_kept s t"
  using kmem_more [of t s] by (simp add: tables_kept_def)

lemma kept_upd [kept]: "tables_kept s (upd_page p f s)"
  by (rule kept_more) simp

lemma kept_default_alloc [kept]: "tables_kept s (snd (default_alloc_pages n s))"
  by (rule kept_more) simp

lemma kept_write [kept]: "tables_kept s (write_pte ptr v s)"
  by (simp add: tables_kept_def write_pte_def)

lemma kept_ref [kept]: "tables_kept s (set_page_ref p v s)" "tables_kept s (page_ref_inc p s)"
  "tables_kept s (page_ref_dec p s)"
  by (simp_all add: set_page_ref_def page_ref_inc_def page_ref_dec_def kept)

lemma kept_untrack [kept]: "tables_kept s (fifo_untrack_page p s)"
  by (simp add: fifo_untrack_page_def)
    (rule kept_trans [OF _ kept_upd], simp add: tables_kept_def)

lemma kept_fold_untrack: "tables_kept s (fold fifo_untrack_page ps s)"
  by (induction ps arbitrary: s) (auto intro: kept kept_trans)

lemma kept_map_swappable [kept]: "tables_kept s (snd (fifo_map_swappable mm a p s))"
  by (auto simp: fifo_map_swappable_def kept intro: kept_trans [OF _ kept_upd])
    (simp add: tables_kept_def upd_page_def)

lemma kept_swap_slots [kept]:
  "tables_kept s (snd (swap_alloc_entry s))" "tables_kept s (swap_release_entry e s)"
  "tables_kept s (snd (swapfs_write e p s))" "tables_kept s (snd (fifo_swap_out_victim mm t s))"
  by (auto simp: tables_kept_def swap_alloc_entry_def swap_release_entry_def swapfs_write_def
      fifo_swap_out_victim_def disk_result_def split: option.split outcome.split list.split)

lemma kept_free [kept]: "tables_kept s (snd (free_pages p n s))"
  using kept_trans [OF kept_fold_untrack kept_more [OF more_free]] kept_more [OF more_free]
  by (auto simp: free_pages_def Let_def)

lemma kept_put [kept]: "tables_kept s (snd (put_page p s))"
  by (auto simp: put_page_def Let_def intro: kept_trans kept)

lemma kept_sbind:
  assumes "tables_kept s (snd m)" "\<forall>a t. m = (Ok a, t) \<longrightarrow> tables_kept t (snd (f a t))"
  shows "tables_kept s (snd (sbind m f))"
proof -
  obtain r t where m: "m = (r, t)"
    by (cases m)
  then show ?thesis
    using assms by (cases r) (auto intro: kept_trans)
qed

lemma kept_control:
  "tables_kept s (snd a) \<Longrightarrow> tables_kept s (snd b) \<Longrightarrow> tables_kept s (snd (if c then a else b))"
  "tables_kept s (snd a) \<Longrightarrow> \<forall>x. tables_kept s (snd (f x)) \<Longrightarrow>
     tables_kept s (snd (case v of None \<Rightarrow> a | Some x \<Rightarrow> f x))"
  "\<forall>x. tables_kept s (snd (g x)) \<Longrightarrow> \<forall>e. tables_kept s (snd (h e)) \<Longrightarrow> tables_kept s (snd a) \<Longrightarrow>
     tables_kept s (snd (case r of Ok x \<Rightarrow> g x | Err e \<Rightarrow> h e | Fault \<Rightarrow> a))"
  "tables_kept s (snd (p (fst m) (snd m))) \<Longrightarrow> tables_kept s (snd (case m of (x, y) \<Rightarrow> p x y))"
  "tables_kept s t \<Longrightarrow> tables_kept s (snd (y, t))"
  by (auto simp: split_beta split: option.split outcome.split)

lemmas kept_pages = kept_refl
  kept_default_alloc [THEN kept_trans [rotated]] kept_write [THEN kept_trans [rotated]]
  kept_map_swappable [THEN kept_trans [rotated]] kept_swap_slots [THEN kept_trans [rotated]]
  kept_free [THEN kept_trans [rotated]] kept_put [THEN kept_trans [rotated]]

lemma kept_remove_pte [kept]: "tables_kept s (snd (page_remove_pte ptr s))"
  by (auto simp: page_remove_pte_def kept split: outcome.split intro!: kept_sbind)

lemma kept_swap_out_loop: "tables_kept s (snd (swap_out_loop scans k n mm tick s))"
proof (induction scans arbitrary: k s)
  case (Suc scans)
  note IH = kept_trans [OF _ Suc]
  show ?case
    by (simp only: swap_out_loop.simps Let_def) (intro allI kept_control IH kept_pages)
qed (simp add: kept_refl)

lemma kept_swap_out [kept]: "tables_kept s (snd (swap_out mm n tick s))"
  by (simp add: swap_out_def kept kept_swap_out_loop)

lemma kept_alloc_loop: "tables_kept s (snd (alloc_pages_loop attempts n s))"
proof (induction attempts arbitrary: s)
  case 0
  show ?case
    by (simp add: alloc_pages_loop.simps [of 0] split_beta kept_default_alloc
        split: outcome.split option.split)
next
  case (Suc attempts)
  note IH = kept_trans [OF _ Suc]
  show ?case
    by (subst alloc_pages_loop.simps, simp only: option.case nat.case)
      (intro allI kept_control IH kept_swap_out [THEN kept_trans [rotated]] kept_pages)
qed

lemma kept_alloc [kept]: "tables_kept s (snd (alloc_pages n s))"
  by (simp add: alloc_pages_def kept_alloc_loop)

lemma bit_PTE_ADDR: "bit (PTE_ADDR e) n \<longleftrightarrow> 12 \<le> n \<and> bit e n"
proof -
  have "PTE_ADDR e = e AND NOT (mask 12)"
    by (simp add: PTE_ADDR_def mask_eq_exp_minus_1)
  then show ?thesis
    by (cases "n < 32") (auto simp: bit_simps not_less dest: bit_imp_le_length)
qed

lemma page2pa_PPN: "page2pa (PPN (PTE_ADDR e)) = PTE_ADDR e"
  by (intro bit_word_eqI) (auto simp: page2pa_def PPN_def bit_PTE_ADDR bit_push_bit_iff bit_drop_bit_eq)

section \<open>Swapped-out pages are safe\<close>

text \<open>
  \<open>slots_kept s t\<close>: slots in use stay in use and keep their contents, and entries that are not present
  keep their value.
\<close>

definition slots_kept :: "'a kmem_scheme \<Rightarrow> 'a kmem_scheme \<Rightarrow> bool" where
  "slots_kept s t \<longleftrightarrow> slot_count t = slot_count s \<and>
     (\<forall>i. slot_refs s i \<noteq> 0 \<longrightarrow> slot_refs t i \<noteq> 0 \<and> disk t i = disk s i) \<and>
     (\<forall>q i. \<not> bit (pt s q i) 0 \<longrightarrow> pt t q i = pt s q i)"

lemma slots_refl: "slots_kept s s"
  by (simp add: slots_kept_def)

lemma slots_trans: "slots_kept s t \<Longrightarrow> slots_kept t u \<Longrightarrow> slots_kept s u"
  unfolding slots_kept_def by auto

lemma slots_same:
  "slot_count t = slot_count s \<Longrightarrow> slot_refs t = slot_refs s \<Longrightarrow> disk t = disk s \<Longrightarrow> pt t = pt s \<Longrightarrow> slots_kept s t"
  by (simp add: slots_kept_def)

lemma slots_more: "pmm.more (t :: 'a kmem_scheme) = pmm.more s \<Longrightarrow> slots_kept s t"
  using kmem_more [of t s] by (simp add: slots_same)

lemma slots_untrack: "slots_kept s (fifo_untrack_page p s)"
  by (rule slots_same) (simp_all add: fifo_untrack_page_def upd_page_def)

lemma slots_fold_untrack: "slots_kept s (fold fifo_untrack_page ps s)"
  by (induction ps arbitrary: s) (auto intro: slots_untrack slots_trans slots_refl)

lemma slots_free: "slots_kept s (snd (free_pages p n s))"
  using slots_trans [OF slots_fold_untrack slots_more [OF more_free]] slots_more [OF more_free]
  by (auto simp: free_pages_def Let_def)

lemma slots_put: "slots_kept s (snd (put_page p s))"
proof -
  have "slots_kept s (page_ref_dec p s)"
    by (rule slots_more) (simp add: page_ref_dec_def set_page_ref_def)
  then show ?thesis
    by (auto simp: put_page_def Let_def intro: slots_trans slots_free)
qed

lemma slots_map_swappable: "slots_kept s (snd (fifo_map_swappable mm a p s))"
  by (rule slots_same) (simp_all add: fifo_map_swappable_def upd_page_def)

lemma swap_alloc_entry_fresh:
  assumes "swap_alloc_entry s = (Ok e, t)" "slot_count s \<le> 2 ^ 24"
  obtains slot where "0 < slot" "slot < slot_count s" "slot_refs s slot = 0" "unat (drop_bit 8 e) = slot"
    "t = s\<lparr>slot_refs := (slot_refs s)(slot := 1)\<rparr>"
proof -
  obtain slot where f: "find (\<lambda>slot. slot_refs s slot = 0) [1..<slot_count s] = Some slot"
    and e: "e = push_bit 8 (of_nat slot)" "t = s\<lparr>slot_refs := (slot_refs s)(slot := 1)\<rparr>"
    using assms(1) by (auto simp: swap_alloc_entry_def split: option.splits)
  have s: "0 < slot" "slot < slot_count s" "slot_refs s slot = 0"
    using f by (auto simp: find_Some_iff)
  have "unat (drop_bit 8 (push_bit 8 (of_nat slot) :: u32)) = slot"
  proof -
    have "drop_bit 8 (push_bit 8 (of_nat slot :: u32)) = take_bit 24 (of_nat slot)"
      by (rule bit_word_eqI) (auto simp: bit_drop_bit_eq bit_push_bit_iff bit_take_bit_iff)
    then show ?thesis
      using s(2) assms(2) by (simp add: unsigned_take_bit_eq unat_of_nat take_bit_nat_eq_self_iff)
  qed
  then show thesis
    using that s e by blast
qed

lemma slots_write_out:
  assumes "swap_alloc_entry s = (Ok e, s1)" "slot_count s \<le> 2 ^ 24"
  shows "slots_kept s (snd (swapfs_write e page s1))"
    "slots_kept s (swap_release_entry e (snd (swapfs_write e page s1)))"
proof -
  obtain slot where "slot_refs s slot = 0" "unat (drop_bit 8 e) = slot"
    "s1 = s\<lparr>slot_refs := (slot_refs s)(slot := 1)\<rparr>"
    by (rule swap_alloc_entry_fresh [OF assms])
  then show "slots_kept s (snd (swapfs_write e page s1))"
    "slots_kept s (swap_release_entry e (snd (swapfs_write e page s1)))"
    by (auto simp: slots_kept_def swapfs_write_def swap_offset_def disk_result_def swap_release_entry_def
        swap_entry_valid_def Let_def split: option.split outcome.split list.split)
qed

lemma slots_write_pte: "bit (read_pte ptr s) 0 \<Longrightarrow> slots_kept s (write_pte ptr v s)"
  by (auto simp: slots_kept_def write_pte_def read_pte_def)

lemma slots_swap_out_loop:
  "slot_count s \<le> 2 ^ 24 \<Longrightarrow> slots_kept s (snd (swap_out_loop scans k n mm tick s))"
proof (induction scans arbitrary: k s)
  case (Suc scans)
  have IH: "slots_kept s (snd (swap_out_loop scans k' n mm tick t))" if "slots_kept s t" for k' t
  proof (rule slots_trans [OF that Suc.IH])
    show "slot_count t \<le> 2 ^ 24"
      using that Suc.prems by (simp add: slots_kept_def)
  qed
  obtain r s1 where v: "fifo_swap_out_victim mm tick s = (r, s1)"
    by (cases "fifo_swap_out_victim mm tick s")
  then have 1: "slots_kept s s1"
    by (intro slots_same) (auto simp: fifo_swap_out_victim_def split: if_splits)
  have again: "slots_kept s (snd (swap_out_loop scans k' n mm tick (snd (fifo_map_swappable o' w p t))))"
    if "slots_kept s t" for k' o' w p t
    using IH slots_trans [OF that slots_map_swappable] .
  have put: "slots_kept s (snd (put_page p (write_pte ptr e t)))"
    if "slots_kept s t" "bit (read_pte ptr t) 0" for p ptr e t
    using slots_trans [OF slots_trans [OF that(1) slots_write_pte [OF that(2)]] slots_put] .
  show ?case
  proof (cases r)
    case (Ok page)
    have out: "slots_kept s (snd (case swap_alloc_entry s1 of
        (Ok entry, s) \<Rightarrow>
          (case swapfs_write entry page s of
             (Ok _, s) \<Rightarrow>
               (case put_page page (write_pte ptr entry s) of
                  (Ok _, s) \<Rightarrow> swap_out_loop scans (Suc k) n mm tick s
                | (_, s) \<Rightarrow> (Fault, s))
           | (Err _, s) \<Rightarrow> swap_out_loop scans k n mm tick
               (snd (fifo_map_swappable owner w page (swap_release_entry entry s)))
           | (Fault, s) \<Rightarrow> (Fault, s))
      | (_, s) \<Rightarrow> (Ok k, snd (fifo_map_swappable owner w page s))))"
      if P: "bit (read_pte ptr s1) 0" for ptr owner w
    proof (cases "swap_alloc_entry s1")
      case (Pair r2 s2)
      show ?thesis
      proof (cases r2)
        case (Ok e)
        have "slot_count s1 \<le> 2 ^ 24"
          using 1 Suc.prems by (simp add: slots_kept_def)
        note wr = slots_write_out [OF Pair [unfolded Ok] this, of page]
        obtain r3 s3 where w3: "swapfs_write e page s2 = (r3, s3)"
          by (cases "swapfs_write e page s2")
        have 3: "slots_kept s s3" "slots_kept s (swap_release_entry e s3)"
          using slots_trans [OF 1 wr(1)] slots_trans [OF 1 wr(2)] w3 by simp_all
        have "pt s3 = pt s1"
          using w3 Pair by (auto simp: swapfs_write_def disk_result_def swap_alloc_entry_def
              split: option.splits outcome.splits list.splits)
        then have "bit (read_pte ptr s3) 0"
          using P by (simp add: read_pte_def)
        note pu = put [OF 3(1) this, of page e]
        then show ?thesis
          using Pair Ok w3 again [OF 3(2)] 3(1) IH
          by (auto split: outcome.splits prod.splits)
      next
        case (Err e)
        then have "s2 = s1"
          using Pair by (auto simp: swap_alloc_entry_def split: option.splits)
        then show ?thesis
          using Pair Err slots_trans [OF 1 slots_map_swappable] by simp
      next
        case Fault
        then show ?thesis
          using Pair by (auto simp: swap_alloc_entry_def split: option.splits)
      qed
    qed
    show ?thesis
      using Ok v out IH [OF 1] again [OF 1] 1
      by (auto simp: Let_def slots_refl split: option.split outcome.split)
  qed (use v 1 in \<open>auto simp: slots_refl\<close>)
qed (simp add: slots_refl)


lemma slots_alloc_loop: "slot_count s \<le> 2 ^ 24 \<Longrightarrow> slots_kept s (snd (alloc_pages_loop attempts n s))"
proof (induction attempts arbitrary: s)
  case 0
  show ?case
    using slots_more [OF more_alloc [of n s]]
    by (simp add: alloc_pages_loop.simps [of 0] split_beta split: outcome.split option.split)
next
  case (Suc attempts)
  obtain r s1 where a: "default_alloc_pages n s = (r, s1)"
    by (cases "default_alloc_pages n s")
  then have 1: "slots_kept s s1"
    using slots_more [OF more_alloc [of n s]] by simp
  have "slots_kept s (snd (swap_out m n False s1))" for m
    using slots_trans [OF 1 slots_swap_out_loop] 1 Suc.prems by (simp add: swap_out_def slots_kept_def [of s])
  then have sw: "slots_kept s t" if "swap_out m n False s1 = (x, t)" for m x t
    using that by (metis snd_conv)
  have "slots_kept s (snd (alloc_pages_loop attempts n t))" if "slots_kept s t" for t
    using slots_trans [OF that Suc.IH] that Suc.prems by (simp add: slots_kept_def [of s])
  then show ?case
    using a 1 sw by (subst alloc_pages_loop.simps) (auto split: outcome.split option.split prod.split)
qed

lemma slots_alloc: "slot_count s \<le> 2 ^ 24 \<Longrightarrow> slots_kept s (snd (alloc_pages n s))"
  by (simp add: alloc_pages_def slots_alloc_loop)

end
