(* ===== verification/Vma.thy ===== *)
theory Vma
  imports Paging
begin

text \<open>
  The virtual memory areas of an address space, \<open>src/kern/mm/vmm.c\<close> and \<open>vmm.h\<close>.

  The sorted list \<open>mmap_list\<close> is a list of areas; \<open>mmap_cache\<close> and \<open>brk_vma\<close> are pointers to areas,
  here the identifiers of areas.  The results of \<open>kmalloc\<close> are arguments: \<open>Some i\<close> is a fresh
  identifier, \<open>None\<close> a failed allocation.  Addresses are natural numbers below \<open>2\<^sup>3\<^sup>2\<close> and the
  32-bit wrap-around of sums is written out.  The \<open>mm == NULL\<close> guards, which reject the call first,
  are represented only where \<open>NULL\<close> has a meaning of its own (\<open>user_mem_check\<close>).
\<close>

section \<open>State\<close>

abbreviation VM_READ :: u32 where "VM_READ \<equiv> 1"
abbreviation VM_WRITE :: u32 where "VM_WRITE \<equiv> 2"
abbreviation VM_EXEC :: u32 where "VM_EXEC \<equiv> 4"
abbreviation VM_STACK :: u32 where "VM_STACK \<equiv> 8"
abbreviation KERNBASE :: nat where "KERNBASE \<equiv> 0xC0000000"
abbreviation KERNTOP :: nat where "KERNTOP \<equiv> 0xF8000000"
abbreviation USTACKSIZE :: nat where "USTACKSIZE \<equiv> 256 * 4096"

record vma_struct =
  vm_id :: nat
  vm_start :: nat
  vm_end :: nat
  vm_flags :: u32

record mm_struct =
  mm_id :: nat
  mmap_list :: "vma_struct list"
  mmap_cache :: "nat option"
  map_count :: int
  start_brk :: nat
  brk :: nat
  brk_vma :: "nat option"

definition add32 :: "nat \<Rightarrow> nat \<Rightarrow> nat" where
  "add32 a b = (a + b) mod 2 ^ 32"

definition ROUNDDOWN :: "nat \<Rightarrow> nat \<Rightarrow> nat" where
  "ROUNDDOWN a n = a - a mod n"

definition ROUNDUP :: "nat \<Rightarrow> nat \<Rightarrow> nat" where
  "ROUNDUP a n = ROUNDDOWN (add32 a (n - 1)) n"

definition KERN_ACCESS :: "nat \<Rightarrow> nat \<Rightarrow> bool" where
  "KERN_ACCESS start stop \<longleftrightarrow> KERNBASE \<le> start \<and> start < stop \<and> stop \<le> KERNTOP"

definition new_mm :: "nat \<Rightarrow> mm_struct" where
  "new_mm i = \<lparr> mm_id = i, mmap_list = [], mmap_cache = None, map_count = 0,
                start_brk = USERBASE, brk = USERBASE, brk_vma = None \<rparr>"

text \<open>
  The first argument is the result of \<open>kmalloc\<close>.  With swapping on, \<open>swap_init_mm\<close> attaches the address
  space to the replacement queue, which does not fail for the FIFO manager.
\<close>

definition mm_create :: "nat option \<Rightarrow> 'a kmem_scheme \<Rightarrow> mm_struct option \<times> 'a kmem_scheme" where
  "mm_create mem k = (
     case mem of
       None \<Rightarrow> (None, k)
     | Some i \<Rightarrow> (Some (new_mm i), k\<lparr>sm_priv := (sm_priv k)(i := swap_init_ok k)\<rparr>))"

definition vma_create :: "nat option \<Rightarrow> nat \<Rightarrow> nat \<Rightarrow> u32 \<Rightarrow> vma_struct option" where
  "vma_create mem start stop fl =
     map_option (\<lambda>i. \<lparr> vm_id = i, vm_start = start, vm_end = stop, vm_flags = fl \<rparr>) mem"

section \<open>Lookup and insertion\<close>

definition vma_contains :: "nat \<Rightarrow> vma_struct \<Rightarrow> bool" where
  "vma_contains addr v \<longleftrightarrow> vm_start v \<le> addr \<and> addr < vm_end v"

definition vma_deref :: "mm_struct \<Rightarrow> nat \<Rightarrow> vma_struct outcome" where
  "vma_deref mm i =
     (case find (\<lambda>v. vm_id v = i) (mmap_list mm) of Some v \<Rightarrow> Ok v | None \<Rightarrow> Fault)"

text \<open>A cache that points to a freed area is a fault.\<close>

definition find_vma :: "mm_struct \<Rightarrow> nat \<Rightarrow> vma_struct option outcome \<times> mm_struct" where
  "find_vma mm addr = (
     let scan = (case find (vma_contains addr) (mmap_list mm) of
                   None \<Rightarrow> (Ok None, mm)
                 | Some v \<Rightarrow> (Ok (Some v), mm\<lparr>mmap_cache := Some (vm_id v)\<rparr>))
     in case mmap_cache mm of
          None \<Rightarrow> scan
        | Some i \<Rightarrow>
            (case vma_deref mm i of
               Ok v \<Rightarrow> if vma_contains addr v then (Ok (Some v), mm) else scan
             | _ \<Rightarrow> (Fault, mm)))"

definition check_vma_overlap :: "vma_struct \<Rightarrow> vma_struct \<Rightarrow> bool" where
  "check_vma_overlap prev next \<longleftrightarrow>
     vm_start prev < vm_end prev \<and> vm_end prev \<le> vm_start next \<and> vm_start next < vm_end next"

definition insert_vma_struct :: "vma_struct \<Rightarrow> mm_struct \<Rightarrow> unit outcome \<times> mm_struct" where
  "insert_vma_struct v mm = (
     let before = takeWhile (\<lambda>w. vm_start w \<le> vm_start v) (mmap_list mm);
         after = dropWhile (\<lambda>w. vm_start w \<le> vm_start v) (mmap_list mm)
     in if vm_start v < vm_end v \<and>
           (before \<noteq> [] \<longrightarrow> check_vma_overlap (last before) v) \<and>
           (after \<noteq> [] \<longrightarrow> check_vma_overlap v (hd after))
        then (Ok (), mm\<lparr>mmap_list := before @ v # after, map_count := map_count mm + 1\<rparr>)
        else (Fault, mm))"

text \<open>The overlap loop of \<open>mm_map\<close>.\<close>

fun range_clear :: "nat \<Rightarrow> nat \<Rightarrow> vma_struct list \<Rightarrow> bool" where
  "range_clear start stop [] = True"
| "range_clear start stop (v # vs) =
     (if vm_end v \<le> start then range_clear start stop vs else \<not> vm_start v < stop)"

definition mm_map ::
    "mm_struct \<Rightarrow> nat \<Rightarrow> nat \<Rightarrow> u32 \<Rightarrow> nat option \<Rightarrow> vma_struct outcome \<times> mm_struct" where
  "mm_map mm addr len fl mem = (
     if len = 0 \<or> add32 addr len < addr \<or> fl AND NOT (VM_READ OR VM_WRITE OR VM_EXEC OR VM_STACK) \<noteq> 0
     then (Err E_INVAL, mm)
     else
       let start = ROUNDDOWN addr PGSIZE; stop = ROUNDUP (add32 addr len) PGSIZE in
       if stop \<le> start \<or> \<not> USER_ACCESS start stop then (Err E_INVAL, mm)
       else if \<not> range_clear start stop (mmap_list mm) then (Err E_INVAL, mm)
       else case vma_create mem start stop fl of
              None \<Rightarrow> (Err E_NO_MEM, mm)
            | Some v \<Rightarrow> sbind (insert_vma_struct v mm) (\<lambda>_ mm. (Ok v, mm)))"

fun unmapped_area_loop :: "nat \<Rightarrow> nat \<Rightarrow> nat \<Rightarrow> vma_struct list \<Rightarrow> nat" where
  "unmapped_area_loop sz limit cand [] =
     (if cand \<le> limit \<and> sz \<le> limit - cand then cand else 0)"
| "unmapped_area_loop sz limit cand (v # vs) =
     (if vm_end v \<le> cand then unmapped_area_loop sz limit cand vs
      else if cand \<le> vm_start v \<and> sz \<le> vm_start v - cand \<and> add32 cand sz \<le> limit then cand
      else
        let cand = ROUNDUP (vm_end v) PGSIZE in
        if cand > limit \<or> sz > limit - cand then 0
        else unmapped_area_loop sz limit cand vs)"

definition get_unmapped_area :: "mm_struct \<Rightarrow> nat \<Rightarrow> nat" where
  "get_unmapped_area mm len = (
     let limit = USERTOP - USTACKSIZE in
     if len = 0 \<or> len > 0xFFFFFFFF - (PGSIZE - 1) then 0
     else
       let sz = ROUNDUP len PGSIZE in
       if sz = 0 \<or> sz > limit - USERBASE then 0
       else unmapped_area_loop sz limit USERBASE (mmap_list mm))"

section \<open>Unmapping\<close>

text \<open>
  Operations that also change page tables work on the pair of the address space and the memory
  state.
\<close>

function unswappable_loop ::
    "nat \<Rightarrow> nat \<Rightarrow> nat \<Rightarrow> 'a kmem_scheme \<Rightarrow> unit outcome \<times> 'a kmem_scheme" where
  "unswappable_loop mm addr stop k = (
     if addr < stop
     then sbind (if swap_init_ok k then fifo_set_unswappable mm addr k else (Ok (), k))
            (\<lambda>_ k. unswappable_loop mm (addr + PGSIZE) stop k)
     else (Ok (), k))"
  by auto
termination
  by (relation "measure (\<lambda>(m, addr, stop, k). stop - addr)") auto

definition mm_unmap_pages ::
    "mm_struct \<Rightarrow> nat \<Rightarrow> nat \<Rightarrow> 'a kmem_scheme \<Rightarrow> unit outcome \<times> 'a kmem_scheme" where
  "mm_unmap_pages mm start stop k = (
     if start < stop
     then sbind (unswappable_loop (mm_id mm) start stop k)
            (\<lambda>_ k. unmap_range (mm_pgdir k (mm_id mm)) start stop k)
     else (Ok (), k))"

text \<open>
  The loop of \<open>mm_unmap\<close>: \<open>kept\<close> are the areas already passed, the last list those still to visit;
  the area list of the result is put together from both.  What the loop does to one area is
  \<open>cut_vma\<close>: the areas that replace it and the new state of the other fields.
\<close>

definition forget_vma :: "nat \<Rightarrow> mm_struct \<Rightarrow> mm_struct" where
  "forget_vma i mm = mm
     \<lparr>brk_vma := (if brk_vma mm = Some i then None else brk_vma mm),
      mmap_cache := (if mmap_cache mm = Some i then None else mmap_cache mm),
      map_count := map_count mm - 1\<rparr>"

definition cut_vma ::
    "nat \<Rightarrow> nat \<Rightarrow> nat option \<Rightarrow> vma_struct \<Rightarrow> mm_struct \<Rightarrow> vma_struct list outcome \<times> mm_struct" where
  "cut_vma cut_start cut_end mem v mm = (
     if cut_start = vm_start v \<and> cut_end = vm_end v then (Ok [], forget_vma (vm_id v) mm)
     else if cut_start = vm_start v
     then (Ok [v\<lparr>vm_start := cut_end\<rparr>],
           if brk_vma mm = Some (vm_id v) \<and> cut_end \<noteq> ROUNDUP (start_brk mm) PGSIZE
           then mm\<lparr>brk_vma := None\<rparr> else mm)
     else if cut_end = vm_end v
     then (Ok [v\<lparr>vm_end := cut_start\<rparr>],
           if brk_vma mm = Some (vm_id v) \<and> cut_start < brk mm then mm\<lparr>brk := cut_start\<rparr> else mm)
     else case vma_create mem cut_end (vm_end v) (vm_flags v) of
            None \<Rightarrow> (Err E_NO_MEM, mm)
          | Some right \<Rightarrow>
              (Ok [v\<lparr>vm_end := cut_start\<rparr>, right],
               mm\<lparr>map_count := map_count mm + 1,
                  brk_vma := (if brk_vma mm = Some (vm_id v) then None else brk_vma mm)\<rparr>))"

fun unmap_loop ::
    "nat \<Rightarrow> nat \<Rightarrow> nat option \<Rightarrow> vma_struct list \<Rightarrow> vma_struct list \<Rightarrow> mm_struct \<Rightarrow> 'a kmem_scheme \<Rightarrow>
     unit outcome \<times> mm_struct \<times> 'a kmem_scheme" where
  "unmap_loop start stop mem kept [] mm k = (Ok (), mm\<lparr>mmap_list := kept\<rparr>, k)"
| "unmap_loop start stop mem kept (v # vs) mm k = (
     if vm_end v \<le> start then unmap_loop start stop mem (kept @ [v]) vs mm k
     else if vm_start v \<ge> stop then (Ok (), mm\<lparr>mmap_list := kept @ v # vs\<rparr>, k)
     else
       let cut_start = (if start > vm_start v then start else vm_start v);
           cut_end = (if stop < vm_end v then stop else vm_end v)
       in if cut_start < cut_end
          then case mm_unmap_pages mm cut_start cut_end k of
                 (Ok _, k) \<Rightarrow>
                   (case cut_vma cut_start cut_end mem v mm of
                      (Ok ws, mm) \<Rightarrow> unmap_loop start stop mem (kept @ ws) vs mm k
                    | (r, mm) \<Rightarrow> (Err E_NO_MEM, mm\<lparr>mmap_list := kept @ v # vs\<rparr>, k))
               | (_, k) \<Rightarrow> (Fault, mm\<lparr>mmap_list := kept @ v # vs\<rparr>, k)
          else unmap_loop start stop mem (kept @ [v]) vs mm k)"

definition mm_unmap ::
    "nat \<Rightarrow> nat \<Rightarrow> nat option \<Rightarrow> mm_struct \<times> 'a kmem_scheme \<Rightarrow>
     unit outcome \<times> mm_struct \<times> 'a kmem_scheme" where
  "mm_unmap addr len mem = (\<lambda>(mm, k).
     if len = 0 \<or> addr mod PGSIZE \<noteq> 0 \<or> add32 addr len < addr then (Err E_INVAL, mm, k)
     else
       let start = addr; stop = ROUNDUP (add32 addr len) PGSIZE in
       if stop \<le> start \<or> \<not> USER_ACCESS start stop then (Err E_INVAL, mm, k)
       else unmap_loop start stop mem [] (mmap_list mm) mm k)"

section \<open>Protection\<close>

fun covers :: "nat \<Rightarrow> nat \<Rightarrow> vma_struct list \<Rightarrow> bool" where
  "covers cursor stop [] = (\<not> cursor < stop)"
| "covers cursor stop (v # vs) = (
     if \<not> cursor < stop then True
     else if vm_end v \<le> cursor then covers cursor stop vs
     else if vm_start v > cursor then False
     else covers (if vm_end v < stop then vm_end v else stop) stop vs)"

text \<open>
  The two splits of \<open>mm_mprotect\<close>: at its left edge in the first area that ends after \<open>start\<close>, at its
  right edge in the first area, from there on, that ends at or after \<open>stop\<close>.  The result is the list
  up to the interval and the list from it.
\<close>

definition split_left ::
    "nat \<Rightarrow> nat option \<Rightarrow> mm_struct \<Rightarrow> (vma_struct list \<times> vma_struct list) outcome \<times> mm_struct" where
  "split_left start mem mm = (
     let before = takeWhile (\<lambda>v. vm_end v \<le> start) (mmap_list mm) in
     case dropWhile (\<lambda>v. vm_end v \<le> start) (mmap_list mm) of
       [] \<Rightarrow> (Err E_INVAL, mm)
     | v # vs \<Rightarrow>
         if vm_start v < start
         then (case vma_create mem start (vm_end v) (vm_flags v) of
                 None \<Rightarrow> (Err E_NO_MEM, mm)
               | Some right \<Rightarrow>
                   let pre = before @ [v\<lparr>vm_end := start\<rparr>] in
                   (Ok (pre, right # vs),
                    mm\<lparr>mmap_list := pre @ right # vs, map_count := map_count mm + 1\<rparr>))
         else (Ok (before, v # vs), mm))"

definition split_right ::
    "nat \<Rightarrow> nat option \<Rightarrow> vma_struct list \<Rightarrow> vma_struct list \<Rightarrow> mm_struct \<Rightarrow> unit outcome \<times> mm_struct"
    where
  "split_right stop mem pre post mm = (
     let mid = takeWhile (\<lambda>v. vm_end v < stop) post in
     case dropWhile (\<lambda>v. vm_end v < stop) post of
       [] \<Rightarrow> (Err E_INVAL, mm)
     | v # vs \<Rightarrow>
         if vm_end v > stop
         then (case vma_create mem stop (vm_end v) (vm_flags v) of
                 None \<Rightarrow> (Err E_NO_MEM, mm)
               | Some right \<Rightarrow>
                   (Ok (), mm\<lparr>mmap_list := pre @ mid @ v\<lparr>vm_end := stop\<rparr> # right # vs,
                              map_count := map_count mm + 1\<rparr>))
         else (Ok (), mm))"

fun set_flags_loop :: "nat \<Rightarrow> nat \<Rightarrow> u32 \<Rightarrow> vma_struct list \<Rightarrow> vma_struct list" where
  "set_flags_loop start stop fl [] = []"
| "set_flags_loop start stop fl (v # vs) = (
     if vm_start v \<ge> stop then v # vs
     else (if vm_start v \<ge> start \<and> vm_end v \<le> stop then v\<lparr>vm_flags := fl\<rparr> else v)
            # set_flags_loop start stop fl vs)"

text \<open>The new value of a non-zero page table entry under new area flags.\<close>

definition mprotect_pte :: "u32 \<Rightarrow> u32 \<Rightarrow> u32" where
  "mprotect_pte fl pte = (
     if fl = 0 then (if bit pte 0 then (pte AND NOT PTE_P) OR PTE_MPROTECT else pte)
     else if bit pte 7
     then let updated = PTE_ADDR pte OR PTE_P OR PTE_U OR (pte AND PTE_COW) in
          if bit fl 1 \<and> \<not> bit pte 9 then updated OR PTE_W else updated
     else if bit pte 0
     then let updated = pte AND NOT PTE_W in
          if bit fl 1 \<and> \<not> bit pte 9 then updated OR PTE_W else updated
     else pte)"

function mprotect_ptes :: "nat \<Rightarrow> nat \<Rightarrow> nat \<Rightarrow> u32 \<Rightarrow> 'a kmem_scheme \<Rightarrow> 'a kmem_scheme" where
  "mprotect_ptes pgdir cursor stop fl k = (
     if cursor < stop
     then mprotect_ptes pgdir (cursor + PGSIZE) stop fl
       (case find_pte pgdir cursor k of
          None \<Rightarrow> k
        | Some ptr \<Rightarrow>
            if read_pte ptr k = 0 then k else write_pte ptr (mprotect_pte fl (read_pte ptr k)) k)
     else k)"
  by auto
termination
  by (relation "measure (\<lambda>(d, cursor, stop, fl, k). stop - cursor)") auto

definition mm_mprotect ::
    "nat \<Rightarrow> nat \<Rightarrow> u32 \<Rightarrow> nat option \<Rightarrow> nat option \<Rightarrow> mm_struct \<times> 'a kmem_scheme \<Rightarrow>
     unit outcome \<times> mm_struct \<times> 'a kmem_scheme" where
  "mm_mprotect addr len fl mem1 mem2 = (\<lambda>(mm, k).
     if len = 0 \<or> addr mod PGSIZE \<noteq> 0 \<or> add32 addr len < addr \<or>
        fl AND NOT (VM_READ OR VM_WRITE OR VM_EXEC) \<noteq> 0
     then (Err E_INVAL, mm, k)
     else
       let start = addr; stop = ROUNDUP (add32 addr len) PGSIZE in
       if stop \<le> start \<or> \<not> USER_ACCESS start stop then (Err E_INVAL, mm, k)
       else if \<not> covers start stop (mmap_list mm) then (Err E_INVAL, mm, k)
       else case split_left start mem1 mm of
         (Ok (pre, post), mm) \<Rightarrow>
           (case split_right stop mem2 pre post mm of
              (Ok _, mm) \<Rightarrow>
                (Ok (), mm\<lparr>mmap_list := set_flags_loop start stop fl (mmap_list mm)\<rparr>,
                 mprotect_ptes (mm_pgdir k (mm_id mm)) start stop fl k)
            | (r, mm) \<Rightarrow> (r, mm, k))
       | (Err e, mm) \<Rightarrow> (Err e, mm, k)
       | (Fault, mm) \<Rightarrow> (Fault, mm, k))"

definition mm_madvise ::
    "nat \<Rightarrow> nat \<Rightarrow> int \<Rightarrow> mm_struct \<times> 'a kmem_scheme \<Rightarrow> unit outcome \<times> mm_struct \<times> 'a kmem_scheme" where
  "mm_madvise addr len advice = (\<lambda>(mm, k).
     if add32 addr len < addr \<or> advice \<notin> {0, 1, 2, 3, 4} then (Err E_INVAL, mm, k)
     else if len = 0 then (Ok (), mm, k)
     else
       let start = ROUNDDOWN addr PGSIZE; stop = ROUNDUP (add32 addr len) PGSIZE in
       if stop \<le> start \<or> \<not> USER_ACCESS start stop then (Err E_INVAL, mm, k)
       else if \<not> covers start stop (mmap_list mm) then (Err E_INVAL, mm, k)
       else if advice = 4
       then let (r, k) = mm_unmap_pages mm start stop k in (r, mm, k)
       else (Ok (), mm, k))"

section \<open>The heap\<close>

definition upd_vma :: "nat \<Rightarrow> (vma_struct \<Rightarrow> vma_struct) \<Rightarrow> mm_struct \<Rightarrow> mm_struct" where
  "upd_vma i f mm = mm\<lparr>mmap_list := map (\<lambda>v. if vm_id v = i then f v else v) (mmap_list mm)\<rparr>"

text \<open>The area after the one with the given identifier, \<open>list_next\<close> of its link.\<close>

fun next_vma :: "nat \<Rightarrow> vma_struct list \<Rightarrow> vma_struct option" where
  "next_vma i (v # w # vs) = (if vm_id v = i then Some w else next_vma i (w # vs))"
| "next_vma i _ = None"

definition mm_brk ::
    "nat \<Rightarrow> nat option \<Rightarrow> mm_struct \<times> 'a kmem_scheme \<Rightarrow> unit outcome \<times> mm_struct \<times> 'a kmem_scheme"
    where
  "mm_brk newbrk mem = (\<lambda>(mm, k).
     if newbrk < start_brk mm \<or> newbrk > USERTOP then (Err E_INVAL, mm, k)
     else
       let old_end = ROUNDUP (brk mm) PGSIZE; new_end = ROUNDUP newbrk PGSIZE;
           heap_start = ROUNDUP (start_brk mm) PGSIZE in
       if new_end = old_end then (Ok (), mm\<lparr>brk := newbrk\<rparr>, k)
       else if new_end < old_end
       then (case brk_vma mm of
           None \<Rightarrow> (Ok (), mm\<lparr>brk := newbrk\<rparr>, k)
         | Some i \<Rightarrow>
             (case mm_unmap_pages mm new_end old_end k of
                (Ok _, k) \<Rightarrow>
                  if new_end \<le> heap_start
                  then (Ok (), (forget_vma i mm)
                          \<lparr>mmap_list := filter (\<lambda>v. vm_id v \<noteq> i) (mmap_list mm), brk := newbrk\<rparr>, k)
                  else (Ok (), (upd_vma i (\<lambda>v. v\<lparr>vm_end := new_end\<rparr>) mm)\<lparr>brk := newbrk\<rparr>, k)
              | (r, k) \<Rightarrow> (r, mm, k)))
       else if new_end > USERTOP \<or> new_end < heap_start then (Err E_INVAL, mm, k)
       else case brk_vma mm of
           None \<Rightarrow>
             if old_end \<noteq> heap_start then (Err E_INVAL, mm, k)
             else (case mm_map mm heap_start (new_end - heap_start) (VM_READ OR VM_WRITE) mem of
                 (Ok v, mm) \<Rightarrow> (Ok (), mm\<lparr>brk_vma := Some (vm_id v), brk := newbrk\<rparr>, k)
               | (Err _, mm) \<Rightarrow> (Err E_INVAL, mm, k)
               | (Fault, mm) \<Rightarrow> (Fault, mm, k))
         | Some i \<Rightarrow>
             (case vma_deref mm i of
                Ok v \<Rightarrow>
                  if vm_end v \<noteq> old_end then (Err E_INVAL, mm, k)
                  else (case next_vma i (mmap_list mm) of
                      Some w \<Rightarrow>
                        if vm_start w < new_end then (Err E_INVAL, mm, k)
                        else (Ok (), (upd_vma i (\<lambda>v. v\<lparr>vm_end := new_end\<rparr>) mm)\<lparr>brk := newbrk\<rparr>, k)
                    | None \<Rightarrow>
                        (Ok (), (upd_vma i (\<lambda>v. v\<lparr>vm_end := new_end\<rparr>) mm)\<lparr>brk := newbrk\<rparr>, k))
              | _ \<Rightarrow> (Fault, mm, k)))"

section \<open>Duplication and exit\<close>

text \<open>
  The loop of \<open>dup_mmap\<close>, which visits the areas of the parent from the last to the first; the
  identifiers of the child's areas come from the list of allocation results.
\<close>

fun dup_loop ::
    "vma_struct list \<Rightarrow> mm_struct \<Rightarrow> nat option list \<Rightarrow> mm_struct \<times> 'a kmem_scheme \<Rightarrow>
     unit outcome \<times> mm_struct \<times> 'a kmem_scheme" where
  "dup_loop [] parent mems (mm, k) = (Ok (), mm, k)"
| "dup_loop (v # vs) parent mems (mm, k) = (
     case vma_create (case mems of [] \<Rightarrow> None | m # _ \<Rightarrow> m) (vm_start v) (vm_end v) (vm_flags v) of
       None \<Rightarrow> (Err E_NO_MEM, mm, k)
     | Some nv \<Rightarrow>
         (case insert_vma_struct nv mm of
            (Ok _, mm) \<Rightarrow>
              let mm = (if brk_vma parent = Some (vm_id v) then mm\<lparr>brk_vma := Some (vm_id nv)\<rparr> else mm)
              in (case copy_range (mm_pgdir k (mm_id mm)) (mm_pgdir k (mm_id parent))
                         (vm_start v) (vm_end v) False k of
                    (Ok _, k) \<Rightarrow> dup_loop vs parent (tl mems) (mm, k)
                  | (Err _, k) \<Rightarrow> (Err E_NO_MEM, mm, k)
                  | (Fault, k) \<Rightarrow> (Fault, mm, k))
          | (_, mm) \<Rightarrow> (Fault, mm, k)))"

definition dup_mmap ::
    "mm_struct \<Rightarrow> nat option list \<Rightarrow> mm_struct \<times> 'a kmem_scheme \<Rightarrow>
     unit outcome \<times> mm_struct \<times> 'a kmem_scheme" where
  "dup_mmap parent mems = (\<lambda>(mm, k).
     dup_loop (rev (mmap_list parent)) parent mems
       (mm\<lparr>start_brk := start_brk parent, brk := brk parent, brk_vma := None\<rparr>, k))"

fun exit_loop :: "(vma_struct \<Rightarrow> 'k \<Rightarrow> unit outcome \<times> 'k) \<Rightarrow> vma_struct list \<Rightarrow> 'k \<Rightarrow> unit outcome \<times> 'k"
  where
  "exit_loop f [] k = (Ok (), k)"
| "exit_loop f (v # vs) k = sbind (f v k) (\<lambda>_ k. exit_loop f vs k)"

definition exit_mmap :: "mm_struct \<Rightarrow> 'a kmem_scheme \<Rightarrow> unit outcome \<times> 'a kmem_scheme" where
  "exit_mmap mm k =
     sbind (exit_loop (\<lambda>v. mm_unmap_pages mm (vm_start v) (vm_end v)) (mmap_list mm) k) (\<lambda>_ k.
     exit_loop (\<lambda>v. exit_range (mm_pgdir k (mm_id mm)) (vm_start v) (vm_end v)) (mmap_list mm) k)"

section \<open>User memory checks\<close>

lemma find_vma_contains: "find_vma mm a = (Ok (Some v), mm') \<Longrightarrow> vma_contains a v"
  by (auto simp: find_vma_def Let_def split: option.splits outcome.splits if_splits
      dest: find_Some_iff [THEN iffD1])

function mem_check_loop ::
    "nat \<Rightarrow> nat \<Rightarrow> bool \<Rightarrow> mm_struct \<Rightarrow> bool outcome \<times> mm_struct" where
  "mem_check_loop start stop write mm = (
     if start < stop
     then case find_vma mm start of
         (Ok None, mm) \<Rightarrow> (Ok False, mm)
       | (Ok (Some v), mm') \<Rightarrow>
           if start < vm_start v then (Ok False, mm')
           else if vm_flags v AND (if write then VM_WRITE else VM_READ OR VM_EXEC) = 0
           then (Ok False, mm')
           else if write \<and> vm_flags v AND VM_STACK \<noteq> 0 \<and> start < add32 (vm_start v) PGSIZE
           then (Ok False, mm')
           else mem_check_loop (vm_end v) stop write mm'
       | (_, mm) \<Rightarrow> (Fault, mm)
     else (Ok True, mm))"
  by auto
termination
  by (relation "measure (\<lambda>(start, stop, w, mm). stop - start)")
    (auto dest!: find_vma_contains [OF sym] simp: vma_contains_def)

definition user_mem_check ::
    "nat \<Rightarrow> nat \<Rightarrow> bool \<Rightarrow> mm_struct option \<Rightarrow> bool outcome \<times> mm_struct option" where
  "user_mem_check addr len write mmo = (
     case mmo of
       None \<Rightarrow> (Ok (KERN_ACCESS addr (add32 addr len)), None)
     | Some mm \<Rightarrow>
         if \<not> USER_ACCESS addr (add32 addr len) then (Ok False, mmo)
         else let (r, mm) = mem_check_loop addr (add32 addr len) write mm in (r, Some mm))"

lemmas vma_loops = unswappable_loop.simps mprotect_ptes.simps mem_check_loop.simps

declare vma_loops [simp del]

section \<open>Well-formed address spaces\<close>

definition below :: "vma_struct \<Rightarrow> vma_struct \<Rightarrow> bool" where
  "below v w \<longleftrightarrow> vm_end v \<le> vm_start w"

definition vma_ok :: "vma_struct \<Rightarrow> bool" where
  "vma_ok v \<longleftrightarrow> USERBASE \<le> vm_start v \<and> vm_start v < vm_end v \<and> vm_end v \<le> USERTOP \<and>
     vm_start v mod PGSIZE = 0 \<and> vm_end v mod PGSIZE = 0"

definition vmas_wf :: "vma_struct list \<Rightarrow> bool" where
  "vmas_wf vs \<longleftrightarrow> sorted_wrt below vs \<and> (\<forall>v\<in>set vs. vma_ok v) \<and> distinct (map vm_id vs)"

definition mm_wf :: "mm_struct \<Rightarrow> bool" where
  "mm_wf mm \<longleftrightarrow> vmas_wf (mmap_list mm) \<and> map_count mm = int (length (mmap_list mm)) \<and>
     set_option (mmap_cache mm) \<subseteq> vm_id ` set (mmap_list mm) \<and>
     set_option (brk_vma mm) \<subseteq> vm_id ` set (mmap_list mm)"

text \<open>What the areas mean: the partial map from addresses to protection flags.\<close>

definition region :: "vma_struct list \<Rightarrow> nat \<Rightarrow> u32 option" where
  "region vs a = map_option vm_flags (find (vma_contains a) vs)"

lemma region_simps [simp]:
  "region [] a = None"
  "region (v # vs) a = (if vma_contains a v then Some (vm_flags v) else region vs a)"
  by (simp_all add: region_def)

lemma region_append:
  "region (xs @ ys) a = (case region xs a of None \<Rightarrow> region ys a | Some f \<Rightarrow> Some f)"
  by (induction xs) simp_all

lemma region_None: "region vs a = None \<longleftrightarrow> (\<forall>v\<in>set vs. \<not> vma_contains a v)"
  by (induction vs) auto

lemma vmas_wf_simps [simp]:
  "vmas_wf []"
  "vmas_wf (v # vs) \<longleftrightarrow> vma_ok v \<and> (\<forall>w\<in>set vs. below v w \<and> vm_id w \<noteq> vm_id v) \<and> vmas_wf vs"
  by (auto simp: vmas_wf_def image_iff)

lemma vmas_wf_append:
  "vmas_wf (xs @ ys) \<longleftrightarrow> vmas_wf xs \<and> vmas_wf ys \<and>
     (\<forall>v\<in>set xs. \<forall>w\<in>set ys. below v w \<and> vm_id v \<noteq> vm_id w)"
  by (induction xs) auto

lemma contains_unique:
  assumes "vmas_wf vs" "v \<in> set vs" "w \<in> set vs" "vma_contains a v" "vma_contains a w"
  shows "v = w"
  using assms
  by (induction vs) (auto simp: below_def vma_contains_def)

lemma find_contains:
  "vmas_wf vs \<Longrightarrow> v \<in> set vs \<Longrightarrow> vma_contains a v \<Longrightarrow> find (vma_contains a) vs = Some v"
  by (induction vs) (auto simp: below_def vma_contains_def)

lemma region_Some:
  "vmas_wf vs \<Longrightarrow> region vs a = Some f \<longleftrightarrow> (\<exists>v\<in>set vs. vma_contains a v \<and> vm_flags v = f)"
  by (induction vs) (auto simp: below_def vma_contains_def)

lemma deref_Ok:
  "vmas_wf (mmap_list mm) \<Longrightarrow> v \<in> set (mmap_list mm) \<Longrightarrow> vma_deref mm (vm_id v) = Ok v"
proof -
  have "vmas_wf vs \<Longrightarrow> v \<in> set vs \<Longrightarrow> find (\<lambda>w. vm_id w = vm_id v) vs = Some v" for vs
    by (induction vs) auto
  then show "vmas_wf (mmap_list mm) \<Longrightarrow> v \<in> set (mmap_list mm) \<Longrightarrow> vma_deref mm (vm_id v) = Ok v"
    by (simp add: vma_deref_def)
qed

lemma find_vma_wf:
  assumes "mm_wf mm"
  obtains c where "find_vma mm a = (Ok (find (vma_contains a) (mmap_list mm)), mm\<lparr>mmap_cache := c\<rparr>)"
    and "mm_wf (mm\<lparr>mmap_cache := c\<rparr>)"
proof -
  have wf: "vmas_wf (mmap_list mm)"
    using assms by (simp add: mm_wf_def)
  let ?f = "find (vma_contains a) (mmap_list mm)"
  have scan: "\<exists>c. (case ?f of None \<Rightarrow> (Ok None, mm)
      | Some v \<Rightarrow> (Ok (Some v), mm\<lparr>mmap_cache := Some (vm_id v)\<rparr>)) = (Ok ?f, mm\<lparr>mmap_cache := c\<rparr>) \<and>
      mm_wf (mm\<lparr>mmap_cache := c\<rparr>)"
  proof (cases ?f)
    case None
    then show ?thesis
      using assms by (intro exI [of _ "mmap_cache mm"]) simp
  next
    case (Some v)
    then have "v \<in> set (mmap_list mm)"
      by (auto simp: find_Some_iff)
    then show ?thesis
      using Some assms by (intro exI [of _ "Some (vm_id v)"]) (simp add: mm_wf_def)
  qed
  have "\<exists>c. find_vma mm a = (Ok ?f, mm\<lparr>mmap_cache := c\<rparr>) \<and> mm_wf (mm\<lparr>mmap_cache := c\<rparr>)"
  proof (cases "mmap_cache mm")
    case None
    then show ?thesis
      using scan by (simp add: find_vma_def)
  next
    case (Some i)
    then obtain v where v: "v \<in> set (mmap_list mm)" "vm_id v = i"
      using assms by (auto simp: mm_wf_def)
    then have d: "vma_deref mm i = Ok v"
      using deref_Ok [OF wf v(1)] by simp
    show ?thesis
    proof (cases "vma_contains a v")
      case True
      then have "find_vma mm a = (Ok ?f, mm\<lparr>mmap_cache := Some i\<rparr>)"
        using Some d find_contains [OF wf v(1)] by (simp add: find_vma_def)
      moreover have "mm_wf (mm\<lparr>mmap_cache := Some i\<rparr>)"
        using assms Some by (simp add: mm_wf_def)
      ultimately show ?thesis
        by blast
    next
      case False
      then show ?thesis
        using scan Some d by (simp add: find_vma_def)
    qed
  qed
  then show thesis
    using that by blast
qed

lemma dropWhile_start:
  "vmas_wf vs \<Longrightarrow> w \<in> set (dropWhile (\<lambda>w. vm_start w \<le> x) vs) \<Longrightarrow> x < vm_start w"
  by (induction vs) (force simp: below_def vma_ok_def split: if_splits)+

definition disjoint_from :: "vma_struct list \<Rightarrow> nat \<Rightarrow> nat \<Rightarrow> bool" where
  "disjoint_from vs start stop \<longleftrightarrow> (\<forall>w\<in>set vs. vm_end w \<le> start \<or> stop \<le> vm_start w)"

lemma disjoint_from_region:
  assumes "\<forall>v\<in>set vs. vma_ok v" and "start < stop"
  shows "disjoint_from vs start stop \<longleftrightarrow> (\<forall>a. start \<le> a \<and> a < stop \<longrightarrow> region vs a = None)"
proof
  assume none: "\<forall>a. start \<le> a \<and> a < stop \<longrightarrow> region vs a = None"
  show "disjoint_from vs start stop"
    unfolding disjoint_from_def
  proof
    fix w
    assume w: "w \<in> set vs"
    let ?a = "max start (vm_start w)"
    have "\<not> (?a < stop \<and> vma_contains ?a w)"
      using none w by (auto simp: region_None)
    moreover have "vm_start w < vm_end w"
      using assms(1) w by (simp add: vma_ok_def)
    ultimately show "vm_end w \<le> start \<or> stop \<le> vm_start w"
      using assms(2) by (simp add: vma_contains_def max_def split: if_splits)
  qed
qed (auto simp: disjoint_from_def region_None vma_contains_def)

lemma insert_vma_struct_wf:
  assumes wf: "mm_wf mm" and ok: "vma_ok v" and fresh: "vm_id v \<notin> vm_id ` set (mmap_list mm)"
    and d: "disjoint_from (mmap_list mm) (vm_start v) (vm_end v)"
  obtains vs where
    "insert_vma_struct v mm = (Ok (), mm\<lparr>mmap_list := vs, map_count := map_count mm + 1\<rparr>)"
    "mm_wf (mm\<lparr>mmap_list := vs, map_count := map_count mm + 1\<rparr>)"
    "set vs = insert v (set (mmap_list mm))"
    "region vs = (\<lambda>a. if vma_contains a v then Some (vm_flags v) else region (mmap_list mm) a)"
proof -
  define B where "B = takeWhile (\<lambda>w. vm_start w \<le> vm_start v) (mmap_list mm)"
  define A where "A = dropWhile (\<lambda>w. vm_start w \<le> vm_start v) (mmap_list mm)"
  have L: "mmap_list mm = B @ A"
    by (simp add: A_def B_def)
  have wfL: "vmas_wf (B @ A)"
    using wf L by (simp add: mm_wf_def)
  have okL: "\<forall>w\<in>set (B @ A). vma_ok w"
    using wfL by (simp add: vmas_wf_def)
  have "vm_start w \<le> vm_start v" if "w \<in> set B" for w
    using that set_takeWhileD [of w "\<lambda>w. vm_start w \<le> vm_start v" "mmap_list mm"]
    by (simp add: B_def)
  then have Bb: "below w v" if "w \<in> set B" for w
    using that d ok L by (force simp: below_def disjoint_from_def vma_ok_def)
  have "vm_start v < vm_start w" if "w \<in> set A" for w
    using that dropWhile_start [of "mmap_list mm" w "vm_start v"] wf
    by (simp add: A_def mm_wf_def)
  then have Ab: "below v w" if "w \<in> set A" for w
    using that d okL L by (force simp: below_def disjoint_from_def vma_ok_def)
  have okw: "vma_ok w" if "w \<in> set B \<or> w \<in> set A" for w
    using that okL by auto
  let ?vs = "B @ v # A"
  have "check_vma_overlap (last B) v" if "B \<noteq> []"
    using Bb [of "last B"] okw [of "last B"] ok that
    by (simp add: check_vma_overlap_def below_def vma_ok_def)
  moreover have "check_vma_overlap v (hd A)" if "A \<noteq> []"
    using Ab [of "hd A"] okw [of "hd A"] ok that
    by (simp add: check_vma_overlap_def below_def vma_ok_def)
  ultimately have ins: "insert_vma_struct v mm =
      (Ok (), mm\<lparr>mmap_list := ?vs, map_count := map_count mm + 1\<rparr>)"
    using ok by (simp add: insert_vma_struct_def B_def A_def vma_ok_def Let_def)
  have "vm_id w \<noteq> vm_id v" if "w \<in> set B \<or> w \<in> set A" for w
    using fresh that unfolding L by (metis UnCI image_eqI set_append)
  then have wf': "vmas_wf ?vs"
    using wfL Ab Bb ok by (auto simp: vmas_wf_append)
  show thesis
  proof (rule that [OF ins])
    show "mm_wf (mm\<lparr>mmap_list := ?vs, map_count := map_count mm + 1\<rparr>)"
      using wf wf' by (auto simp: mm_wf_def L)
    show "set ?vs = insert v (set (mmap_list mm))"
      by (auto simp: L)
    show "region ?vs =
        (\<lambda>a. if vma_contains a v then Some (vm_flags v) else region (mmap_list mm) a)"
    proof
      fix a
      show "region ?vs a =
          (if vma_contains a v then Some (vm_flags v) else region (mmap_list mm) a)"
      proof (cases "vma_contains a v")
        case True
        then have "region B a = None"
          using Bb by (fastforce simp: region_None vma_contains_def below_def)
        then show ?thesis
          using True by (simp add: region_append)
      qed (simp add: region_append L split: option.split)
    qed
  qed
qed

lemma range_clear_iff:
  "vmas_wf vs \<Longrightarrow> start < stop \<Longrightarrow> range_clear start stop vs \<longleftrightarrow> disjoint_from vs start stop"
proof (induction vs)
  case (Cons v vs)
  have v: "vm_start v < vm_end v" "\<forall>w\<in>set vs. vm_end v \<le> vm_start w"
    using Cons.prems(1) by (auto simp: below_def vma_ok_def)
  show ?case
  proof (cases "vm_end v \<le> start")
    case True
    then show ?thesis
      using Cons by (simp add: disjoint_from_def)
  next
    case False
    then show ?thesis
      using v by (fastforce simp: disjoint_from_def)
  qed
qed (simp add: disjoint_from_def)

lemma ROUNDDOWN_aligned [simp]: "ROUNDDOWN a n mod n = 0"
  by (simp add: ROUNDDOWN_def minus_mod_eq_mult_div)

lemma ROUNDUP_aligned [simp]: "ROUNDUP a n mod n = 0"
  by (simp add: ROUNDUP_def)

lemma ROUNDDOWN_le: "ROUNDDOWN a n \<le> a"
  by (simp add: ROUNDDOWN_def)

lemma ROUNDUP_ge:
  assumes "0 < n" "a + (n - 1) < 2 ^ 32"
  shows "a \<le> ROUNDUP a n \<and> ROUNDUP a n < a + n"
proof -
  have e: "ROUNDUP a n = a + (n - 1) - (a + (n - 1)) mod n"
    using assms(2) by (simp add: ROUNDUP_def ROUNDDOWN_def add32_def)
  have "(a + (n - 1)) mod n < n"
    using assms(1) by simp
  then show ?thesis
    unfolding e using assms(1) by linarith
qed

lemma ROUNDUP_fix: "a mod PGSIZE = 0 \<Longrightarrow> a + 4095 < 2 ^ 32 \<Longrightarrow> ROUNDUP a PGSIZE = a"
  by (auto simp: ROUNDUP_def ROUNDDOWN_def add32_def)

lemma mm_map_Ok_range:
  assumes "\<not> (stop \<le> start \<or> \<not> USER_ACCESS start stop)"
    and "start = ROUNDDOWN addr PGSIZE" and "stop = ROUNDUP x PGSIZE"
  shows "vma_ok \<lparr> vm_id = i, vm_start = start, vm_end = stop, vm_flags = fl \<rparr>"
  using assms by (auto simp: vma_ok_def USER_ACCESS_def)

text \<open>
  C25: \<open>mm_map\<close> refines the map from addresses to protection flags.  On a well-formed address space it
  never fails an assertion; when it succeeds, the page-rounded range was free, lies in user space,
  carries the new flags afterwards, and no other address changes; the list stays sorted, disjoint,
  aligned and counted.  When it fails, nothing changes, and an \<open>E_INVAL\<close> for a request whose range
  is a legal one means that some address of the range was mapped.
\<close>

theorem mm_map_refines:
  fixes addr len :: nat
  assumes wf: "mm_wf mm" and fresh: "\<forall>i\<in>set_option mem. i \<notin> vm_id ` set (mmap_list mm)"
  defines "start \<equiv> ROUNDDOWN addr PGSIZE" and "stop \<equiv> ROUNDUP (add32 addr len) PGSIZE"
  shows "case mm_map mm addr len fl mem of
      (Ok v, mm') \<Rightarrow> mm_wf mm' \<and> USER_ACCESS start stop \<and> vm_start v = start \<and> vm_end v = stop \<and>
        (\<forall>a. start \<le> a \<and> a < stop \<longrightarrow> region (mmap_list mm) a = None) \<and>
        region (mmap_list mm') =
          (\<lambda>a. if start \<le> a \<and> a < stop then Some fl else region (mmap_list mm) a)
    | (Err e, mm') \<Rightarrow> mm' = mm \<and>
        (e = E_INVAL \<longrightarrow> len = 0 \<or> add32 addr len < addr \<or> fl AND NOT 15 \<noteq> 0 \<or>
           \<not> USER_ACCESS start stop \<or>
           (\<exists>a. start \<le> a \<and> a < stop \<and> region (mmap_list mm) a \<noteq> None))
    | (Fault, mm') \<Rightarrow> False"
proof -
  have wfL: "vmas_wf (mmap_list mm)" and okL: "\<forall>v\<in>set (mmap_list mm). vma_ok v"
    using wf by (simp_all add: mm_wf_def vmas_wf_def)
  have fl: "fl AND NOT (VM_READ OR VM_WRITE OR VM_EXEC OR VM_STACK) = fl AND NOT 15"
    by simp
  consider "len = 0 \<or> add32 addr len < addr \<or> fl AND NOT 15 \<noteq> 0"
    | "stop \<le> start \<or> \<not> USER_ACCESS start stop"
    | "\<not> (len = 0 \<or> add32 addr len < addr \<or> fl AND NOT 15 \<noteq> 0)"
      "\<not> (stop \<le> start \<or> \<not> USER_ACCESS start stop)"
    by blast
  then show ?thesis
  proof cases
    case 1
    then show ?thesis
      by (auto simp: mm_map_def)
  next
    case 2
    then show ?thesis
      by (auto simp: mm_map_def fl Let_def start_def [symmetric] stop_def [symmetric] USER_ACCESS_def)
  next
    case 3
    then have ss: "start < stop" by auto
    note clear = range_clear_iff [OF wfL ss] disjoint_from_region [OF okL ss]
    show ?thesis
    proof (cases "range_clear start stop (mmap_list mm)")
      case False
      then show ?thesis
        using 3 clear
        by (auto simp: mm_map_def fl Let_def start_def [symmetric] stop_def [symmetric])
    next
      case True
      show ?thesis
      proof (cases mem)
        case None
        then show ?thesis
          using 3 True by (simp add: mm_map_def fl Let_def start_def [symmetric]
              stop_def [symmetric] vma_create_def)
      next
        case (Some i)
        let ?v = "\<lparr> vm_id = i, vm_start = start, vm_end = stop, vm_flags = fl \<rparr>"
        have ok: "vma_ok ?v"
          using 3(2) by (rule mm_map_Ok_range) (simp_all add: start_def stop_def)
        have "disjoint_from (mmap_list mm) (vm_start ?v) (vm_end ?v)"
          using True clear by simp
        then obtain vs where vs:
          "insert_vma_struct ?v mm = (Ok (), mm\<lparr>mmap_list := vs, map_count := map_count mm + 1\<rparr>)"
          "mm_wf (mm\<lparr>mmap_list := vs, map_count := map_count mm + 1\<rparr>)"
          "region vs =
             (\<lambda>a. if vma_contains a ?v then Some (vm_flags ?v) else region (mmap_list mm) a)"
          by (rule insert_vma_struct_wf [OF wf ok, rotated]) (use fresh Some in simp_all)
        then show ?thesis
          using 3 True clear Some
          by (auto simp: mm_map_def fl Let_def start_def [symmetric] stop_def [symmetric]
              vma_create_def fun_eq_iff vma_contains_def)
      qed
    qed
  qed
qed

text \<open>A hole of \<open>sz\<close> bytes at \<open>r\<close>.\<close>

definition hole :: "vma_struct list \<Rightarrow> nat \<Rightarrow> nat \<Rightarrow> nat \<Rightarrow> bool" where
  "hole vs sz limit r \<longleftrightarrow> r + sz \<le> limit \<and> disjoint_from vs r (r + sz)"

lemma unmapped_area_loop_spec:
  assumes "vmas_wf vs" and "cand mod PGSIZE = 0" and "0 < cand" and "cand + sz \<le> limit"
    and "limit \<le> USERTOP" and "0 < sz"
  shows "case unmapped_area_loop sz limit cand vs of
      0 \<Rightarrow> (\<forall>r\<ge>cand. \<not> hole vs sz limit r)
    | Suc r \<Rightarrow> cand \<le> Suc r \<and> Suc r mod PGSIZE = 0 \<and> hole vs sz limit (Suc r) \<and>
        (\<forall>r'\<ge>cand. hole vs sz limit r' \<longrightarrow> Suc r \<le> r')"
  using assms
proof (induction vs arbitrary: cand)
  case Nil
  then show ?case
    by (auto simp: hole_def disjoint_from_def split: nat.split)
next
  case (Cons v vs)
  have v: "vma_ok v" "\<forall>w\<in>set vs. vm_end v \<le> vm_start w" "vmas_wf vs"
    using Cons.prems(1) by (auto simp: below_def)
  have a32: "add32 cand sz = cand + sz"
    using Cons.prems by (simp add: add32_def)
  have ru: "ROUNDUP (vm_end v) PGSIZE = vm_end v"
    using v(1) by (intro ROUNDUP_fix) (auto simp: vma_ok_def)
  have h: "hole (v # vs) sz limit r \<longleftrightarrow>
      hole vs sz limit r \<and> (vm_end v \<le> r \<or> r + sz \<le> vm_start v)" for r
    by (auto simp: hole_def disjoint_from_def)
  consider (skip) "vm_end v \<le> cand"
    | (gap) "\<not> vm_end v \<le> cand" "cand \<le> vm_start v" "sz \<le> vm_start v - cand"
    | (full) "\<not> vm_end v \<le> cand" "\<not> (cand \<le> vm_start v \<and> sz \<le> vm_start v - cand)"
    by blast
  then show ?case
  proof cases
    case skip
    then show ?thesis
      using Cons.IH [of cand] Cons.prems v
      by (auto simp: h split: nat.splits)
  next
    case gap
    then have "hole (v # vs) sz limit cand"
      using v Cons.prems(4) by (fastforce simp: hole_def disjoint_from_def vma_ok_def)
    then show ?thesis
      using gap Cons.prems a32 by (auto split: nat.splits)
  next
    case full
    then have up: "vm_end v \<le> r" if "cand \<le> r" "hole (v # vs) sz limit r" for r
      using that h by auto
    show ?thesis
    proof (cases "vm_end v > limit \<or> sz > limit - vm_end v")
      case True
      then have "unmapped_area_loop sz limit cand (v # vs) = 0"
        using full ru a32 by auto
      moreover have "\<not> hole (v # vs) sz limit r" if "cand \<le> r" for r
        using up [OF that] True Cons.prems(6) by (auto simp: hole_def)
      ultimately show ?thesis
        by simp
    next
      case False
      then have eq: "unmapped_area_loop sz limit cand (v # vs) =
          unmapped_area_loop sz limit (vm_end v) vs"
        using full ru a32 by (auto simp: Let_def)
      have IH: "case unmapped_area_loop sz limit (vm_end v) vs of
          0 \<Rightarrow> (\<forall>r\<ge>vm_end v. \<not> hole vs sz limit r)
        | Suc r \<Rightarrow> vm_end v \<le> Suc r \<and> Suc r mod PGSIZE = 0 \<and> hole vs sz limit (Suc r) \<and>
            (\<forall>r'\<ge>vm_end v. hole vs sz limit r' \<longrightarrow> Suc r \<le> r')"
        using Cons.IH [of "vm_end v"] v Cons.prems False by (auto simp: vma_ok_def)
      show ?thesis
        using IH up full(1) unfolding eq
        by (auto simp: h split: nat.splits)
    qed
  qed
qed

text \<open>
  \<open>get_unmapped_area\<close> is first fit and complete: for a non-zero length it returns the lowest
  page-aligned address at or above \<open>USERBASE\<close> where the page-rounded length fits below the stack
  reservation without touching a mapped area, and returns 0 only if there is no such address.
\<close>

theorem get_unmapped_area_first_fit:
  assumes "mm_wf mm" and "0 < len" and "len \<le> 0xFFFFFFFF - 4095"
  shows "case get_unmapped_area mm len of
      0 \<Rightarrow> (\<forall>r\<ge>USERBASE. \<not> hole (mmap_list mm) (ROUNDUP len PGSIZE) (USERTOP - USTACKSIZE) r)
    | Suc r \<Rightarrow> USERBASE \<le> Suc r \<and> Suc r mod PGSIZE = 0 \<and>
        hole (mmap_list mm) (ROUNDUP len PGSIZE) (USERTOP - USTACKSIZE) (Suc r) \<and>
        (\<forall>r'\<ge>USERBASE. hole (mmap_list mm) (ROUNDUP len PGSIZE) (USERTOP - USTACKSIZE) r' \<longrightarrow>
           Suc r \<le> r')"
proof -
  let ?sz = "ROUNDUP len PGSIZE"
  have sz: "0 < ?sz"
    using ROUNDUP_ge [of 4096 len] assms by simp
  show ?thesis
  proof (cases "?sz > USERTOP - USTACKSIZE - USERBASE")
    case True
    then show ?thesis
      using assms by (auto simp: get_unmapped_area_def hole_def)
  next
    case False
    then show ?thesis
      using unmapped_area_loop_spec [of "mmap_list mm" USERBASE ?sz "USERTOP - USTACKSIZE"] assms sz
      by (simp add: get_unmapped_area_def mm_wf_def Let_def)
  qed
qed

section \<open>Unmapping, protection\<close>

lemma unmap_loop_done:
  assumes "\<forall>v\<in>set vs. stop \<le> vm_start v \<and> vm_start v < vm_end v" and "start < stop"
  shows "unmap_loop start stop mem kept vs mm k = (Ok (), mm\<lparr>mmap_list := kept @ vs\<rparr>, k)"
  using assms by (cases vs) auto

lemma cut_vma_region:
  assumes v: "vma_ok v" and cut: "cut_vma (max start (vm_start v)) (min stop (vm_end v)) mem v mm = (Ok ws, mm')"
    and lt: "max start (vm_start v) < min stop (vm_end v)"
    and al: "start mod PGSIZE = 0" "stop mod PGSIZE = 0"
  shows "region ws a = (if start \<le> a \<and> a < stop then None else region [v] a)"
    and "\<forall>w\<in>set ws. vma_ok w \<and> vm_start v \<le> vm_start w \<and> vm_end w \<le> vm_end v \<and>
      (vm_id w = vm_id v \<or> Some (vm_id w) = mem) \<and> (vm_end w \<le> start \<or> stop \<le> vm_start w)"
    and "(\<forall>i\<in>set_option mem. i \<noteq> vm_id v) \<Longrightarrow> vmas_wf ws"
  using assms
  by (auto simp: cut_vma_def vma_create_def vma_ok_def below_def vma_contains_def min_def max_def
      split: if_splits option.splits)

end
