(* ===== verification/Vma_Refinement.thy ===== *)
theory Vma_Refinement
  imports Vma
begin

text \<open>
  Refinement of the map from addresses to protection flags by unmapping and protection changes,
  exactness of the user memory check, and the interplay of \<open>mm_brk\<close> and \<open>mm_mprotect\<close>.
\<close>

lemma vmas_wfD: "vmas_wf vs \<Longrightarrow> v \<in> set vs \<Longrightarrow> vma_ok v \<and> vm_start v < vm_end v"
  by (simp add: vmas_wf_def vma_ok_def)

lemma disjoint_None:
  assumes "\<forall>w\<in>set vs. vm_end w \<le> start \<or> stop \<le> vm_start w" and "start \<le> a" and "a < stop"
  shows "region vs a = None"
proof -
  have "\<not> vma_contains a w" if "w \<in> set vs" for w
    using assms(1) [rule_format, OF that] assms(2,3) by (auto simp: vma_contains_def)
  then show ?thesis
    by (simp add: region_None)
qed








lemma covers_iff:
  "vmas_wf vs \<Longrightarrow> covers cursor stop vs \<longleftrightarrow> (\<forall>a. cursor \<le> a \<and> a < stop \<longrightarrow> region vs a \<noteq> None)"
proof (induction vs arbitrary: cursor)
  case (Cons v vs)
  have v: "vm_start v < vm_end v" "\<forall>w\<in>set vs. vm_end v \<le> vm_start w" "vmas_wf vs"
    using Cons.prems by (auto simp: below_def vma_ok_def)
  have low: "region vs a = None" if "a < vm_end v" for a
    using that v(2) by (fastforce simp: region_None vma_contains_def)
  consider "\<not> cursor < stop" | "cursor < stop" "vm_end v \<le> cursor"
    | "cursor < stop" "\<not> vm_end v \<le> cursor" "cursor < vm_start v"
    | "cursor < stop" "\<not> vm_end v \<le> cursor" "\<not> cursor < vm_start v"
    by linarith
  then show ?case
  proof cases
    case 3
    then have "region (v # vs) cursor = None" "\<not> covers cursor stop (v # vs)"
      using low by (simp_all add: vma_contains_def)
    then show ?thesis
      using 3(1) by (metis order_refl)
  next
    case 4
    have "region (v # vs) a = (if a < vm_end v then Some (vm_flags v) else region vs a)"
      if "cursor \<le> a" for a
      using that 4 by (auto simp: vma_contains_def)
    then show ?thesis
      using 4 Cons.IH [OF v(3), of "min (vm_end v) stop"]
      by (auto simp: min_def split: if_splits)
  qed (use Cons.IH [OF v(3)] in \<open>auto simp: vma_contains_def\<close>)
qed (auto)

lemma split_left_spec:
  assumes wf: "mm_wf mm" and al: "start mod PGSIZE = 0"
    and fresh: "\<forall>i\<in>set_option mem. i \<notin> vm_id ` set (mmap_list mm)"
    and sp: "split_left start mem mm = (r, mm')"
  shows "mm_wf mm' \<and> region (mmap_list mm') = region (mmap_list mm) \<and> mm_id mm' = mm_id mm \<and>
    vm_id ` set (mmap_list mm') \<subseteq> vm_id ` set (mmap_list mm) \<union> set_option mem \<and>
    (case r of
      Ok (pre, post) \<Rightarrow> mmap_list mm' = pre @ post \<and> (\<forall>v\<in>set pre. vm_end v \<le> start) \<and>
        (\<forall>v\<in>set post. start \<le> vm_start v)
    | Err e \<Rightarrow> mm' = mm | Fault \<Rightarrow> False)"
proof -
  define B where "B = takeWhile (\<lambda>v. vm_end v \<le> start) (mmap_list mm)"
  have Bs: "\<forall>v\<in>set B. vm_end v \<le> start"
    by (auto simp: B_def dest: set_takeWhileD)
  have V: "vmas_wf (mmap_list mm)"
    using wf by (simp add: mm_wf_def)
  show ?thesis
  proof (cases "dropWhile (\<lambda>v. vm_end v \<le> start) (mmap_list mm)")
    case Nil
    then show ?thesis
      using sp wf by (auto simp: split_left_def Let_def simp del: dropWhile_eq_Nil_conv)
  next
    case (Cons v vs)
    then have L: "mmap_list mm = B @ v # vs"
      by (metis B_def takeWhile_dropWhile_id)
    have v: "vma_ok v" "start < vm_end v" "\<forall>w\<in>set vs. vm_end v \<le> vm_start w"
      using V Cons hd_dropWhile [of "\<lambda>v. vm_end v \<le> start" "mmap_list mm"]
      by (auto simp: L vmas_wf_append below_def)
    show ?thesis
    proof (cases "vm_start v < start")
      case False
      then show ?thesis
        using sp wf v Bs L Cons by (fastforce simp: split_left_def B_def [symmetric])
    next
      case True
      show ?thesis
      proof (cases mem)
        case None
        then show ?thesis
          using sp wf Cons True by (auto simp: split_left_def vma_create_def)
      next
        case (Some i)
        let ?w = "\<lparr>vm_id = i, vm_start = start, vm_end = vm_end v, vm_flags = vm_flags v\<rparr>"
        let ?L = "B @ v\<lparr>vm_end := start\<rparr> # ?w # vs"
        have mm': "mm' = mm\<lparr>mmap_list := ?L, map_count := map_count mm + 1\<rparr>"
          "r = Ok (B @ [v\<lparr>vm_end := start\<rparr>], ?w # vs)"
          using sp Cons True Some by (auto simp: split_left_def vma_create_def B_def Let_def)
        have i: "\<forall>u\<in>set B \<union> set vs. vm_id u \<noteq> i" "vm_id v \<noteq> i"
          using fresh Some by (auto simp: L)
        have "vmas_wf ?L"
          using V v True al i by (auto simp: L vmas_wf_append below_def vma_ok_def)
        then have "mm_wf mm'"
          using wf by (auto simp: mm' mm_wf_def L)
        moreover have "region ?L = region (mmap_list mm)"
          using v True by (auto simp: L fun_eq_iff region_append vma_contains_def split: option.split)
        moreover have "\<forall>u\<in>set (?w # vs). start \<le> vm_start u"
          using v by auto
        ultimately show ?thesis
          using Bs Some by (auto simp: mm' L)
      qed
    qed
  qed
qed

lemma split_right_spec:
  assumes wf: "mm_wf mm" and al: "stop mod PGSIZE = 0" and L: "mmap_list mm = pre @ post"
    and fresh: "\<forall>i\<in>set_option mem. i \<notin> vm_id ` set (mmap_list mm)"
    and pre: "\<forall>v\<in>set pre. vm_end v \<le> start" and post: "\<forall>v\<in>set post. start \<le> vm_start v"
    and lt: "start < stop" and last: "region (mmap_list mm) (stop - 1) \<noteq> None"
    and sp: "split_right stop mem pre post mm = (r, mm')"
  shows "mm_wf mm' \<and> region (mmap_list mm') = region (mmap_list mm) \<and> mm_id mm' = mm_id mm \<and>
    (case r of
      Ok _ \<Rightarrow> (\<forall>v\<in>set (mmap_list mm'). vm_end v \<le> start \<or>
        (start \<le> vm_start v \<and> vm_end v \<le> stop) \<or> stop \<le> vm_start v)
    | Err e \<Rightarrow> mm' = mm | Fault \<Rightarrow> False)"
proof -
  define M where "M = takeWhile (\<lambda>v. vm_end v < stop) post"
  have Ms: "\<forall>v\<in>set M. vm_end v < stop"
    by (auto simp: M_def dest: set_takeWhileD)
  have V: "vmas_wf (pre @ post)"
    using wf L by (simp add: mm_wf_def)
  show ?thesis
  proof (cases "dropWhile (\<lambda>v. vm_end v < stop) post")
    case Nil
    then show ?thesis
      using sp wf by (auto simp: split_right_def Let_def simp del: dropWhile_eq_Nil_conv)
  next
    case (Cons v vs)
    then have P: "post = M @ v # vs"
      by (metis M_def takeWhile_dropWhile_id)
    have v: "vma_ok v" "stop \<le> vm_end v" "\<forall>w\<in>set vs. vm_end v \<le> vm_start w" "start \<le> vm_start v"
      using V Cons post hd_dropWhile [of "\<lambda>v. vm_end v < stop" post]
      by (auto simp: P vmas_wf_append below_def)
    have vs: "vm_start v < stop"
    proof (rule ccontr)
      assume "\<not> vm_start v < stop"
      then have "\<forall>w\<in>set (pre @ post). vm_end w \<le> stop - 1 \<or> stop \<le> vm_start w"
        using Ms v pre lt by (auto simp: P)
      then have "region (pre @ post) (stop - 1) = None"
        using lt by (intro disjoint_None [of _ "stop - 1" stop]) auto
      then show False
        using last L by simp
    qed
    show ?thesis
    proof (cases "vm_end v > stop")
      case False
      then have "r = Ok ()" "mm' = mm"
        using sp Cons by (auto simp: split_right_def)
      moreover have "\<forall>u\<in>set (pre @ post). vm_end u \<le> start \<or>
          (start \<le> vm_start u \<and> vm_end u \<le> stop) \<or> stop \<le> vm_start u"
        using False v pre post Ms by (auto simp: P less_imp_le)
      ultimately show ?thesis
        using wf L by simp
    next
      case True
      show ?thesis
      proof (cases mem)
        case None
        then show ?thesis
          using sp wf Cons True by (auto simp: split_right_def vma_create_def)
      next
        case (Some i)
        let ?w = "\<lparr>vm_id = i, vm_start = stop, vm_end = vm_end v, vm_flags = vm_flags v\<rparr>"
        let ?L = "pre @ M @ v\<lparr>vm_end := stop\<rparr> # ?w # vs"
        have mm': "mm' = mm\<lparr>mmap_list := ?L, map_count := map_count mm + 1\<rparr>" "r = Ok ()"
          using sp Cons True Some by (auto simp: split_right_def vma_create_def M_def Let_def)
        have i: "\<forall>u\<in>set pre \<union> set M \<union> set vs. vm_id u \<noteq> i" "vm_id v \<noteq> i"
          using fresh Some by (auto simp: L P)
        have "vmas_wf ?L"
          using V v vs True al i by (auto simp: P vmas_wf_append below_def vma_ok_def)
        then have "mm_wf mm'"
          using wf by (auto simp: mm' mm_wf_def L P)
        moreover have "region ?L = region (mmap_list mm)"
          using v vs True by (auto simp: L P fun_eq_iff region_append vma_contains_def split: option.split)
        moreover have "\<forall>u\<in>set ?L. vm_end u \<le> start \<or>
            (start \<le> vm_start u \<and> vm_end u \<le> stop) \<or> stop \<le> vm_start u"
          using True v pre post Ms by (auto simp: P less_imp_le)
        ultimately show ?thesis
          by (simp add: mm')
      qed
    qed
  qed
qed

lemma set_flags_region:
  assumes "vmas_wf vs" and "start < stop"
    and "\<forall>v\<in>set vs. vm_end v \<le> start \<or> (start \<le> vm_start v \<and> vm_end v \<le> stop) \<or> stop \<le> vm_start v"
  shows "region (set_flags_loop start stop fl vs) a =
      (if start \<le> a \<and> a < stop then map_option (\<lambda>_. fl) (region vs a) else region vs a)"
    and "map (\<lambda>v. (vm_id v, vm_start v, vm_end v)) (set_flags_loop start stop fl vs) =
      map (\<lambda>v. (vm_id v, vm_start v, vm_end v)) vs"
proof -
  show "region (set_flags_loop start stop fl vs) a =
      (if start \<le> a \<and> a < stop then map_option (\<lambda>_. fl) (region vs a) else region vs a)"
    using assms
  proof (induction vs)
    case (Cons v vs)
    have v: "vm_start v < vm_end v" "\<forall>w\<in>set vs. vm_end v \<le> vm_start w"
      using Cons.prems(1) by (auto simp: below_def vma_ok_def)
    show ?case
    proof (cases "stop \<le> vm_start v")
      case True
      then have "\<forall>w\<in>set (v # vs). vm_end w \<le> start \<or> stop \<le> vm_start w"
        using v by auto
      then have "region (v # vs) a = None" if "start \<le> a" "a < stop"
        using that by (rule disjoint_None)
      then show ?thesis
        using True by (auto simp del: region_simps)
    next
      case False
      then show ?thesis
        using Cons v by (auto simp: vma_contains_def)
    qed
  qed simp
  show "map (\<lambda>v. (vm_id v, vm_start v, vm_end v)) (set_flags_loop start stop fl vs) =
      map (\<lambda>v. (vm_id v, vm_start v, vm_end v)) vs"
    by (induction vs) auto
qed

lemma set_flags_wf: "vmas_wf vs \<Longrightarrow> vmas_wf (set_flags_loop start stop fl vs)"
proof (induction vs)
  case (Cons v vs)
  have "\<exists>u\<in>set vs. vm_id u = vm_id w \<and> vm_start u = vm_start w"
    if "w \<in> set (set_flags_loop start stop fl vs)" for w
    using that by (induction vs) (auto split: if_splits)
  then have "\<forall>w\<in>set (set_flags_loop start stop fl vs). vm_end v \<le> vm_start w \<and> vm_id w \<noteq> vm_id v"
    using Cons.prems by (simp add: below_def) metis
  then show ?case
    using Cons by (simp add: below_def vma_ok_def)
qed simp

text \<open>The two splits of \<open>mm_mprotect\<close> at the edges of the interval, one after the other.\<close>

definition split_both ::
  "nat \<Rightarrow> nat \<Rightarrow> nat option \<Rightarrow> nat option \<Rightarrow> mm_struct \<Rightarrow> unit outcome \<times> mm_struct" where
  "split_both start stop mem1 mem2 mm =
     (case split_left start mem1 mm of
        (Ok (pre, post), mm) \<Rightarrow> split_right stop mem2 pre post mm
      | (Err e, mm) \<Rightarrow> (Err e, mm)
      | (Fault, mm) \<Rightarrow> (Fault, mm))"

lemma split_both_spec:
  assumes wf: "mm_wf mm" and al: "start mod PGSIZE = 0" "stop mod PGSIZE = 0" and lt: "start < stop"
    and fresh: "\<forall>i\<in>set_option mem1 \<union> set_option mem2. i \<notin> vm_id ` set (mmap_list mm)"
      "set_option mem1 \<inter> set_option mem2 = {}"
    and last: "region (mmap_list mm) (stop - 1) \<noteq> None"
    and sp: "split_both start stop mem1 mem2 mm = (r, mm')"
  shows "mm_wf mm' \<and> region (mmap_list mm') = region (mmap_list mm) \<and>
    (case r of
      Ok _ \<Rightarrow> (\<forall>v\<in>set (mmap_list mm'). vm_end v \<le> start \<or>
        (start \<le> vm_start v \<and> vm_end v \<le> stop) \<or> stop \<le> vm_start v)
    | Err e \<Rightarrow> True | Fault \<Rightarrow> False)"
proof -
  obtain r1 mm1 where s1: "split_left start mem1 mm = (r1, mm1)"
    by fastforce
  have "\<forall>i\<in>set_option mem1. i \<notin> vm_id ` set (mmap_list mm)"
    using fresh by blast
  note l = split_left_spec [OF wf al(1) this s1]
  show ?thesis
  proof (cases r1)
    case (Ok pp)
    then obtain pre post where r1: "r1 = Ok (pre, post)"
      by (cases pp) auto
    have l': "mm_wf mm1" "region (mmap_list mm1) = region (mmap_list mm)"
      "mmap_list mm1 = pre @ post" "\<forall>v\<in>set pre. vm_end v \<le> start" "\<forall>v\<in>set post. start \<le> vm_start v"
      "vm_id ` set (mmap_list mm1) \<subseteq> vm_id ` set (mmap_list mm) \<union> set_option mem1"
      using l [unfolded r1 outcome.case prod.case] by blast+
    have f2: "\<forall>i\<in>set_option mem2. i \<notin> vm_id ` set (mmap_list mm1)"
      using l'(6) fresh by blast
    have s2: "split_right stop mem2 pre post mm1 = (r, mm')"
      using sp s1 r1 by (simp add: split_both_def)
    have "region (mmap_list mm1) (stop - 1) \<noteq> None"
      using last l'(2) by simp
    from split_right_spec [OF l'(1) al(2) l'(3) f2 l'(4,5) lt this s2] show ?thesis
      using l'(2) by (cases r) auto
  qed (use sp s1 l in \<open>auto simp: split_both_def\<close>)
qed

lemma set_flags_mm:
  fixes fl :: u32
  assumes "mm_wf mm" and "start < stop"
    and "\<forall>v\<in>set (mmap_list mm). vm_end v \<le> start \<or> (start \<le> vm_start v \<and> vm_end v \<le> stop) \<or> stop \<le> vm_start v"
    and "\<forall>a. start \<le> a \<and> a < stop \<longrightarrow> region (mmap_list mm) a \<noteq> None"
  defines "ws \<equiv> set_flags_loop start stop fl (mmap_list mm)"
  shows "mm_wf (mm\<lparr>mmap_list := ws\<rparr>) \<and>
    region ws = (\<lambda>a. if start \<le> a \<and> a < stop then Some fl else region (mmap_list mm) a)"
proof -
  have V: "vmas_wf (mmap_list mm)"
    using assms(1) by (simp add: mm_wf_def)
  note sf = set_flags_region [OF V assms(2,3), of fl, folded ws_def]
  have "vm_id ` set ws = vm_id ` set (mmap_list mm)" "length ws = length (mmap_list mm)"
    using arg_cong [OF sf(2), of "\<lambda>xs. fst ` set xs"] map_eq_imp_length_eq [OF sf(2)]
    by (simp_all add: image_image)
  then show ?thesis
    using assms(1,4) set_flags_wf [OF V] sf(1) by (auto simp: mm_wf_def ws_def fun_eq_iff)
qed

text \<open>
  C17: \<open>mm_mprotect\<close> refines changing the flags of an address interval.  It succeeds only if every
  address of the page-rounded interval is mapped, and then exactly these addresses carry the new
  flags, every other address keeps its own and the address space stays well formed.  When it
  fails, no address changes and no page table is touched, although the request may have been
  rejected after an area had been split.
\<close>

theorem mm_mprotect_refines:
  fixes addr len :: nat
  assumes wf: "mm_wf mm"
    and fresh: "\<forall>i\<in>set_option mem1 \<union> set_option mem2. i \<notin> vm_id ` set (mmap_list mm)"
      "set_option mem1 \<inter> set_option mem2 = {}"
  defines "stop \<equiv> ROUNDUP (add32 addr len) PGSIZE"
  shows "case mm_mprotect addr len fl mem1 mem2 (mm, k) of
      (Ok _, mm', k') \<Rightarrow> mm_wf mm' \<and> USER_ACCESS addr stop \<and>
        (\<forall>a. addr \<le> a \<and> a < stop \<longrightarrow> region (mmap_list mm) a \<noteq> None) \<and>
        region (mmap_list mm') =
          (\<lambda>a. if addr \<le> a \<and> a < stop then Some fl else region (mmap_list mm) a)
    | (Err e, mm', k') \<Rightarrow> mm_wf mm' \<and> region (mmap_list mm') = region (mmap_list mm) \<and> k' = k
    | (Fault, mm', k') \<Rightarrow> False"
proof (cases "len = 0 \<or> addr mod PGSIZE \<noteq> 0 \<or> add32 addr len < addr \<or>
    fl AND NOT (VM_READ OR VM_WRITE OR VM_EXEC) \<noteq> 0 \<or> stop \<le> addr \<or> \<not> USER_ACCESS addr stop \<or>
    \<not> covers addr stop (mmap_list mm)")
  case True
  then show ?thesis
    using wf unfolding mm_mprotect_def Let_def stop_def [symmetric] by auto
next
  case False
  then have lt: "addr < stop" and al: "addr mod PGSIZE = 0" "stop mod PGSIZE = 0"
    and ua: "USER_ACCESS addr stop"
    by (auto simp: stop_def)
  have cov: "\<forall>a. addr \<le> a \<and> a < stop \<longrightarrow> region (mmap_list mm) a \<noteq> None"
    using False covers_iff [of "mmap_list mm"] wf unfolding mm_wf_def by blast
  then have last: "region (mmap_list mm) (stop - 1) \<noteq> None"
    using lt by simp
  have eq: "mm_mprotect addr len fl mem1 mem2 (mm, k) =
    (case split_both addr stop mem1 mem2 mm of
       (Ok _, mm) \<Rightarrow> (Ok (), mm\<lparr>mmap_list := set_flags_loop addr stop fl (mmap_list mm)\<rparr>,
         mprotect_ptes (mm_pgdir k (mm_id mm)) addr stop fl k)
     | (r, mm) \<Rightarrow> (r, mm, k))"
    using False unfolding mm_mprotect_def split_both_def Let_def stop_def [symmetric]
    by (simp split: prod.split outcome.split)
  obtain r mm' where s: "split_both addr stop mem1 mem2 mm = (r, mm')"
    by fastforce
  note sp = split_both_spec [OF wf al lt fresh last s]
  show ?thesis
  proof (cases r)
    case (Ok u)
    then have sp': "region (mmap_list mm') = region (mmap_list mm)" "mm_wf mm'"
      "\<forall>v\<in>set (mmap_list mm'). vm_end v \<le> addr \<or> (addr \<le> vm_start v \<and> vm_end v \<le> stop) \<or> stop \<le> vm_start v"
      using sp by simp_all
    have "mm_wf (mm'\<lparr>mmap_list := set_flags_loop addr stop fl (mmap_list mm')\<rparr>) \<and>
        region (set_flags_loop addr stop fl (mmap_list mm')) =
          (\<lambda>a. if addr \<le> a \<and> a < stop then Some fl else region (mmap_list mm) a)"
      using set_flags_mm [OF sp'(2) lt sp'(3), of fl, unfolded sp'(1)] cov by blast
    then show ?thesis
      using Ok s ua cov by (simp add: eq)
  qed (use sp s in \<open>simp_all add: eq\<close>)
qed

section \<open>User memory access\<close>

text \<open>What \<open>user_mem_check\<close> is to decide for one address, from the areas alone.\<close>

definition access_ok :: "bool \<Rightarrow> vma_struct list \<Rightarrow> nat \<Rightarrow> bool" where
  "access_ok write vs a \<longleftrightarrow> (\<exists>v\<in>set vs. vma_contains a v \<and>
     vm_flags v AND (if write then VM_WRITE else VM_READ OR VM_EXEC) \<noteq> 0 \<and>
     (write \<and> vm_flags v AND VM_STACK \<noteq> 0 \<longrightarrow> vm_start v + PGSIZE \<le> a))"

lemma access_ok_in:
  "vmas_wf vs \<Longrightarrow> v \<in> set vs \<Longrightarrow> vma_contains a v \<Longrightarrow>
    access_ok write vs a \<longleftrightarrow> vm_flags v AND (if write then VM_WRITE else VM_READ OR VM_EXEC) \<noteq> 0 \<and>
      (write \<and> vm_flags v AND VM_STACK \<noteq> 0 \<longrightarrow> vm_start v + PGSIZE \<le> a)"
  unfolding access_ok_def using contains_unique by blast

lemma mem_check_loop_exact:
  assumes "mm_wf mm"
  shows "\<exists>c. mem_check_loop start stop write mm =
      (Ok (\<forall>a. start \<le> a \<and> a < stop \<longrightarrow> access_ok write (mmap_list mm) a), mm\<lparr>mmap_cache := c\<rparr>) \<and>
    mm_wf (mm\<lparr>mmap_cache := c\<rparr>)"
  using assms
proof (induction "stop - start" arbitrary: start mm rule: less_induct)
  case less
  have V: "vmas_wf (mmap_list mm)"
    using less.prems by (simp add: mm_wf_def)
  show ?case
  proof (cases "start < stop")
    case False
    then have all: "\<forall>a. start \<le> a \<and> a < stop \<longrightarrow> access_ok write (mmap_list mm) a"
      by auto
    show ?thesis
      using False less.prems by (intro exI [of _ "mmap_cache mm"]) (simp add: all mem_check_loop.simps)
  next
    case True
    obtain c where f: "find_vma mm start = (Ok (find (vma_contains start) (mmap_list mm)), mm\<lparr>mmap_cache := c\<rparr>)"
      and wf: "mm_wf (mm\<lparr>mmap_cache := c\<rparr>)"
      using find_vma_wf [OF less.prems] by blast
    show ?thesis
    proof (cases "find (vma_contains start) (mmap_list mm)")
      case None
      then have "\<not> access_ok write (mmap_list mm) start"
        by (auto simp: access_ok_def find_None_iff)
      then have no: "\<not> (\<forall>a. start \<le> a \<and> a < stop \<longrightarrow> access_ok write (mmap_list mm) a)"
        using True by blast
      show ?thesis
        using True f None wf unfolding no [simplified]
        by (intro exI [of _ c]) (simp add: mem_check_loop.simps [of start] no)
    next
      case (Some v)
      then have v: "v \<in> set (mmap_list mm)" "vma_contains start v"
        by (auto simp: find_Some_iff)
      have ok: "vma_ok v"
        using vmas_wfD [OF V v(1)] by simp
      then have a32: "add32 (vm_start v) PGSIZE = vm_start v + PGSIZE"
        by (auto simp: add32_def vma_ok_def)
      let ?F = "vm_flags v AND (if write then VM_WRITE else VM_READ OR VM_EXEC) \<noteq> 0"
      let ?S = "write \<and> vm_flags v AND VM_STACK \<noteq> 0 \<longrightarrow> vm_start v + PGSIZE \<le> start"
      note acc = access_ok_in [OF V v(1)]
      show ?thesis
      proof (cases "?F \<and> ?S")
        case False
        then have "\<not> access_ok write (mmap_list mm) start"
          using acc [OF v(2)] by auto
        then have no: "\<not> (\<forall>a. start \<le> a \<and> a < stop \<longrightarrow> access_ok write (mmap_list mm) a)"
          using True by blast
        show ?thesis
          using True f Some wf v False no a32
          by (intro exI [of _ c]) (auto simp: mem_check_loop.simps [of start] vma_contains_def)
      next
        case True': True
        have lt: "stop - vm_end v < stop - start"
          using True v by (auto simp: vma_contains_def)
        have here: "access_ok write (mmap_list mm) a" if "start \<le> a" "a < vm_end v" for a
          using acc [of a "write"] True' that v(2) by (auto simp: vma_contains_def)
        have all: "(\<forall>a. start \<le> a \<and> a < stop \<longrightarrow> access_ok write (mmap_list mm) a) \<longleftrightarrow>
            (\<forall>a. vm_end v \<le> a \<and> a < stop \<longrightarrow> access_ok write (mmap_list mm) a)"
          using here v(2) by (metis linorder_not_le order_trans less_imp_le vma_contains_def)
        obtain d where d: "mem_check_loop (vm_end v) stop write (mm\<lparr>mmap_cache := c\<rparr>) =
            (Ok (\<forall>a. vm_end v \<le> a \<and> a < stop \<longrightarrow> access_ok write (mmap_list mm) a),
             mm\<lparr>mmap_cache := d\<rparr>)" "mm_wf (mm\<lparr>mmap_cache := d\<rparr>)"
          using less.hyps [OF lt wf] by auto
        show ?thesis
          using True f Some v True' d a32 unfolding all
          by (intro exI [of _ d]) (auto simp: mem_check_loop.simps [of start] vma_contains_def)
      qed
    qed
  qed
qed

lemma user_mem_check_decides:
  assumes "mm_wf mm" and "addr < 2 ^ 32" and "len < 2 ^ 32"
  obtains c where "user_mem_check addr len write (Some mm) =
    (Ok (0 < len \<and> USERBASE \<le> addr \<and> addr + len \<le> USERTOP \<and>
        (\<forall>a. addr \<le> a \<and> a < addr + len \<longrightarrow> access_ok write (mmap_list mm) a)),
     Some (mm\<lparr>mmap_cache := c\<rparr>))" "mm_wf (mm\<lparr>mmap_cache := c\<rparr>)"
proof -
  have u: "USER_ACCESS addr (add32 addr len) \<longleftrightarrow>
      0 < len \<and> USERBASE \<le> addr \<and> addr + len \<le> USERTOP"
    using assms(2,3) by (auto simp: USER_ACCESS_def add32_def mod_if split: if_splits)
  show thesis
  proof (cases "USER_ACCESS addr (add32 addr len)")
    case True
    then have "add32 addr len = addr + len"
      using u by (simp add: add32_def)
    then show thesis
      using True u mem_check_loop_exact [OF assms(1), of addr "addr + len" "write"] that
      by (auto simp: user_mem_check_def simp del: mem_check_loop.simps)
  next
    case False
    then show thesis
      using u that [of "mmap_cache mm"] assms(1) by (auto simp: user_mem_check_def)
  qed
qed

text \<open>
  C29: \<open>user_mem_check\<close> is exact.  On a well-formed address space it says yes precisely if the range
  is non-empty, does not wrap around, lies in user space, and every single address of it is in an
  area that allows the access (for a write into a stack area, above the guard page of the area).
  Neither the area cache nor the order of the areas plays a role in the answer.
\<close>

theorem user_mem_check_exact:
  assumes "mm_wf mm" and "addr < 2 ^ 32" and "len < 2 ^ 32"
  shows "fst (user_mem_check addr len write (Some mm)) =
    Ok (0 < len \<and> USERBASE \<le> addr \<and> addr + len \<le> USERTOP \<and>
        (\<forall>a. addr \<le> a \<and> a < addr + len \<longrightarrow> access_ok write (mmap_list mm) a))"
  by (rule user_mem_check_decides [OF assms, of "write"]) simp

section \<open>Concrete address spaces\<close>

text \<open>A machine without swap and with empty page tables.\<close>

definition idle_kmem :: kmem where
  "idle_kmem = \<lparr> pages = (\<lambda>_. \<lparr> ref = 0, flags = 1, property = 0, pra_vaddr = 0, pra_mm = None \<rparr>),
     free_list = [], nr_free = 0, npage = 1024, pde = (\<lambda>_ _. None), pt = (\<lambda>_ _. 0),
     page_data = (\<lambda>_ _. 0), swap_init_ok = False, pra_list = [], slot_refs = (\<lambda>_. 0),
     slot_count = 0, disk = (\<lambda>_ _. 0), disk_errors = [], mm_pgdir = (\<lambda>_. 0),
     sm_priv = (\<lambda>_. False), mm_busy = (\<lambda>_. False), reclaim_mm = None \<rparr>"

text \<open>
  \<open>mm_brk\<close> does not know that \<open>mm_mprotect\<close> may have split the heap area.  A heap of three pages
  whose middle page is made read-only consists of three areas, of which \<open>brk_vma\<close> is the first;
  shrinking the heap by one page then moves the end of the first area over the second one: the
  areas overlap, the read-only page has become writable, and the page given back is still mapped.
\<close>

theorem mm_brk_shrink_after_mprotect:
  "let s0 = (new_mm 0, idle_kmem);
       (r1, s1) = mm_brk 0x203000 (Some 0) s0;
       (r2, s2) = mm_mprotect 0x201000 0x1000 VM_READ (Some 1) (Some 2) s1;
       (r3, s3) = mm_brk 0x202000 None s2
   in r1 = Ok () \<and> r2 = Ok () \<and> r3 = Ok () \<and>
      region (mmap_list (fst s2)) 0x201000 = Some VM_READ \<and>
      region (mmap_list (fst s3)) 0x201000 = Some (VM_READ OR VM_WRITE) \<and>
      region (mmap_list (fst s3)) 0x202000 = Some (VM_READ OR VM_WRITE) \<and>
      vmas_wf (mmap_list (fst s2)) \<and> \<not> vmas_wf (mmap_list (fst s3))"
proof -
  let ?s0 = "(new_mm 0, idle_kmem)"
  let ?v0 = "\<lparr> vm_id = 0, vm_start = 0x200000, vm_end = 0x203000, vm_flags = 3 \<rparr>"
  let ?m1 = "\<lparr> mm_id = 0, mmap_list = [?v0], mmap_cache = None, map_count = 1,
    start_brk = 0x200000, brk = 0x203000, brk_vma = Some 0 \<rparr>"
  have 1: "mm_brk 0x203000 (Some 0) ?s0 = (Ok (), ?m1, idle_kmem)"
    by (simp add: mm_brk_def new_mm_def mm_map_def add32_def ROUNDUP_def ROUNDDOWN_def Let_def
        USER_ACCESS_def vma_create_def insert_vma_struct_def)
  let ?m2 = "?m1\<lparr> mmap_list := [?v0\<lparr>vm_end := 0x201000\<rparr>,
      \<lparr> vm_id = 1, vm_start = 0x201000, vm_end = 0x202000, vm_flags = 1 \<rparr>,
      \<lparr> vm_id = 2, vm_start = 0x202000, vm_end = 0x203000, vm_flags = 3 \<rparr>], map_count := 3 \<rparr>"
  have 2: "mm_mprotect 0x201000 0x1000 VM_READ (Some 1) (Some 2) (?m1, idle_kmem) =
      (Ok (), ?m2, idle_kmem)"
    by (simp add: mm_mprotect_def add32_def ROUNDUP_def ROUNDDOWN_def Let_def USER_ACCESS_def
        split_left_def split_right_def vma_create_def mprotect_ptes.simps find_pte_def idle_kmem_def)
  have 3: "mm_brk 0x202000 None (?m2, idle_kmem) =
      (Ok (), ?m2\<lparr> mmap_list := [?v0\<lparr>vm_end := 0x202000\<rparr>,
        \<lparr> vm_id = 1, vm_start = 0x201000, vm_end = 0x202000, vm_flags = 1 \<rparr>,
        \<lparr> vm_id = 2, vm_start = 0x202000, vm_end = 0x203000, vm_flags = 3 \<rparr>],
        brk := 0x202000 \<rparr>, idle_kmem)"
    by (simp add: mm_brk_def add32_def ROUNDUP_def ROUNDDOWN_def Let_def upd_vma_def
        mm_unmap_pages_def unswappable_loop.simps unmap_range_def unmap_range_loop.simps
        USER_ACCESS_def idle_kmem_def)
  show ?thesis
    unfolding Let_def 1 2 3 prod.case
    by (simp add: vma_contains_def below_def vma_ok_def)
qed

definition heap_mm :: mm_struct where
  "heap_mm = \<lparr> mm_id = 0, mmap_list = [\<lparr> vm_id = 0, vm_start = 0x200000, vm_end = 0x203000, vm_flags = 3 \<rparr>],
     mmap_cache = None, map_count = 1, start_brk = 0x200000, brk = 0x203000, brk_vma = Some 0 \<rparr>"

lemma heap_mm_wf: "mm_wf heap_mm" "vm_id ` set (mmap_list heap_mm) = {0}"
  by (simp_all add: heap_mm_def mm_wf_def vma_ok_def)

theorem mm_map_refines_witness:
  "case mm_map heap_mm 0x300010 0x1000 VM_READ (Some 7) of
      (Ok v, mm') \<Rightarrow> mm_wf mm' \<and> vm_start v = 0x300000 \<and> vm_end v = 0x302000 \<and>
        region (mmap_list mm') 0x301FFF = Some VM_READ \<and> region (mmap_list mm') 0x200000 = Some 3
    | _ \<Rightarrow> False"
proof -
  have "\<exists>v mm'. mm_map heap_mm 0x300010 0x1000 VM_READ (Some 7) = (Ok v, mm')"
    by (simp add: mm_map_def heap_mm_def add32_def ROUNDUP_def ROUNDDOWN_def USER_ACCESS_def
        vma_create_def insert_vma_struct_def check_vma_overlap_def Let_def)
  then show ?thesis
    using mm_map_refines [of heap_mm "Some 7" "0x300010" "0x1000" VM_READ] heap_mm_wf
    by (auto simp: add32_def ROUNDUP_def ROUNDDOWN_def heap_mm_def vma_contains_def)
qed

theorem get_unmapped_area_first_fit_witness:
  "get_unmapped_area heap_mm 0x1800 = 0x203000 \<and>
   hole (mmap_list heap_mm) 0x2000 (USERTOP - USTACKSIZE) 0x203000"
proof -
  have e: "get_unmapped_area heap_mm 0x1800 = Suc 0x202FFF"
    by (simp add: get_unmapped_area_def heap_mm_def ROUNDUP_def ROUNDDOWN_def add32_def Let_def)
  then show ?thesis
    using get_unmapped_area_first_fit [OF heap_mm_wf(1), of "0x1800"]
    by (simp add: ROUNDUP_def ROUNDDOWN_def add32_def)
qed


theorem mm_mprotect_refines_witness:
  "case mm_mprotect 0x201000 0x1000 VM_READ (Some 1) (Some 2) (heap_mm, idle_kmem) of
      (Ok _, mm', k') \<Rightarrow> mm_wf mm' \<and> region (mmap_list mm') 0x201FFF = Some VM_READ \<and>
        region (mmap_list mm') 0x202000 = Some 3
    | _ \<Rightarrow> False"
proof -
  have "\<exists>mm' k'. mm_mprotect 0x201000 0x1000 VM_READ (Some 1) (Some 2) (heap_mm, idle_kmem) =
      (Ok (), mm', k')"
    by (simp add: mm_mprotect_def heap_mm_def add32_def ROUNDUP_def ROUNDDOWN_def Let_def
        USER_ACCESS_def split_left_def split_right_def vma_create_def)
  then show ?thesis
    using mm_mprotect_refines [of heap_mm "Some 1" "Some 2" "0x201000" "0x1000" VM_READ idle_kmem]
      heap_mm_wf
    by (auto simp: add32_def ROUNDUP_def ROUNDDOWN_def heap_mm_def vma_contains_def)
qed

theorem user_mem_check_exact_witness:
  "fst (user_mem_check 0x202FF0 0x20 True (Some heap_mm)) = Ok False \<and>
   fst (user_mem_check 0x202FF0 0x10 True (Some heap_mm)) = Ok True"
proof
  have "\<not> access_ok True (mmap_list heap_mm) 0x203000"
    by (simp add: access_ok_def heap_mm_def vma_contains_def)
  then have "\<not> (\<forall>a. 0x202FF0 \<le> a \<and> a < 0x202FF0 + 0x20 \<longrightarrow> access_ok True (mmap_list heap_mm) a)"
    by (auto intro!: exI [of _ "0x203000"])
  then show "fst (user_mem_check 0x202FF0 0x20 True (Some heap_mm)) = Ok False"
    using user_mem_check_exact [OF heap_mm_wf(1), of "0x202FF0" "0x20" True] by simp
  have "access_ok True (mmap_list heap_mm) a" if "0x202FF0 \<le> a \<and> a < 0x203000" for a
    using that by (auto simp: access_ok_def heap_mm_def vma_contains_def)
  then show "fst (user_mem_check 0x202FF0 0x10 True (Some heap_mm)) = Ok True"
    using user_mem_check_exact [OF heap_mm_wf(1), of "0x202FF0" "0x10" True] by simp
qed

end
