(* ===== verification/Fork.thy ===== *)
theory Fork
  imports Vma_Refinement
begin

text \<open>
  What \<open>fork\<close> does to memory: the duplication of page tables by \<open>copy_range\<close> (\<open>src/kern/mm/pmm.c\<close>) and
  of the areas by \<open>dup_mmap\<close> (\<open>src/kern/mm/vmm.c\<close>).  Swapping may be on; then there have to be as many
  free pages as page tables to create (\<open>fork_room\<close>), so that no allocation reclaims a page while it
  is being shared.  What happens otherwise is shown at the end (\<open>copy_range_reclaims_source\<close>).
\<close>

section \<open>Entries by linear address\<close>

definition pte_at :: "nat \<Rightarrow> nat \<Rightarrow> 'a kmem_scheme \<Rightarrow> u32" where
  "pte_at d la s = (case find_pte d la s of None \<Rightarrow> 0 | Some ptr \<Rightarrow> read_pte ptr s)"

text \<open>The number of the page of a linear address.\<close>

definition vpn :: "nat \<Rightarrow> nat" where
  "vpn la = la div PGSIZE mod 2 ^ 20"

text \<open>No page holds two page tables, no page table is on the free list.\<close>

definition tables_wf :: "'a kmem_scheme \<Rightarrow> bool" where
  "tables_wf s \<longleftrightarrow> pmm_wf s \<and>
     (\<forall>d i d' i' q. pde s d i = Some q \<and> pde s d' i' = Some q \<longrightarrow> d' = d \<and> i' = i) \<and>
     (\<forall>d i q. pde s d i = Some q \<longrightarrow> q \<notin> set (free_list s))"

text \<open>
  The page tables that duplicating \<open>src\<close> into \<open>dst\<close> may have to create, and that there is a free page
  for each of them if swapping is on.  Without swapping a missing page just makes the call fail.
\<close>

definition missing_tables :: "nat \<Rightarrow> nat \<Rightarrow> 'a kmem_scheme \<Rightarrow> nat set" where
  "missing_tables dst src s = {i. i < 1024 \<and> pde s src i \<noteq> None \<and> pde s dst i = None}"

definition fork_room :: "nat \<Rightarrow> nat \<Rightarrow> 'a kmem_scheme \<Rightarrow> bool" where
  "fork_room dst src s \<longleftrightarrow> (swap_init_ok s \<longrightarrow> card (missing_tables dst src s) \<le> nr_free s)"

definition fork_ready :: "nat \<Rightarrow> nat \<Rightarrow> 'a kmem_scheme \<Rightarrow> bool" where
  "fork_ready dst src s \<longleftrightarrow> tables_wf s \<and> fork_room dst src s \<and> dst \<noteq> src"

lemma vpn_split: "vpn a = PDX a * 1024 + PTX a" "PTX a = vpn a mod 1024" "PDX a = vpn a div 1024"
proof -
  have "a div 4194304 = a div 4096 div 1024"
    by (simp add: div_mult2_eq [symmetric])
  then show 1: "vpn a = PDX a * 1024 + PTX a"
    using mod_mult2_eq [of "a div 4096" 1024 1024] by (simp add: vpn_def PDX_def PTX_def)
  have "PTX a < 1024"
    by (simp add: PTX_def)
  then show "PTX a = vpn a mod 1024" "PDX a = vpn a div 1024"
    by (simp_all add: 1)
qed

lemma vpn_eq_iff: "vpn la = vpn la' \<longleftrightarrow> PDX la = PDX la' \<and> PTX la = PTX la'"
  by (metis vpn_split)

lemma tables_inj:
  "tables_wf s \<Longrightarrow> pde s d i = Some q \<Longrightarrow> pde s d' i' = Some q \<Longrightarrow> d' = d \<and> i' = i"
  unfolding tables_wf_def by blast

lemma find_pte_table:
  assumes "tables_wf s" "pde s d (PDX la) = Some q"
  shows "find_pte d' la' s = Some (q, PTX la) \<longleftrightarrow> d' = d \<and> vpn la' = vpn la"
  using assms(2) tables_inj [OF assms(1), of d "PDX la" q d' "PDX la'"]
  by (auto simp: find_pte_def vpn_eq_iff)

lemma pte_at_write:
  "pte_at d la (write_pte ptr v s) = (if find_pte d la s = Some ptr then v else pte_at d la s)"
  by (auto simp: pte_at_def find_pte_def write_pte_def read_pte_def prod_eq_iff split: option.splits)

lemma pte_at_cong: "pde s = pde t \<Longrightarrow> pt s = pt t \<Longrightarrow> pte_at d la s = pte_at d la t"
  by (simp add: pte_at_def find_pte_def read_pte_def split: option.split)

lemma tables_wf_cong:
  assumes "pde s = pde t" "free_list s = free_list t" "nr_free s = nr_free t" "prop_of s = prop_of t"
  shows "tables_wf s \<longleftrightarrow> tables_wf t"
  unfolding tables_wf_def pmm_wf_def using assms by simp

lemma fork_ready_cong:
  assumes "pde s = pde t" "free_list s = free_list t" "nr_free s = nr_free t" "prop_of s = prop_of t"
    "swap_init_ok s = swap_init_ok t"
  shows "fork_ready dst src s \<longleftrightarrow> fork_ready dst src t"
  unfolding fork_ready_def fork_room_def missing_tables_def using tables_wf_cong [OF assms(1-4)] assms by simp

text \<open>As long as a page is free, an allocation does not reclaim.\<close>

lemma alloc_page_no_reclaim:
  assumes wf: "pmm_wf s" and free: "swap_init_ok s \<longrightarrow> 0 < nr_free s"
  shows "alloc_page s = default_alloc_pages 1 s"
proof (cases "swap_init_ok s")
  case True
  then obtain q where "q \<in> set (free_list s)"
    using wf free by (cases "free_list s") (auto simp: pmm_wf_def)
  then have "\<exists>p t. default_alloc_pages 1 s = (Ok (Some p), t)"
    using alloc_spec [OF wf, of 1] by (auto split: prod.splits outcome.splits option.splits)
  then show ?thesis
    by (auto simp: alloc_pages_def alloc_pages_loop.simps)
next
  case False
  then show ?thesis
    using kmem_more [OF more_alloc [of 1 s]]
    by (cases "default_alloc_pages 1 s")
      (simp add: alloc_pages_def alloc_pages_loop.simps split: outcome.split option.split)
qed

lemma fork_room_missing:
  assumes "fork_room dst src s" "swap_init_ok s" "i \<in> missing_tables dst src s"
  shows "0 < nr_free s"
proof -
  have "finite (missing_tables dst src s)"
    by (simp add: missing_tables_def)
  then have "0 < card (missing_tables dst src s)"
    using assms(3) by (auto simp: card_gt_0_iff)
  then show ?thesis
    using assms(1,2) by (simp add: fork_room_def)
qed

text \<open>Creating a missing table uses up one page and leaves one table less to create.\<close>

lemma fork_room_step:
  assumes room: "fork_room dst src s" and i: "i \<in> missing_tables dst src s" and "dst \<noteq> src"
    and t: "swap_init_ok t = swap_init_ok s" "nr_free t = nr_free s - 1"
      "\<forall>d j. pde t d j = (if d = dst \<and> j = i then Some q else pde s d j)"
  shows "fork_room dst src t"
proof -
  have "missing_tables dst src t = missing_tables dst src s - {i}"
    using t(3) assms(3) by (auto simp: missing_tables_def)
  then have "card (missing_tables dst src t) = card (missing_tables dst src s) - 1"
    using i by simp
  then show ?thesis
    using room t(1,2) by (auto simp: fork_room_def)
qed

lemma ref_fold_reserve:
  "ref (pages (fold (\<lambda>pp. upd_page pp (ClearPageProperty \<circ> SetPageReserved)) ps s) p) = ref (pages s p)"
  by (induction ps arbitrary: s) (simp_all add: ClearPageProperty_def SetPageReserved_def)

lemma ref_default_alloc: "ref (pages (snd (default_alloc_pages n s)) p) = ref (pages s p)"
  by (simp add: default_alloc_pages_def Let_def ref_fold_reserve ClearPageProperty_def SetPageReserved_def
      split: list.split)

text \<open>A page table that is looked up with \<open>create\<close> changes no entry and no count of another page.\<close>

lemma get_pte_fresh:
  assumes ready: "fork_ready d src s" and g: "get_pte d la True s = (Ok (Some ptr), t)"
    and src: "pde s src (PDX la) \<noteq> None"
  obtains q where "ptr = (q, PTX la)" "pde t d (PDX la) = Some q" "fork_ready d src t"
    "\<forall>d' la'. pte_at d' la' t = pte_at d' la' s" "set (free_list t) \<subseteq> set (free_list s)"
    "\<forall>p. p \<notin> set (free_list s) \<longrightarrow> page_ref p t = page_ref p s" "mm_pgdir t = mm_pgdir s"
    "\<forall>d' i q. pde s d' i = Some q \<longrightarrow> pde t d' i = Some q"
proof (cases "pde s d (PDX la)")
  case (Some q)
  then have "t = s" "ptr = (q, PTX la)"
    using g by (simp_all add: get_pte_def)
  then show thesis
    using that Some ready by simp
next
  case None
  have wf: "tables_wf s" and room: "fork_room d src s" and ne: "d \<noteq> src"
    using ready by (simp_all add: fork_ready_def)
  have sw: "pmm_wf s"
    using wf by (simp add: tables_wf_def)
  have miss: "PDX la \<in> missing_tables d src s"
    using None src by (simp add: missing_tables_def PDX_def)
  have al1: "alloc_page s = default_alloc_pages 1 s"
    using fork_room_missing [OF room _ miss] by (intro alloc_page_no_reclaim [OF sw]) blast
  obtain q s1 where al: "default_alloc_pages 1 s = (Ok (Some q), s1)" and ptr: "ptr = (q, PTX la)"
    and t: "t = (set_page_ref q 1 s1)\<lparr>pt := (pt s1)(q := (\<lambda>_. 0)),
        pde := (pde s1)(d := (pde s1 d)(PDX la \<mapsto> q))\<rparr>"
    using g None al1
    by (auto simp: get_pte_def sbind_eq_Ok Let_def set_page_ref_def upd_page_def split: option.splits)
  have a: "pmm_wf s1" "set (free_list s1) = set (free_list s) - {q}" "q \<in> set (free_list s)"
    using alloc_spec [OF sw, of 1] al by auto
  note m = kmem_more [OF more_alloc [of 1 s], unfolded al snd_conv]
  have new: "pde s d' i \<noteq> Some q" for d' i
    using wf a(3) by (auto simp: tables_wf_def)
  have ft: "prop_of t = prop_of s1" "free_list t = free_list s1" "nr_free t = nr_free s1"
    by (auto simp: t set_page_ref_def fun_eq_iff)
  then have "pmm_wf t"
    using a(1) unfolding pmm_wf_def by simp
  moreover have pdet: "pde t d' i = (if d' = d \<and> i = PDX la then Some q else pde s d' i)" for d' i
    using m by (simp add: t)
  then have "b = a \<and> j = i" if "pde t a i = Some r" "pde t b j = Some r" for a b i j r
    using that new by (auto simp: pdet dest: tables_inj [OF wf] split: if_splits)
  moreover have "r \<notin> set (free_list t)" if "pde t a i = Some r" for a i r
    using that wf a(2) ft(2) by (auto simp: pdet tables_wf_def split: if_splits)
  ultimately have wft: "tables_wf t"
    unfolding tables_wf_def by blast
  have "nr_free t = nr_free s - 1"
    using \<open>pmm_wf t\<close> sw a(2,3) ft(2) unfolding pmm_wf_def
    by (metis card_Diff_singleton distinct_card strict_sorted_iff)
  moreover have "swap_init_ok t = swap_init_ok s"
    using m by (simp add: t set_page_ref_def upd_page_def)
  ultimately have "fork_room d src t"
    using pdet by (intro fork_room_step [where q = q, OF room miss ne]) simp_all
  then have 1: "fork_ready d src t"
    using wft ne by (simp add: fork_ready_def)
  have 2: "pte_at d' la' t = pte_at d' la' s" for d' la'
    using m new None
    by (auto simp: pte_at_def find_pte_def read_pte_def t set_page_ref_def upd_page_def split: option.splits)
  have 3: "page_ref p t = page_ref p s" if "p \<notin> set (free_list s)" for p
    using that a(3) ref_default_alloc [of 1 s p, unfolded al]
    by (auto simp: page_ref_def t set_page_ref_def)
  show thesis
    using that [OF ptr _ 1] 2 3 a(2) m None by (auto simp: t set_page_ref_def upd_page_def)
qed

section \<open>Copying one range\<close>

text \<open>The entry the parent keeps and the entry the child gets for the entry \<open>e\<close>.\<close>

definition cow_pte :: "u32 \<Rightarrow> u32" where
  "cow_pte e = (if (bit e 0 \<or> bit e 7) \<and> bit e 1 then (e AND NOT PTE_W) OR PTE_COW else e)"

definition child_pte :: "u32 \<Rightarrow> u32" where
  "child_pte e = (if bit e 0 then PTE_ADDR e OR (cow_pte e AND (PTE_USER OR PTE_COW)) else cow_pte e)"

text \<open>Does the entry hold a reference to the page?\<close>

definition refers :: "u32 \<Rightarrow> nat \<Rightarrow> bool" where
  "refers e p \<longleftrightarrow> (bit e 0 \<or> bit e 7) \<and> PPN (PTE_ADDR e) = p"

text \<open>
  \<open>forked dst src A s t\<close>: from \<open>s\<close> to \<open>t\<close> the pages with the numbers in \<open>A\<close> were duplicated, and
  nothing else happened to the entries and the reference counts of pages in use.
\<close>

definition forked :: "nat \<Rightarrow> nat \<Rightarrow> nat set \<Rightarrow> 'a kmem_scheme \<Rightarrow> 'a kmem_scheme \<Rightarrow> bool" where
  "forked dst src A s t \<longleftrightarrow> fork_ready dst src t \<and> set (free_list t) \<subseteq> set (free_list s) \<and> mm_pgdir t = mm_pgdir s \<and>
     (\<forall>d la. pte_at d la t =
        (if d = src \<and> vpn la \<in> A then cow_pte (pte_at src la s)
         else if d = dst \<and> vpn la \<in> A \<and> pte_at src la s \<noteq> 0 then child_pte (pte_at src la s)
         else pte_at d la s)) \<and>
     (\<forall>p. p \<notin> set (free_list s) \<longrightarrow>
        page_ref p t = page_ref p s + int (card {n \<in> A. refers (pte_at src (n * PGSIZE) s) p}))"

lemma cow_pte_0 [simp]: "cow_pte 0 = 0"
  by (simp add: cow_pte_def)

lemma refers_0 [simp]: "\<not> refers 0 p"
  by (simp add: refers_def)

lemma vpn_page: "n < 2 ^ 20 \<Longrightarrow> vpn (n * PGSIZE) = n"
  by (simp add: vpn_def)

lemma forked_none: "fork_ready dst src s \<Longrightarrow> \<forall>la. vpn la \<in> A \<longrightarrow> pte_at src la s = 0 \<Longrightarrow> A \<subseteq> {..<2 ^ 20} \<Longrightarrow> forked dst src A s s"
proof -
  assume a: "fork_ready dst src s" "\<forall>la. vpn la \<in> A \<longrightarrow> pte_at src la s = 0" "A \<subseteq> {..<2 ^ 20}"
  then have "pte_at src (n * PGSIZE) s = 0" if "n \<in> A" for n
    using that vpn_page [of n] by auto
  then have e: "{n \<in> A. refers (pte_at src (n * PGSIZE) s) p} = {}" for p
    by auto
  show ?thesis
    unfolding forked_def e card.empty using a by auto
qed

lemma card_filter_Un:
  assumes "finite A" "finite B" "A \<inter> B = {}" "\<forall>n\<in>B. P n = Q n"
  shows "card {n \<in> A \<union> B. P n} = card {n \<in> A. P n} + card {n \<in> B. Q n}"
proof -
  have "{n \<in> A \<union> B. P n} = {n \<in> A. P n} \<union> {n \<in> B. Q n}"
    using assms(4) by auto
  then show ?thesis
    using assms by (simp add: card_Un_disjoint disjoint_iff)
qed

lemma forkedD:
  "forked dst src A s t \<Longrightarrow> pte_at d la t =
     (if d = src \<and> vpn la \<in> A then cow_pte (pte_at src la s)
      else if d = dst \<and> vpn la \<in> A \<and> pte_at src la s \<noteq> 0 then child_pte (pte_at src la s)
      else pte_at d la s)"
  "forked dst src A s t \<Longrightarrow> p \<notin> set (free_list s) \<Longrightarrow>
     page_ref p t = page_ref p s + int (card {n \<in> A. refers (pte_at src (n * PGSIZE) s) p})"
  "forked dst src A s t \<Longrightarrow> fork_ready dst src t" "forked dst src A s t \<Longrightarrow> set (free_list t) \<subseteq> set (free_list s)"
  "forked dst src A s t \<Longrightarrow> mm_pgdir t = mm_pgdir s"
  by (simp_all add: forked_def)

lemma forked_trans:
  assumes 1: "forked dst src A s t" and 2: "forked dst src B t u" and disj: "A \<inter> B = {}"
    and AB: "A \<subseteq> {..<2 ^ 20}" "B \<subseteq> {..<2 ^ 20}" and ne: "dst \<noteq> src"
  shows "forked dst src (A \<union> B) s u"
proof -
  have B: "pte_at src la t = pte_at src la s" if "vpn la \<in> B" for la
    using forkedD(1) [OF 1, of src la] that disj ne by auto
  have Bn: "pte_at src (n * PGSIZE) t = pte_at src (n * PGSIZE) s" if "n \<in> B" for n
  proof -
    have "vpn (n * PGSIZE) = n"
      using that AB(2) by (intro vpn_page) blast
    then show ?thesis
      using B [of "n * PGSIZE"] that by simp
  qed
  have refs: "card {n \<in> A \<union> B. refers (pte_at src (n * PGSIZE) s) p} =
      card {n \<in> A. refers (pte_at src (n * PGSIZE) s) p} + card {n \<in> B. refers (pte_at src (n * PGSIZE) t) p}" for p
  proof (rule card_filter_Un)
    show "finite A" "finite B"
      using AB finite_lessThan by (blast intro: finite_subset)+
  qed (use disj Bn in simp_all)
  have "pte_at d la u = (if d = src \<and> vpn la \<in> A \<union> B then cow_pte (pte_at src la s)
         else if d = dst \<and> vpn la \<in> A \<union> B \<and> pte_at src la s \<noteq> 0 then child_pte (pte_at src la s)
         else pte_at d la s)" for d la
  proof (cases "vpn la \<in> B")
    case True
    then show ?thesis
      using forkedD(1) [OF 1, of d la] forkedD(1) [OF 2, of d la] B [OF True] disj by auto
  next
    case False
    then show ?thesis
      using forkedD(1) [OF 1, of d la] forkedD(1) [OF 2, of d la] by simp
  qed
  moreover have "page_ref p u = page_ref p s + int (card {n \<in> A \<union> B. refers (pte_at src (n * PGSIZE) s) p})"
    if "p \<notin> set (free_list s)" for p
  proof -
    have "p \<notin> set (free_list t)"
      using that forkedD(4) [OF 1] by blast
    then show ?thesis
      using forkedD(2) [OF 1 that] forkedD(2) [OF 2, of p] unfolding refs by simp
  qed
  ultimately show ?thesis
    using forkedD(3) [OF 2] subset_trans [OF forkedD(4) [OF 2] forkedD(4) [OF 1]]
      forkedD(5) [OF 1] forkedD(5) [OF 2]
    unfolding forked_def by simp
qed

lemma vpn_lt: "vpn la < 2 ^ 20"
  by (simp add: vpn_def)

lemma pte_at_vpn: "vpn la = vpn la' \<Longrightarrow> pte_at d la s = pte_at d la' s"
  by (simp add: pte_at_def find_pte_def vpn_eq_iff)

lemma write_pte_same: "write_pte ptr (read_pte ptr s) s = s"
  by (simp add: write_pte_def read_pte_def)

lemma forked_one:
  assumes g: "get_pte dst la True s = (Ok (Some nptr), s1)" and ready: "fork_ready dst src s"
    and ptr: "find_pte src la s = Some ptr" and e: "e = read_pte ptr s" "e \<noteq> 0"
    and u: "pde u = pde s1" "pt u = pt (write_pte ptr (cow_pte e) s1)" "free_list u = free_list s1"
      "nr_free u = nr_free s1" "prop_of u = prop_of s1" "swap_init_ok u = swap_init_ok s1" "mm_pgdir u = mm_pgdir s1"
    and r: "\<forall>p. page_ref p u = page_ref p s1 + (if refers e p then 1 else 0)"
  shows "forked dst src {vpn la} s (write_pte nptr (child_pte e) u)"
proof -
  obtain qs where qs: "pde s src (PDX la) = Some qs" "ptr = (qs, PTX la)"
    using ptr by (auto simp: find_pte_def)
  then have qs0: "pde s src (PDX la) \<noteq> None"
    by simp
  obtain qd where qd: "nptr = (qd, PTX la)" "pde s1 dst (PDX la) = Some qd" and ready1: "fork_ready dst src s1"
    and same: "\<forall>d' la'. pte_at d' la' s1 = pte_at d' la' s"
    and fl: "set (free_list s1) \<subseteq> set (free_list s)"
    and ref1: "\<forall>p. p \<notin> set (free_list s) \<longrightarrow> page_ref p s1 = page_ref p s"
    and dirs: "mm_pgdir s1 = mm_pgdir s"
    and keep: "\<forall>d' i q. pde s d' i = Some q \<longrightarrow> pde s1 d' i = Some q"
    by (rule get_pte_fresh [OF ready g qs0])
  have readyu: "fork_ready dst src u"
    using ready1 u by (subst fork_ready_cong) auto
  have wf1: "tables_wf s1" and wfu: "tables_wf u" and ne: "dst \<noteq> src"
    using ready1 readyu by (simp_all add: fork_ready_def)
  have src: "find_pte d la' s1 = Some ptr \<longleftrightarrow> d = src \<and> vpn la' = vpn la" for d la'
    using find_pte_table [OF wf1, of src la qs] qs keep by auto
  have dst: "find_pte d la' u = Some nptr \<longleftrightarrow> d = dst \<and> vpn la' = vpn la" for d la'
    using find_pte_table [OF wfu, of dst la qd] qd u(1) by auto
  have ents: "pte_at d la' (write_pte nptr (child_pte e) u) =
      (if d = dst \<and> vpn la' = vpn la then child_pte e
       else if d = src \<and> vpn la' = vpn la then cow_pte e else pte_at d la' s)" for d la'
  proof -
    have "pte_at d la' u = pte_at d la' (write_pte ptr (cow_pte e) s1)"
      by (rule pte_at_cong) (simp_all add: u(1,2) write_pte_def)
    then show ?thesis
      using same by (auto simp: pte_at_write dst src)
  qed
  have here: "pte_at src la' s = e" if "vpn la' = vpn la" for la'
    using pte_at_vpn [OF that, of src s] ptr e(1) by (simp add: pte_at_def [of src la])
  have "{n \<in> {vpn la}. refers (pte_at src (n * PGSIZE) s) p} = (if refers e p then {vpn la} else {})" for p
    using here [of "vpn la * PGSIZE"] vpn_page [OF vpn_lt, of la] by auto
  then have cnt: "int (card {n \<in> {vpn la}. refers (pte_at src (n * PGSIZE) s) p}) = (if refers e p then 1 else 0)" for p
    by simp
  have "fork_ready dst src (write_pte nptr (child_pte e) u)"
    using readyu by (subst fork_ready_cong [of _ u]) (simp_all add: write_pte_def)
  moreover have "free_list (write_pte nptr (child_pte e) u) = free_list s1"
    "mm_pgdir (write_pte nptr (child_pte e) u) = mm_pgdir s"
    "page_ref p (write_pte nptr (child_pte e) u) = page_ref p u" for p
    using u(3,7) dirs by (simp_all add: write_pte_def page_ref_def)
  ultimately show ?thesis
    using fl ref1 r ne e(2) here unfolding forked_def ents cnt by auto
qed

lemma copy_pte_forked:
  assumes wf: "fork_ready dst src s" and ptr: "find_pte src la s = Some ptr"
    and e0: "read_pte ptr s \<noteq> 0" and c: "copy_pte dst ptr la False s = (Ok (), t)"
  shows "forked dst src {vpn la} s t"
proof -
  define e where "e = read_pte ptr s"
  obtain nptr s1 where g: "get_pte dst la True s = (Ok (Some nptr), s1)"
    using c by (auto simp: copy_pte_def sbind_eq_Ok Let_def split: option.splits)
  note one = forked_one [OF g wf ptr e_def e0 [folded e_def]]
  have at1: "read_pte ptr s1 = e"
  proof -
    obtain q where q: "pde s src (PDX la) = Some q" "ptr = (q, PTX la)"
      using ptr by (auto simp: find_pte_def)
    obtain "pde s1 src (PDX la) = Some q" "pte_at src la s1 = pte_at src la s"
      by (rule get_pte_fresh [OF wf g]) (use q in auto)
    moreover from this(1) have "find_pte src la s1 = Some ptr"
      using q by (simp add: find_pte_def)
    ultimately show ?thesis
      using ptr by (simp add: pte_at_def e_def)
  qed
  have cow: "write_pte ptr (cow_pte e) s1 = (if (bit e 0 \<or> bit e 7) \<and> bit e 1
      then write_pte ptr ((e AND NOT PTE_W) OR PTE_COW) s1 else s1)"
    using write_pte_same [of ptr s1] at1 by (simp add: cow_pte_def)
  consider (mapped) page where "bit e 0 \<or> bit e 7" "PPN (PTE_ADDR e) = page"
      "t = write_pte nptr (child_pte e) (page_ref_inc page (write_pte ptr (cow_pte e) s1))"
    | (swap) r where "\<not> bit e 0" "\<not> bit e 7" "t = write_pte nptr (child_pte e) (s1\<lparr>slot_refs := r\<rparr>)"
  proof (cases "bit e 0 \<or> bit e 7")
    case True
    have same: "write_pte ptr e s1 = s1"
      using write_pte_same [of ptr s1] at1 by simp
    have pp: "page = PPN (PTE_ADDR e)" if "pa2page (PTE_ADDR e) s1 = Ok page" for page
      using that by (simp add: pa2page_def split: if_splits)
    have "t = write_pte nptr (child_pte e) (page_ref_inc (PPN (PTE_ADDR e)) (write_pte ptr (cow_pte e) s1))"
      using c g True pp
      by (auto simp: copy_pte_def e_def [symmetric] cow pte2page_def child_pte_def page2pa_PPN cow_pte_def same Let_def
          split: outcome.splits if_splits)
    then show thesis
      using mapped True by blast
  next
    case False
    then have "child_pte e = e"
      by (simp add: child_pte_def cow_pte_def)
    then show thesis
      using c g False swap
      by (auto simp: copy_pte_def e_def [symmetric] swap_duplicate_entry_def
          split: option.splits outcome.splits if_splits)
  qed
  then show ?thesis
  proof cases
    case mapped
    show ?thesis
      unfolding mapped(3)
      by (rule one) (use mapped in \<open>auto simp: write_pte_def page_ref_inc_def set_page_ref_def upd_page_def
          page_ref_def refers_def fun_eq_iff\<close>)
  next
    case swap
    show ?thesis
      unfolding swap(3)
      by (rule one) (use swap cow in \<open>auto simp: page_ref_def refers_def fun_eq_iff\<close>)
  qed
qed

lemma vpn_range:
  assumes "start mod PGSIZE = 0" "start < stop" "stop mod PGSIZE = 0" "stop \<le> USERTOP"
  shows "{start div PGSIZE..<stop div PGSIZE} = insert (vpn start) {(start + PGSIZE) div PGSIZE..<stop div PGSIZE}"
    and "vpn start = start div PGSIZE"
proof -
  have "stop div PGSIZE \<le> USERTOP div PGSIZE"
    using assms(4) by (rule div_le_mono)
  moreover have lt: "start div PGSIZE < stop div PGSIZE"
    using assms(1,2,3) by (metis div_le_mono div_mult_mod_eq le_antisym less_imp_le less_not_refl linorder_not_le)
  ultimately show v: "vpn start = start div PGSIZE"
    by (simp add: vpn_def)
  show "{start div PGSIZE..<stop div PGSIZE} = insert (vpn start) {(start + PGSIZE) div PGSIZE..<stop div PGSIZE}"
    using lt unfolding v by auto
qed

lemma copy_range_loop_forked:
  assumes "fork_ready dst src s" "dst \<noteq> src" "start mod PGSIZE = 0" "stop mod PGSIZE = 0" "start < stop" "stop \<le> USERTOP"
    and "copy_range_loop dst src start stop False s = (Ok (), t)"
  shows "forked dst src {start div PGSIZE..<stop div PGSIZE} s t"
  using assms
proof (induction "stop - start" arbitrary: start s rule: less_induct)
  case less
  have top: "stop div PGSIZE \<le> 2 ^ 20"
    using div_le_mono [OF less.prems(6), of PGSIZE] by simp
  show ?case
  proof (cases "find_pte src start s")
    case None
    define k where "k = start div PTSIZE"
    let ?next = "(start + PTSIZE) div PTSIZE * PTSIZE"
    have "(start + PTSIZE) div PTSIZE = Suc k"
      using div_add_self2 [of PTSIZE start] by (simp add: k_def)
    then have nx: "?next = Suc k * PTSIZE" "?next div PGSIZE = Suc k * 1024" "start < ?next"
      using div_mult_add_gt [of PTSIZE start] by (simp_all add: k_def)
    have "k < 1024"
      using less.prems(5,6) by (simp add: k_def div_less_iff_less_mult)
    have low: "k * 1024 \<le> start div PGSIZE"
      by (simp add: k_def less_eq_div_iff_mult_less_eq)
    have zero: "pte_at src la s = 0" if "vpn la \<in> {start div PGSIZE..<Suc k * 1024}" for la
    proof -
      have "k * 1024 \<le> vpn la" "vpn la < Suc k * 1024"
        using low that by auto
      then have "PDX la = k"
        unfolding vpn_split(3) [of la] by (intro div_nat_eqI) (simp_all add: mult.commute)
      moreover have "PDX start = k"
        using \<open>k < 1024\<close> by (simp add: PDX_def k_def)
      ultimately show ?thesis
        using None by (simp add: pte_at_def find_pte_def)
    qed
    show ?thesis
    proof (cases "?next < stop")
      case True
      have "copy_range_loop dst src ?next stop False s = (Ok (), t)"
        using less.prems(7) None True by (simp add: copy_range_loop.simps [of dst src start])
      then have "forked dst src {?next div PGSIZE..<stop div PGSIZE} s t"
        using less.hyps [of ?next s] less.prems True nx(3) by (simp add: nx(1) mod_mult_right_eq)
      moreover have "Suc k * 1024 \<le> 2 ^ 20"
        using \<open>k < 1024\<close> by simp
      then have skip: "{start div PGSIZE..<Suc k * 1024} \<subseteq> {..<2 ^ 20}"
        by auto
      moreover have "forked dst src {start div PGSIZE..<Suc k * 1024} s s"
        using zero by (intro forked_none [OF less.prems(1) _ skip]) blast
      ultimately have "forked dst src ({start div PGSIZE..<Suc k * 1024} \<union> {Suc k * 1024..<stop div PGSIZE}) s t"
        using top less.prems(2) by (intro forked_trans) (auto simp: nx(2))
      moreover have "start div PGSIZE \<le> Suc k * 1024" "Suc k * 1024 \<le> stop div PGSIZE"
        using nx True div_le_mono [of start ?next PGSIZE] div_le_mono [of ?next stop PGSIZE] by simp_all
      ultimately show ?thesis
        by (simp add: ivl_disj_un_two(3))
    next
      case False
      then have "t = s"
        using less.prems(7) None by (simp add: copy_range_loop.simps [of dst src start])
      moreover have "stop div PGSIZE \<le> Suc k * 1024"
        using False div_le_mono [of stop ?next PGSIZE] nx(2) by simp
      ultimately show ?thesis
        using zero top by (auto intro!: forked_none less.prems(1))
    qed
  next
    case (Some ptr)
    have lt: "vpn start = start div PGSIZE"
      and ins: "{start div PGSIZE..<stop div PGSIZE} = {vpn start} \<union> {(start + PGSIZE) div PGSIZE..<stop div PGSIZE}"
      using vpn_range [OF less.prems(3,5,4,6)] by auto
    obtain s1 where s1: "(if read_pte ptr s \<noteq> 0 then copy_pte dst ptr start False s else (Ok (), s)) = (Ok (), s1)"
      and rest: "(if start + PGSIZE < stop then copy_range_loop dst src (start + PGSIZE) stop False s1
        else (Ok (), s1)) = (Ok (), t)"
      using less.prems(7) Some by (auto simp: copy_range_loop.simps [of dst src start] sbind_eq_Ok)
    have one: "forked dst src {vpn start} s s1"
    proof (cases "read_pte ptr s = 0")
      case True
      then have "pte_at src la s = 0" if "vpn la = vpn start" for la
        using pte_at_vpn [OF that, of src s] Some by (simp add: pte_at_def [of src start])
      then show ?thesis
        using s1 True vpn_lt [of start] less.prems(1) by (auto intro!: forked_none)
    next
      case False
      then show ?thesis
        using s1 by (intro copy_pte_forked [OF less.prems(1) Some]) simp_all
    qed
    show ?thesis
    proof (cases "start + PGSIZE < stop")
      case True
      then have "forked dst src {(start + PGSIZE) div PGSIZE..<stop div PGSIZE} s1 t"
        using rest less.prems forkedD(3) [OF one] by (intro less.hyps) auto
      then show ?thesis
        unfolding ins using top vpn_lt [of start] less.prems(2) lt
        by (intro forked_trans [OF one]) auto
    next
      case False
      then have "stop div PGSIZE \<le> (start + PGSIZE) div PGSIZE"
        by (intro div_le_mono) simp
      then show ?thesis
        unfolding ins using rest one False by simp
    qed
  qed
qed

lemma child_pte_bits:
  "bit e 0 \<or> bit e 7 \<Longrightarrow> \<not> bit (cow_pte e) 1" "bit e 0 \<or> bit e 7 \<Longrightarrow> \<not> bit (child_pte e) 1"
  "refers e p \<Longrightarrow> refers (cow_pte e) p \<and> refers (child_pte e) p"
proof -
  have small: "\<not> bit w n" if "take_bit 12 w = w" "12 \<le> n" for w :: u32 and n
    using that by (metis bit_take_bit_iff not_less)
  have mask: "\<not> bit (0x200 :: u32) n" "\<not> bit (0x207 :: u32) n" "\<not> bit (2 :: u32) n" if "12 \<le> n" for n
    using that small [of "0x200" n] small [of "0x207" n] small [of 2 n] by simp_all
  have w: "bit (- 3 :: u32) n" if "12 \<le> n" "n < 32" for n
  proof -
    have "bit (NOT 2 :: u32) n"
      using that mask(3) [of n] unfolding bit_not_iff by simp
    then show ?thesis
      by simp
  qed
  have low: "bit (cow_pte e) n = bit e n" if "n = 0 \<or> n = 7 \<or> 12 \<le> n" for n
    using that mask [of n] w [of n] bit_imp_le_length [of e n]
    by (auto simp: cow_pte_def bit_or_iff bit_and_iff bit_not_iff)
  show "\<not> bit (cow_pte e) 1" "\<not> bit (child_pte e) 1" if "bit e 0 \<or> bit e 7"
    using that by (auto simp: cow_pte_def child_pte_def bit_simps bit_PTE_ADDR)
  assume r: "refers e p"
  have "PTE_ADDR (cow_pte e) = PTE_ADDR e" "PTE_ADDR (child_pte e) = PTE_ADDR e"
    by (auto intro!: bit_word_eqI simp: bit_PTE_ADDR child_pte_def bit_or_iff bit_and_iff low mask)
  moreover have "bit (child_pte e) 0 \<or> bit (child_pte e) 7"
    using r low by (auto simp: refers_def child_pte_def bit_simps bit_PTE_ADDR)
  ultimately show "refers (cow_pte e) p \<and> refers (child_pte e) p"
    using r low by (simp add: refers_def)
qed

lemma forked_shares:
  assumes f: "forked dst src A s t" and "dst \<noteq> src" and a: "vpn la \<in> A" "refers (pte_at src la s) p"
  shows "refers (pte_at src la t) p \<and> refers (pte_at dst la t) p \<and>
    \<not> bit (pte_at src la t) 1 \<and> \<not> bit (pte_at dst la t) 1"
proof -
  have "bit (pte_at src la s) 0 \<or> bit (pte_at src la s) 7" "pte_at src la s \<noteq> 0"
    using a(2) by (auto simp: refers_def)
  then show ?thesis
    using forkedD(1) [OF f, of src la] forkedD(1) [OF f, of dst la] assms(2) a child_pte_bits by simp
qed

text \<open>
  C1: Duplicating a range of page tables for a child.  Every entry of the parent that holds a page
  is afterwards shared and writable in neither process, so the first write of either of them faults
  and copies.  An entry that was writable is marked copy on write in both.  Swapped-out pages
  are shared through their slot.  The reference count of every page in use grows by exactly the
  number of new mappings of it.  No other entry of any process changes.  The call is assumed to
  succeed, and, when swapping is on, to find a free page for every page table that the parent has
  and the child lacks; otherwise the allocation of a table may reclaim the page being shared.
\<close>

theorem copy_range_cow:
  assumes "tables_wf s" and "dst \<noteq> src" and "swap_init_ok s \<longrightarrow> card (missing_tables dst src s) \<le> nr_free s"
    and "copy_range dst src start stop False s = (Ok (), t)"
  defines "A \<equiv> {start div PGSIZE..<stop div PGSIZE}"
  shows "tables_wf t \<and>
    (\<forall>d la. pte_at d la t =
       (if d = src \<and> vpn la \<in> A then cow_pte (pte_at src la s)
        else if d = dst \<and> vpn la \<in> A \<and> pte_at src la s \<noteq> 0 then child_pte (pte_at src la s)
        else pte_at d la s)) \<and>
    (\<forall>la p. vpn la \<in> A \<and> refers (pte_at src la s) p \<longrightarrow>
       refers (pte_at src la t) p \<and> refers (pte_at dst la t) p \<and>
       \<not> bit (pte_at src la t) 1 \<and> \<not> bit (pte_at dst la t) 1) \<and>
    (\<forall>p. p \<notin> set (free_list s) \<longrightarrow>
       page_ref p t = page_ref p s + int (card {n \<in> A. refers (pte_at src (n * PGSIZE) s) p}))"
proof -
  have "start mod PGSIZE = 0" "stop mod PGSIZE = 0" "start < stop" "stop \<le> USERTOP"
    "copy_range_loop dst src start stop False s = (Ok (), t)"
    using assms(4) by (auto simp: copy_range_def USER_ACCESS_def split: if_splits)
  moreover have "fork_ready dst src s"
    using assms(1-3) by (simp add: fork_ready_def fork_room_def)
  ultimately have f: "forked dst src A s t"
    using copy_range_loop_forked [OF _ assms(2)] by (simp add: A_def)
  have "tables_wf t"
    using forkedD(3) [OF f] by (simp add: fork_ready_def)
  then show ?thesis
    by (intro conjI allI impI forkedD(1,2) [OF f]) (use forked_shares [OF f assms(2)] in blast)+
qed

section \<open>Duplicating an address space\<close>

definition area_pages :: "vma_struct \<Rightarrow> nat set" where
  "area_pages v = {vm_start v div PGSIZE..<vm_end v div PGSIZE}"

lemma copy_range_forked:
  assumes "fork_ready dst src s" "dst \<noteq> src" "copy_range dst src start stop False s = (Ok (), t)"
  shows "forked dst src {start div PGSIZE..<stop div PGSIZE} s t"
  using copy_range_loop_forked [OF assms(1,2), of start stop t] assms(3)
  by (auto simp: copy_range_def USER_ACCESS_def split: if_splits)

lemma area_pages_disjoint:
  assumes "vma_ok v" "vma_ok w" "below v w"
  shows "area_pages v \<inter> area_pages w = {}"
  using assms div_le_mono [of "vm_end v" "vm_start w" PGSIZE] by (auto simp: area_pages_def below_def)

lemma area_pages_bound: "vma_ok v \<Longrightarrow> area_pages v \<subseteq> {..<2 ^ 20}"
  using div_le_mono [of "vm_end v" USERTOP PGSIZE] by (auto simp: area_pages_def vma_ok_def)

lemma find_SomeD: "find P xs = Some x \<Longrightarrow> x \<in> set xs \<and> P x"
  by (induction xs) (auto split: if_splits)

lemma dup_loop_forks:
  assumes "dup_loop vs parent (map Some ms) (mm, k) = (Ok (), mm', k')"
    and "mm_wf mm" "vmas_wf (rev vs)" "\<forall>v\<in>set vs. disjoint_from (mmap_list mm) (vm_start v) (vm_end v)"
    and "distinct ms" "set ms \<inter> vm_id ` set (mmap_list mm) = {}"
    and "fork_ready (mm_pgdir k (mm_id mm)) (mm_pgdir k (mm_id parent)) k"
      "mm_pgdir k (mm_id mm) \<noteq> mm_pgdir k (mm_id parent)"
  shows "mm_wf mm' \<and> start_brk mm' = start_brk mm \<and> brk mm' = brk mm \<and>
    region (mmap_list mm') = (\<lambda>a. case find (vma_contains a) vs of Some v \<Rightarrow> Some (vm_flags v)
                                | None \<Rightarrow> region (mmap_list mm) a) \<and>
    forked (mm_pgdir k (mm_id mm)) (mm_pgdir k (mm_id parent)) (\<Union>v\<in>set vs. area_pages v) k k'"
  using assms
proof (induction vs arbitrary: ms mm k)
  case Nil
  then show ?case
    using forked_none [of _ _ k "{}"] by (auto simp: fun_eq_iff)
next
  case (Cons v vs)
  obtain i ms' where ms: "ms = i # ms'"
    using Cons.prems(1) by (cases ms) (auto simp: vma_create_def)
  define nv where "nv = \<lparr> vm_id = i, vm_start = vm_start v, vm_end = vm_end v, vm_flags = vm_flags v \<rparr>"
  have V: "vma_ok v" "vmas_wf (rev vs)" "\<forall>w\<in>set vs. below w v"
    using Cons.prems(3) by (auto simp: vmas_wf_append)
  have nv: "vma_ok nv" "vm_id nv \<notin> vm_id ` set (mmap_list mm)" "disjoint_from (mmap_list mm) (vm_start nv) (vm_end nv)"
    using V(1) Cons.prems(4,6) ms by (auto simp: nv_def vma_ok_def)
  obtain L where L: "insert_vma_struct nv mm = (Ok (), mm\<lparr>mmap_list := L, map_count := map_count mm + 1\<rparr>)"
    "mm_wf (mm\<lparr>mmap_list := L, map_count := map_count mm + 1\<rparr>)" "set L = insert nv (set (mmap_list mm))"
    "region L = (\<lambda>a. if vma_contains a nv then Some (vm_flags nv) else region (mmap_list mm) a)"
    by (rule insert_vma_struct_wf [OF Cons.prems(2) nv])
  define mm1 where "mm1 = (let m = mm\<lparr>mmap_list := L, map_count := map_count mm + 1\<rparr> in
    if brk_vma parent = Some (vm_id v) then m\<lparr>brk_vma := Some (vm_id nv)\<rparr> else m)"
  have mm1: "mmap_list mm1 = L" "mm_id mm1 = mm_id mm" "start_brk mm1 = start_brk mm" "brk mm1 = brk mm" "mm_wf mm1"
    using L(2,3) by (auto simp: mm1_def mm_wf_def Let_def)
  obtain k1 where c: "copy_range (mm_pgdir k (mm_id mm)) (mm_pgdir k (mm_id parent)) (vm_start v) (vm_end v) False k = (Ok (), k1)"
    and rest: "dup_loop vs parent (map Some ms') (mm1, k1) = (Ok (), mm', k')"
    using Cons.prems(1) L(1) unfolding ms
    by (auto simp: vma_create_def nv_def [symmetric] mm1_def Let_def split: outcome.splits prod.splits if_splits)
  have f: "forked (mm_pgdir k (mm_id mm)) (mm_pgdir k (mm_id parent)) (area_pages v) k k1"
    unfolding area_pages_def by (rule copy_range_forked [OF Cons.prems(7,8) c])
  note pg = forkedD(5) [OF f]
  have "\<forall>w\<in>set vs. disjoint_from (mmap_list mm1) (vm_start w) (vm_end w)"
    using Cons.prems(4) V(3) L(3) by (auto simp: mm1 disjoint_from_def nv_def below_def)
  then have IH: "mm_wf mm' \<and> start_brk mm' = start_brk mm1 \<and> brk mm' = brk mm1 \<and>
    region (mmap_list mm') = (\<lambda>a. case find (vma_contains a) vs of Some v \<Rightarrow> Some (vm_flags v)
                                | None \<Rightarrow> region (mmap_list mm1) a) \<and>
    forked (mm_pgdir k1 (mm_id mm1)) (mm_pgdir k1 (mm_id parent)) (\<Union>v\<in>set vs. area_pages v) k1 k'"
    using Cons.IH [OF rest mm1(5) V(2)] Cons.prems(5,6,8) forkedD(3) [OF f] L(3) nv_def ms
    by (auto simp: mm1 pg)
  have ok: "\<forall>w\<in>set vs. vma_ok w"
    using V(2) by (simp add: vmas_wf_def)
  have "forked (mm_pgdir k (mm_id mm)) (mm_pgdir k (mm_id parent)) (area_pages v \<union> (\<Union>v\<in>set vs. area_pages v)) k k'"
    using IH area_pages_bound [OF V(1)] area_pages_bound ok V(1,3) Cons.prems(8) area_pages_disjoint
    by (intro forked_trans [OF f]) (fastforce simp: pg mm1)+
  moreover have "region (mmap_list mm') a = (case find (vma_contains a) (v # vs) of Some v \<Rightarrow> Some (vm_flags v)
      | None \<Rightarrow> region (mmap_list mm) a)" for a
  proof (cases "vma_contains a v")
    case True
    then have "find (vma_contains a) vs = None"
      using V(3) ok by (fastforce simp: find_None_iff vma_contains_def below_def)
    then show ?thesis
      using IH True by (simp add: mm1 L(4) nv_def vma_contains_def)
  next
    case False
    then show ?thesis
      using IH by (auto simp: mm1 L(4) nv_def vma_contains_def split: option.split)
  qed
  ultimately show ?case
    using IH by (simp add: mm1 fun_eq_iff)
qed

text \<open>
  C2: \<open>fork\<close> duplicates the address space.  When \<open>dup_mmap\<close> succeeds, the child has a well-formed
  address space in which every address has the protection it has in the parent, and the same heap
  bounds; and every page that the parent has mapped in one of its areas is mapped by both
  processes at the same address and writable in neither.  As for a single range, a machine that
  swaps has to have a free page for every page table of the parent that the child lacks.
\<close>

theorem dup_mmap_forks:
  assumes "mm_wf parent" and "distinct ms" and "tables_wf k"
    and "mm_pgdir k i \<noteq> mm_pgdir k (mm_id parent)"
    and "swap_init_ok k \<longrightarrow> card (missing_tables (mm_pgdir k i) (mm_pgdir k (mm_id parent)) k) \<le> nr_free k"
    and "dup_mmap parent (map Some ms) (new_mm i, k) = (Ok (), mm', k')"
  shows "mm_wf mm' \<and> region (mmap_list mm') = region (mmap_list parent) \<and>
    start_brk mm' = start_brk parent \<and> brk mm' = brk parent \<and> tables_wf k' \<and>
    (\<forall>v la p. v \<in> set (mmap_list parent) \<and> vpn la \<in> area_pages v \<and>
       refers (pte_at (mm_pgdir k (mm_id parent)) la k) p \<longrightarrow>
       refers (pte_at (mm_pgdir k (mm_id parent)) la k') p \<and> refers (pte_at (mm_pgdir k i) la k') p \<and>
       \<not> bit (pte_at (mm_pgdir k (mm_id parent)) la k') 1 \<and> \<not> bit (pte_at (mm_pgdir k i) la k') 1)"
proof -
  let ?mm = "(new_mm i)\<lparr>start_brk := start_brk parent, brk := brk parent, brk_vma := None\<rparr>"
  let ?A = "\<Union>v\<in>set (mmap_list parent). area_pages v"
  have V: "vmas_wf (mmap_list parent)"
    using assms(1) by (simp add: mm_wf_def)
  have "fork_ready (mm_pgdir k i) (mm_pgdir k (mm_id parent)) k"
    using assms(3-5) by (simp add: fork_ready_def fork_room_def)
  then have d: "mm_wf mm' \<and> start_brk mm' = start_brk parent \<and> brk mm' = brk parent \<and>
    region (mmap_list mm') = (\<lambda>a. map_option vm_flags (find (vma_contains a) (rev (mmap_list parent)))) \<and>
    forked (mm_pgdir k i) (mm_pgdir k (mm_id parent)) ?A k k'"
    using dup_loop_forks [of "rev (mmap_list parent)" parent ms ?mm k mm' k'] assms V
    by (auto simp: dup_mmap_def new_mm_def mm_wf_def disjoint_from_def map_option_case
        cong: option.case_cong)
  have "find (vma_contains a) (rev (mmap_list parent)) = find (vma_contains a) (mmap_list parent)" for a
  proof (cases "find (vma_contains a) (mmap_list parent)")
    case None
    then have "find (vma_contains a) (rev (mmap_list parent)) = None"
      by (auto simp: find_None_iff)
    then show ?thesis
      using None by simp
  next
    case (Some v)
    then have v: "v \<in> set (mmap_list parent)" "vma_contains a v"
      by (auto simp: find_Some_iff)
    then obtain w where w: "find (vma_contains a) (rev (mmap_list parent)) = Some w"
      by (cases "find (vma_contains a) (rev (mmap_list parent))") (auto simp: find_None_iff)
    then have "w \<in> set (mmap_list parent)" "vma_contains a w"
      by (auto dest: find_SomeD)
    then show ?thesis
      using contains_unique [OF V v(1) _ v(2)] w Some by auto
  qed
  then have "region (mmap_list mm') = region (mmap_list parent)"
    using d by (simp add: region_def fun_eq_iff)
  moreover have "refers (pte_at (mm_pgdir k (mm_id parent)) la k') p \<and> refers (pte_at (mm_pgdir k i) la k') p \<and>
       \<not> bit (pte_at (mm_pgdir k (mm_id parent)) la k') 1 \<and> \<not> bit (pte_at (mm_pgdir k i) la k') 1"
    if "v \<in> set (mmap_list parent)" "vpn la \<in> area_pages v" "refers (pte_at (mm_pgdir k (mm_id parent)) la k) p"
    for v la p
    using that d assms(4) by (intro forked_shares [of _ _ ?A k]) auto
  ultimately show ?thesis
    using d forkedD(3) unfolding fork_ready_def by blast
qed

text \<open>
  A parent (directory 0) whose page at \<open>0x200000\<close> is frame 7, mapped with the entry \<open>e\<close>, and an
  empty child (directory 1) that has a page table already.
\<close>

definition two_dirs :: "u32 \<Rightarrow> kmem" where
  "two_dirs e = idle_kmem\<lparr>
     pages := (pages idle_kmem)(7 := (pages idle_kmem 7)\<lparr>ref := 1\<rparr>),
     pde := (\<lambda>d i. if i = 0 \<and> d = 0 then Some 5 else if i = 0 \<and> d = 1 then Some 6 else None),
     pt := (\<lambda>q i. if q = 5 \<and> i = 512 then e else 0), mm_pgdir := (\<lambda>m. m)\<rparr>"

lemma two_dirs_copy:
  "copy_range 1 0 0x200000 0x201000 False (two_dirs 0x7005) =
     (Ok (), write_pte (6, 512) 0x7005 (page_ref_inc 7 (two_dirs 0x7005)))"
  by (simp_all add: copy_range_def USER_ACCESS_def copy_range_loop.simps find_pte_def PDX_def PTX_def
      copy_pte_def read_pte_def get_pte_def two_dirs_def pte2page_def pa2page_def PTE_ADDR_def PPN_def
      page2pa_def idle_kmem_def)

lemma two_dirs_protect:
  "mprotect_ptes 1 0x200000 0x201000 (VM_READ OR VM_WRITE)
       (write_pte (6, 512) 0x7005 (page_ref_inc 7 (two_dirs 0x7005))) =
     write_pte (6, 512) 0x7007 (page_ref_inc 7 (two_dirs 0x7005))"
  by (simp add: mprotect_ptes.simps find_pte_def PDX_def PTX_def two_dirs_def read_pte_def write_pte_def
      page_ref_inc_def set_page_ref_def upd_page_def mprotect_pte_def bit_numeral_rec)

text \<open>
  The same parent on a machine that swaps, with one free page and a child without a page table.
\<close>

definition swap_dirs :: "u32 \<Rightarrow> kmem" where
  "swap_dirs e = (two_dirs e)\<lparr>
     pages := (pages (two_dirs e))(6 := (pages idle_kmem 6)\<lparr>property := 1\<rparr>),
     free_list := [6], nr_free := 1, swap_init_ok := True,
     pde := (\<lambda>d i. if i = 0 \<and> d = 0 then Some 5 else None)\<rparr>"

lemma swap_dirs_wf:
  "tables_wf (swap_dirs e)" "mm_pgdir (swap_dirs e) m = m" "card (missing_tables 1 0 (swap_dirs e)) \<le> nr_free (swap_dirs e)"
proof -
  have "missing_tables 1 0 (swap_dirs e) = {0}"
    by (auto simp: missing_tables_def swap_dirs_def split: if_splits)
  then show "card (missing_tables 1 0 (swap_dirs e)) \<le> nr_free (swap_dirs e)"
    by (simp add: swap_dirs_def)
qed (auto simp: tables_wf_def swap_dirs_def two_dirs_def idle_kmem_def pmm_wf_def blocks_def merged_def
    split: if_splits)

lemma swap_dirs_entry: "refers (pte_at 0 0x200000 (swap_dirs 0x7007)) 7"
proof -
  have "pte_at 0 0x200000 (swap_dirs 0x7007) = 0x7007"
    by (simp add: pte_at_def find_pte_def PDX_def PTX_def swap_dirs_def two_dirs_def read_pte_def)
  then show ?thesis
    by (simp add: refers_def PTE_ADDR_def PPN_def)
qed

lemmas swap_dirs_eval = copy_range_def USER_ACCESS_def copy_range_loop.simps find_pte_def PDX_def PTX_def
  copy_pte_def read_pte_def get_pte_def swap_dirs_def two_dirs_def pte2page_def pa2page_def PTE_ADDR_def PPN_def
  page2pa_def idle_kmem_def write_pte_def page_ref_inc_def set_page_ref_def upd_page_def alloc_pages_def
  alloc_pages_loop.simps default_alloc_pages_def ClearPageProperty_def SetPageReserved_def

lemma swap_dirs_copy:
  "\<exists>t. copy_range 1 0 0x200000 0x201000 False (swap_dirs 0x7007) = (Ok (), t)"
  "\<exists>t. copy_range 1 0 0x200000 0x203000 False (swap_dirs 0x7007) = (Ok (), t)"
  by (simp_all add: swap_dirs_eval)

theorem copy_range_cow_witness:
  "\<exists>t. swap_init_ok (swap_dirs 0x7007) \<and> copy_range 1 0 0x200000 0x201000 False (swap_dirs 0x7007) = (Ok (), t) \<and>
     refers (pte_at 0 0x200000 t) 7 \<and> refers (pte_at 1 0x200000 t) 7 \<and>
     \<not> bit (pte_at 0 0x200000 t) 1 \<and> \<not> bit (pte_at 1 0x200000 t) 1"
proof -
  obtain t where t: "copy_range 1 0 0x200000 0x201000 False (swap_dirs 0x7007) = (Ok (), t)"
    using swap_dirs_copy by blast
  have "swap_init_ok (swap_dirs 0x7007)" "vpn 0x200000 \<in> {0x200000 div PGSIZE..<0x201000 div PGSIZE}"
    by (simp_all add: vpn_def swap_dirs_def)
  then show ?thesis
    using copy_range_cow [OF swap_dirs_wf(1) zero_neq_one [symmetric] impI [OF swap_dirs_wf(3)] t]
      swap_dirs_entry t by blast
qed

text \<open>
  A read-only page that \<open>fork\<close> has shared is not marked copy on write.  When one of the two
  processes then makes it writable with \<open>mprotect\<close>, its entry becomes writable although the page is
  mapped twice, so its writes are seen by the other process.
\<close>

lemma mprotect_after_fork_shares_writable:
  "let (r, k) = copy_range 1 0 0x200000 0x201000 False (two_dirs 0x7005);
       k' = mprotect_ptes 1 0x200000 0x201000 (VM_READ OR VM_WRITE) k
   in r = Ok () \<and> refers (pte_at 0 0x200000 k') 7 \<and> refers (pte_at 1 0x200000 k') 7 \<and>
      page_ref 7 k' = 2 \<and> bit (pte_at 1 0x200000 k') 1 \<and> \<not> bit (pte_at 1 0x200000 k') 9"
proof -
  let ?k = "write_pte (6, 512) 0x7007 (page_ref_inc 7 (two_dirs 0x7005))"
  have "pte_at 0 0x200000 ?k = 0x7005" "pte_at 1 0x200000 ?k = 0x7007" "page_ref 7 ?k = 2"
    by (simp_all add: pte_at_def find_pte_def PDX_def PTX_def two_dirs_def read_pte_def write_pte_def
        page_ref_inc_def set_page_ref_def upd_page_def page_ref_def)
  then show ?thesis
    unfolding two_dirs_copy Let_def prod.case two_dirs_protect
    by (simp add: refers_def PTE_ADDR_def PPN_def bit_numeral_rec)
qed

lemma heap_mm_dup:
  "\<exists>mm' k'. dup_mmap heap_mm [Some 8] (new_mm 1, swap_dirs 0x7007) = (Ok (), mm', k')"
  using swap_dirs_copy(2)
  by (auto simp: swap_dirs_wf dup_mmap_def heap_mm_def new_mm_def vma_create_def insert_vma_struct_def)

theorem dup_mmap_forks_witness:
  "\<exists>mm' k'. dup_mmap heap_mm [Some 8] (new_mm 1, swap_dirs 0x7007) = (Ok (), mm', k') \<and>
     region (mmap_list mm') = region (mmap_list heap_mm) \<and> refers (pte_at 1 0x200000 k') 7"
proof -
  obtain mm' k' where d: "dup_mmap heap_mm (map Some [8]) (new_mm 1, swap_dirs 0x7007) = (Ok (), mm', k')"
    using heap_mm_dup by auto
  have mm: "mm_id heap_mm = 0" "hd (mmap_list heap_mm) \<in> set (mmap_list heap_mm)"
    "vpn 0x200000 \<in> area_pages (hd (mmap_list heap_mm))"
    by (simp_all add: heap_mm_def vpn_def area_pages_def)
  then show ?thesis
    using dup_mmap_forks [OF heap_mm_wf(1) _ swap_dirs_wf(1) _ _ d] swap_dirs_wf(3) swap_dirs_entry d
    unfolding swap_dirs_wf(2) by fastforce
qed

text \<open>
  Why the free pages are needed.  \<open>copy_range\<close> reads the entry of the parent before \<open>get_pte\<close> creates a
  page table for the child, and uses the value afterwards.  Without a free page the allocation may
  swap out that very page: here frame 7 becomes the page table of the child, and both processes end
  up with a user mapping of it, while the entry that named the swap slot has been overwritten.
\<close>

definition full_dirs :: kmem where
  "full_dirs = (two_dirs 0x7007)\<lparr>
     pages := (pages idle_kmem)(7 := (pages idle_kmem 7)\<lparr>ref := 1, pra_mm := Some 0, pra_vaddr := 0x200000\<rparr>),
     swap_init_ok := True, pra_list := [7], slot_count := 2, sm_priv := (\<lambda>_. True), reclaim_mm := Some 0,
     pde := (\<lambda>d i. if i = 0 \<and> d = 0 then Some 5 else None)\<rparr>"

definition reclaimed_dirs :: kmem where
  "reclaimed_dirs = full_dirs\<lparr>
     pages := (pages idle_kmem)(7 := \<lparr> ref = 0, flags = 2, property = 1, pra_vaddr = 0, pra_mm = None \<rparr>),
     free_list := [7], nr_free := 1, pra_list := [], slot_refs := (\<lambda>_. 0)(1 := 1),
     pt := (\<lambda>q i. if q = 5 \<and> i = 512 then 0x100 else 0), disk := (\<lambda>_ _. 0)\<rparr>"

lemma full_dirs_swap_out: "swap_out_loop (Suc (Suc n)) 0 1 0 False full_dirs = (Ok 1, reclaimed_dirs)"
proof -
  have "fifo_swap_out_victim 0 False full_dirs = (Ok 7, full_dirs\<lparr>pra_list := []\<rparr>)"
    by (simp add: full_dirs_def fifo_swap_out_victim_def)
  moreover have "swap_alloc_entry (full_dirs\<lparr>pra_list := []\<rparr>) =
      (Ok 0x100, full_dirs\<lparr>pra_list := [], slot_refs := (\<lambda>_. 0)(1 := 1)\<rparr>)"
    by (simp add: swap_alloc_entry_def full_dirs_def two_dirs_def idle_kmem_def upt_rec)
  moreover have "swapfs_write 0x100 7 (full_dirs\<lparr>pra_list := [], slot_refs := (\<lambda>_. 0)(1 := 1)\<rparr>) =
      (Ok (), full_dirs\<lparr>pra_list := [], slot_refs := (\<lambda>_. 0)(1 := 1), disk := (\<lambda>_ _. 0)\<rparr>)"
    by (simp add: swapfs_write_def swap_offset_def disk_result_def full_dirs_def two_dirs_def idle_kmem_def fun_eq_iff)
  moreover have "put_page 7 (write_pte (5, 512) 0x100 (full_dirs\<lparr>pra_list := [], slot_refs := (\<lambda>_. 0)(1 := 1), disk := (\<lambda>_ _. 0)\<rparr>)) =
      (Ok (), reclaimed_dirs)"
    by (simp add: put_page_def page_ref_dec_def set_page_ref_def page_ref_def free_pages_def fifo_untrack_page_def
        default_free_pages_def write_pte_def full_dirs_def reclaimed_dirs_def two_dirs_def idle_kmem_def upd_page_def
        SetPageProperty_def PageReserved_def fun_eq_iff)
  ultimately show ?thesis
    by (simp add: page_ref_def find_pte_def read_pte_def pte2page_def pa2page_def PTE_ADDR_def PPN_def PDX_def PTX_def
      full_dirs_def two_dirs_def idle_kmem_def)
qed

lemma copy_range_reclaims_source:
  "let (r, t) = copy_range 1 0 0x200000 0x201000 False full_dirs
   in r = Ok () \<and> pde t 1 0 = Some 7 \<and> refers (pte_at 0 0x200000 t) 7 \<and> refers (pte_at 1 0x200000 t) 7"
proof -
  have sw: "swap_out 0 1 False full_dirs = (Ok 1, reclaimed_dirs)"
    using full_dirs_swap_out [of 62] by (simp add: swap_out_def)
  obtain k where "default_alloc_pages 1 reclaimed_dirs = (Ok (Some 7), k)" "pmm.more k = pmm.more reclaimed_dirs"
    using more_alloc [of 1 reclaimed_dirs]
    by (simp add: default_alloc_pages_def reclaimed_dirs_def Let_def)
  moreover have "alloc_page full_dirs = alloc_pages_loop 7 1 reclaimed_dirs"
    using sw by (simp add: alloc_pages_def alloc_pages_loop.simps [of 8] default_alloc_pages_def full_dirs_def
        two_dirs_def idle_kmem_def)
  ultimately have "alloc_page full_dirs = (Ok (Some 7), k)"
    by (simp add: alloc_pages_loop.simps)
  then show ?thesis
    using kmem_more [OF \<open>pmm.more k = pmm.more reclaimed_dirs\<close>]
    by (simp add: swap_dirs_eval full_dirs_def reclaimed_dirs_def pte_at_def refers_def)
qed
end
