(* ===== verification/Bitmap.thy ===== *)
theory Bitmap
  imports Prelude
begin

text \<open>
  The bitmap of \<open>src/kern/fs/sfs/bitmap.c\<close>: an array of 32-bit words in which a set bit is a free item.
  The locale \<open>bit_allocator\<close> is what the file system relies on: the set of free items, allocation of
  the least of them and release.
\<close>

section \<open>Definitions\<close>

abbreviation WORD_BITS :: nat where "WORD_BITS \<equiv> 32"

record bitmap =
  nbits :: nat
  nwords :: nat
  bwords :: "u32 list"

text \<open>The results of the two calls of \<open>kmalloc\<close> are arguments; no memory is the result \<open>None\<close>.\<close>

definition bitmap_create :: "bool \<Rightarrow> bool \<Rightarrow> nat \<Rightarrow> bitmap option outcome" where
  "bitmap_create k1 k2 n = (
     if n = 0 \<or> n + WORD_BITS \<ge> 2 ^ 32 then Fault
     else if \<not> k1 \<or> \<not> k2 then Ok None
     else
       let nw = (n + WORD_BITS - 1) div WORD_BITS;
           ws = replicate nw 0xFFFFFFFF;
           ix = nw - 1; overbits = n - ix * WORD_BITS
       in if n \<noteq> nw * WORD_BITS
          then if n div WORD_BITS = ix \<and> overbits > 0 \<and> overbits < WORD_BITS
               then Ok (Some \<lparr>nbits = n, nwords = nw,
                 bwords = ws[ix := fold (\<lambda>k w. w XOR push_bit k 1) [overbits..<WORD_BITS] (ws ! ix)]\<rparr>)
               else Fault
          else Ok (Some \<lparr>nbits = n, nwords = nw, bwords = ws\<rparr>))"

fun alloc_bits :: "nat list \<Rightarrow> bitmap \<Rightarrow> nat outcome \<times> bitmap" where
  "alloc_bits [] b = (Err E_NO_MEM, b)"
| "alloc_bits (ix # ixs) b = (
     let w = bwords b ! ix in
     if w \<noteq> 0
     then case find (\<lambda>k. w AND push_bit k 1 \<noteq> 0) [0..<WORD_BITS] of
            Some k \<Rightarrow> (Ok (ix * WORD_BITS + k), b\<lparr>bwords := (bwords b)[ix := w XOR push_bit k 1]\<rparr>)
          | None \<Rightarrow> (Fault, b)
     else alloc_bits ixs b)"

definition bitmap_alloc :: "bitmap \<Rightarrow> nat outcome \<times> bitmap" where
  "bitmap_alloc b = alloc_bits [0..<nwords b] b"

definition bitmap_translate :: "nat \<Rightarrow> bitmap \<Rightarrow> (nat \<times> u32) outcome" where
  "bitmap_translate i b = (if i < nbits b then Ok (i div WORD_BITS, push_bit (i mod WORD_BITS) 1) else Fault)"

definition bitmap_test :: "nat \<Rightarrow> bitmap \<Rightarrow> bool outcome" where
  "bitmap_test i b = obind (bitmap_translate i b) (\<lambda>(ix, m). Ok (bwords b ! ix AND m \<noteq> 0))"

definition bitmap_free :: "nat \<Rightarrow> bitmap \<Rightarrow> unit outcome \<times> bitmap" where
  "bitmap_free i b = (
     case bitmap_translate i b of
       Ok (ix, m) \<Rightarrow>
         if bwords b ! ix AND m = 0
         then (Ok (), b\<lparr>bwords := (bwords b)[ix := bwords b ! ix OR m]\<rparr>) else (Fault, b)
     | _ \<Rightarrow> (Fault, b))"

section \<open>The interface\<close>

text \<open>
  An allocator of numbered items: \<open>avail\<close> is the set of free items.  \<open>alloc\<close> takes the least one and
  fails only if there is none; \<open>release\<close> gives back an item that is not free.
\<close>

locale bit_allocator =
  fixes ok :: "'b \<Rightarrow> bool" and items :: "'b \<Rightarrow> nat" and avail :: "'b \<Rightarrow> nat set"
    and alloc :: "'b \<Rightarrow> nat outcome \<times> 'b" and release :: "nat \<Rightarrow> 'b \<Rightarrow> unit outcome \<times> 'b"
  assumes avail_items: "ok b \<Longrightarrow> avail b \<subseteq> {..<items b}"
    and alloc_none: "ok b \<Longrightarrow> avail b = {} \<Longrightarrow> alloc b = (Err E_NO_MEM, b)"
    and alloc_some: "ok b \<Longrightarrow> avail b \<noteq> {} \<Longrightarrow>
      \<exists>c. alloc b = (Ok (Min (avail b)), c) \<and> ok c \<and> items c = items b \<and> avail c = avail b - {Min (avail b)}"
    and release_ok: "ok b \<Longrightarrow> i < items b \<Longrightarrow> i \<notin> avail b \<Longrightarrow>
      \<exists>c. release i b = (Ok (), c) \<and> ok c \<and> items c = items b \<and> avail c = insert i (avail b)"
    and release_fault: "ok b \<Longrightarrow> \<not> (i < items b \<and> i \<notin> avail b) \<Longrightarrow> release i b = (Fault, b)"
begin

lemma finite_avail: "ok b \<Longrightarrow> finite (avail b)"
  using avail_items finite_subset by blast

lemma alloc_cases:
  assumes "ok b" and "alloc b = (r, c)"
  shows "ok c \<and> items c = items b \<and>
    (case r of Ok i \<Rightarrow> i \<in> avail b \<and> avail c = avail b - {i} \<and> (\<forall>j\<in>avail b. i \<le> j)
     | Err e \<Rightarrow> e = E_NO_MEM \<and> avail b = {} \<and> c = b | Fault \<Rightarrow> False)"
proof (cases "avail b = {}")
  case True
  then show ?thesis
    using assms alloc_none by auto
next
  case False
  then show ?thesis
    using assms alloc_some [OF assms(1) False] finite_avail [OF assms(1)] by auto
qed

lemma card_alloc: "ok b \<Longrightarrow> alloc b = (Ok i, c) \<Longrightarrow> Suc (card (avail c)) = card (avail b)"
  using alloc_cases [of b "Ok i" c] finite_avail [of b] card_Suc_Diff1 [of "avail b" i] by simp

lemma card_release:
  "ok b \<Longrightarrow> i < items b \<Longrightarrow> i \<notin> avail b \<Longrightarrow> release i b = (r, c) \<Longrightarrow> card (avail c) = Suc (card (avail b))"
  using release_ok [of b i] finite_avail [of b] by auto

text \<open>Giving back what was just taken restores the set of free items.\<close>

lemma alloc_release:
  assumes "ok b" and "alloc b = (Ok i, c)"
  shows "\<exists>d. release i c = (Ok (), d) \<and> ok d \<and> avail d = avail b"
proof -
  have a: "ok c" "items c = items b" "i \<in> avail b" "avail c = avail b - {i}"
    using alloc_cases [OF assms] by simp_all
  then have "i < items c" "i \<notin> avail c"
    using avail_items [OF assms(1)] by auto
  then obtain d where "release i c = (Ok (), d)" "ok d" "avail d = insert i (avail c)"
    using release_ok [OF a(1)] by blast
  then show ?thesis
    using a by (intro exI [of _ d]) auto
qed

end

section \<open>The bitmap implements the interface\<close>

definition free_bits :: "bitmap \<Rightarrow> nat set" where
  "free_bits b = {i. i < nbits b \<and> bit (bwords b ! (i div WORD_BITS)) (i mod WORD_BITS)}"

definition bitmap_wf :: "bitmap \<Rightarrow> bool" where
  "bitmap_wf b \<longleftrightarrow> length (bwords b) = nwords b \<and> nwords b = (nbits b + WORD_BITS - 1) div WORD_BITS \<and>
     (\<forall>ix < nwords b. \<forall>k < WORD_BITS. bit (bwords b ! ix) k \<longrightarrow> ix * WORD_BITS + k < nbits b)"

lemma find_bit:
  assumes "(w :: u32) \<noteq> 0"
  obtains k where "find (\<lambda>k. w AND push_bit k 1 \<noteq> 0) [0..<32] = Some k" "k < 32" "bit w k" "\<forall>j<k. \<not> bit w j"
proof -
  obtain n where n: "bit w n"
    using assms bit_eqI [of w 0] by auto
  then have "n < 32"
    using bit_imp_le_length [OF n] by simp
  then have "find (\<lambda>k. w AND push_bit k 1 \<noteq> 0) [0..<32] \<noteq> None"
    using n unfolding and_bit find_None_iff by auto
  then obtain k where k: "find (\<lambda>k. w AND push_bit k 1 \<noteq> 0) [0..<32] = Some k"
    by blast
  then obtain i where i: "i < 32" "k = [0..<32] ! i" "k < 32 \<and> bit w k" "\<forall>j<i. \<not> ([0..<32] ! j < 32 \<and> bit w ([0..<32] ! j))"
    unfolding and_bit find_Some_iff by auto
  then have "\<forall>j<k. \<not> bit w j"
    by auto
  then show ?thesis
    using that k i(3) by blast
qed

lemma alloc_bits_none: "\<forall>ix\<in>set ixs. bwords b ! ix = 0 \<Longrightarrow> alloc_bits ixs b = (Err E_NO_MEM, b)"
  by (induction ixs) (auto simp: Let_def)

lemma alloc_bits_skip:
  "\<forall>ix\<in>set ixs. bwords b ! ix = 0 \<Longrightarrow> alloc_bits (ixs @ iys) b = alloc_bits iys b"
  by (induction ixs) (auto simp: Let_def)

lemma free_bits_upd:
  assumes wf: "bitmap_wf b" and ix: "ix < nwords b"
  shows "free_bits (b\<lparr>bwords := (bwords b)[ix := w]\<rparr>) =
    {i. i < nbits b \<and> (if i div 32 = ix then bit w (i mod 32) else bit (bwords b ! (i div 32)) (i mod 32))}"
  using wf ix unfolding free_bits_def bitmap_wf_def by (auto simp: nth_list_update)

lemma wf_upd:
  assumes "bitmap_wf b" "\<forall>k < 32. bit w k \<longrightarrow> ix * 32 + k < nbits b"
  shows "bitmap_wf (b\<lparr>bwords := (bwords b)[ix := w]\<rparr>)"
proof -
  have "jx * 32 + k < nbits b" if "bit ((bwords b)[ix := w] ! jx) k" "jx < nwords b" "k < 32" for jx k
    using assms that unfolding bitmap_wf_def by (cases "jx = ix") auto
  then show ?thesis
    using assms(1) unfolding bitmap_wf_def by simp
qed

lemma wf_bit: "bitmap_wf b \<Longrightarrow> ix < nwords b \<Longrightarrow> k < 32 \<Longrightarrow> bit (bwords b ! ix) k \<Longrightarrow> ix * 32 + k < nbits b"
  unfolding bitmap_wf_def by blast

lemma word_index: "i < nbits b \<Longrightarrow> bitmap_wf b \<Longrightarrow> i div 32 < nwords b"
  unfolding bitmap_wf_def by auto

lemma index_split: "k < 32 \<Longrightarrow> (i :: nat) div 32 = ix \<and> i mod 32 = k \<longleftrightarrow> i = ix * 32 + k"
  by auto

lemma same_index: "(i :: nat) mod 32 = j mod 32 \<Longrightarrow> i div 32 = j div 32 \<Longrightarrow> i = j"
  by (metis div_mult_mod_eq)

lemma alloc_none_bits:
  assumes wf: "bitmap_wf b" and e: "free_bits b = {}"
  shows "bitmap_alloc b = (Err E_NO_MEM, b)"
proof -
  have "bwords b ! ix = 0" if "ix < nwords b" for ix
  proof (rule ccontr)
    assume "bwords b ! ix \<noteq> 0"
    then obtain k where k: "k < 32" "bit (bwords b ! ix) k"
      using find_bit by metis
    then have "ix * 32 + k \<in> free_bits b"
      using wf that unfolding free_bits_def bitmap_wf_def by auto
    then show False
      using e by blast
  qed
  then show ?thesis
    unfolding bitmap_alloc_def by (intro alloc_bits_none) auto
qed

lemma alloc_some_bits:
  assumes wf: "bitmap_wf b" and ne: "free_bits b \<noteq> {}"
  shows "\<exists>c. bitmap_alloc b = (Ok (Min (free_bits b)), c) \<and> bitmap_wf c \<and> nbits c = nbits b \<and>
    free_bits c = free_bits b - {Min (free_bits b)}"
proof -
  obtain i where "i < nbits b" "bit (bwords b ! (i div 32)) (i mod 32)"
    using ne unfolding free_bits_def by auto
  then have "\<exists>ix. ix < nwords b \<and> bwords b ! ix \<noteq> 0"
    using word_index [of i b] wf by (intro exI [of _ "i div 32"]) auto
  then obtain ix where least: "ix < nwords b \<and> bwords b ! ix \<noteq> 0" "\<forall>j<ix. \<not> (j < nwords b \<and> bwords b ! j \<noteq> 0)"
    unfolding exists_least_iff [of "\<lambda>ix. ix < nwords b \<and> bwords b ! ix \<noteq> 0"] by blast
  then have ix: "ix < nwords b" "bwords b ! ix \<noteq> 0" "\<forall>j<ix. bwords b ! j = 0"
    by simp_all
  obtain k where k: "find (\<lambda>k. bwords b ! ix AND push_bit k 1 \<noteq> 0) [0..<32] = Some k" "k < 32"
      "bit (bwords b ! ix) k" "\<forall>j<k. \<not> bit (bwords b ! ix) j"
    using find_bit [OF ix(2)] by blast
  let ?i = "ix * 32 + k" and ?c = "b\<lparr>bwords := (bwords b)[ix := bwords b ! ix XOR push_bit k 1]\<rparr>"
  have free: "?i \<in> free_bits b"
    using wf ix(1) k(2,3) unfolding free_bits_def bitmap_wf_def by auto
  have "?i \<le> j" if j: "j \<in> free_bits b" for j
  proof -
    have "\<not> j div 32 < ix"
      using j ix(3) unfolding free_bits_def by auto
    moreover have "\<not> j mod 32 < k" if "j div 32 = ix"
      using j k(4) that unfolding free_bits_def by auto
    ultimately show ?thesis
      using div_mult_mod_eq [of j 32] k(2) by linarith
  qed
  then have min: "Min (free_bits b) = ?i"
    using free by (intro Min_eqI) (auto simp: free_bits_def)
  have "[0..<nwords b] = [0..<ix] @ ix # [Suc ix..<nwords b]"
    using upt_add_eq_append [of 0 ix "nwords b - ix"] upt_conv_Cons [OF ix(1)] ix(1) by simp
  then have "bitmap_alloc b = (Ok ?i, ?c)"
    unfolding bitmap_alloc_def using ix k(1) by (simp add: alloc_bits_skip Let_def)
  moreover have "bitmap_wf ?c"
    by (rule wf_upd [OF wf]) (use wf_bit [OF wf ix(1)] k in \<open>simp only: bit_xor_push, simp split: if_splits\<close>)
  moreover have "free_bits ?c = free_bits b - {?i}"
    unfolding free_bits_upd [OF wf ix(1)] bit_xor_push [OF k(2)] using index_split [OF k(2)]
    by (auto simp: free_bits_def k)
  ultimately show ?thesis
    unfolding min by auto
qed

lemma release_bits:
  assumes wf: "bitmap_wf b" and i: "i < nbits b" "i \<notin> free_bits b"
  shows "\<exists>c. bitmap_free i b = (Ok (), c) \<and> bitmap_wf c \<and> nbits c = nbits b \<and> free_bits c = insert i (free_bits b)"
proof -
  let ?ix = "i div 32" and ?k = "i mod 32"
  let ?c = "b\<lparr>bwords := (bwords b)[?ix := bwords b ! ?ix OR push_bit ?k 1]\<rparr>"
  have ix: "?ix < nwords b"
    using word_index [OF i(1) wf] .
  have k: "?k < 32"
    by simp
  have "bwords b ! ?ix AND push_bit ?k 1 = 0"
    using i and_bit [of "bwords b ! ?ix" ?k] unfolding free_bits_def by auto
  then have "bitmap_free i b = (Ok (), ?c)"
    using i(1) by (simp add: bitmap_free_def bitmap_translate_def)
  moreover have "bitmap_wf ?c"
    by (rule wf_upd [OF wf]) (use wf_bit [OF wf ix] k i(1) in \<open>simp only: bit_or_push, auto\<close>)
  moreover have "free_bits ?c = insert i (free_bits b)"
    unfolding free_bits_upd [OF wf ix] bit_or_push [OF k] using i(1)
    by (auto simp: free_bits_def dest: same_index)
  ultimately show ?thesis
    by auto
qed

interpretation freemap: bit_allocator bitmap_wf nbits free_bits bitmap_alloc bitmap_free
proof
  show "free_bits b \<subseteq> {..<nbits b}" for b
    by (auto simp: free_bits_def)
  show "bitmap_free i b = (Fault, b)" if "bitmap_wf b" "\<not> (i < nbits b \<and> i \<notin> free_bits b)" for i b
    using that and_bit [of "bwords b ! (i div 32)" "i mod 32"]
    by (auto simp: bitmap_free_def bitmap_translate_def free_bits_def)
qed (use alloc_none_bits alloc_some_bits release_bits in auto)

lemma bitmap_test_free: "i < nbits b \<Longrightarrow> bitmap_test i b = Ok (i \<in> free_bits b)"
  using and_bit [of "bwords b ! (i div 32)" "i mod 32"]
  by (simp add: bitmap_test_def bitmap_translate_def free_bits_def)

lemma bit_ones: "bit (0xFFFFFFFF :: u32) n \<longleftrightarrow> n < 32"
proof -
  have eq: "(0xFFFFFFFF :: u32) = - 1"
    by simp
  show ?thesis
    unfolding eq bit_minus_1_iff by simp
qed

lemma fold_xor:
  "distinct ks \<Longrightarrow> \<forall>k\<in>set ks. k < 32 \<Longrightarrow>
   bit (fold (\<lambda>k w. w XOR push_bit k 1) ks (w :: u32)) n \<longleftrightarrow> (if n \<in> set ks then \<not> bit w n else bit w n)"
proof (induction ks arbitrary: w)
  case (Cons k ks)
  have "bit (w XOR push_bit k 1) n \<longleftrightarrow> (if n = k then \<not> bit w k else bit w n)"
    by (rule bit_xor_push) (use Cons.prems in simp)
  then show ?case
    using Cons.prems Cons.IH [of "w XOR push_bit k 1"] by auto
qed simp

text \<open>
  \<open>bitmap_create\<close> yields a bitmap in which all \<open>nbits\<close> items and no others are free, also when the last
  word is only partly used.
\<close>

lemma bitmap_create_all_free:
  assumes "0 < n" and "n + WORD_BITS < 2 ^ 32"
  shows "\<exists>b. bitmap_create True True n = Ok (Some b) \<and> bitmap_wf b \<and> nbits b = n \<and> free_bits b = {..<n}"
proof -
  define nw where "nw = (n + 31) div 32"
  define over where "over = n - (nw - 1) * 32"
  define ws where "ws = (replicate nw (0xFFFFFFFF :: u32))
    [nw - 1 := fold (\<lambda>k w. w XOR push_bit k 1) [over..<32] 0xFFFFFFFF]"
  have nw: "0 < nw" "(nw - 1) * 32 < n" "n \<le> nw * 32"
    using assms(1) unfolding nw_def by auto
  have over: "0 < over" "over \<le> 32" "n = (nw - 1) * 32 + over"
    using nw unfolding over_def by auto
  have bits: "bit (ws ! ix) k \<longleftrightarrow> ix * 32 + k < n" if "ix < nw" "k < 32" for ix k
  proof (cases "ix = nw - 1")
    case True
    have "bit (ws ! ix) k \<longleftrightarrow> k < over"
      using that over(2) fold_xor [of "[over..<32]" "0xFFFFFFFF" k] bit_ones [of k]
      unfolding ws_def True by auto
    then show ?thesis
      using over(3) True by simp
  next
    case False
    then have "ix * 32 + 32 \<le> (nw - 1) * 32"
      using that by linarith
    then show ?thesis
      using that False nw(2) bit_ones [of k] unfolding ws_def by simp
  qed
  let ?b = "\<lparr>nbits = n, nwords = nw, bwords = ws\<rparr>"
  have full: "ws = replicate nw 0xFFFFFFFF" if "n = nw * 32"
    using that over nw unfolding ws_def by (auto simp: list_update_same_conv)
  have part: "n div 32 = nw - 1" "over < 32" if "n \<noteq> nw * 32"
    using that over nw(1) by auto
  have eqs: "(n + 32 - 1) div 32 = nw" "replicate nw (0xFFFFFFFF :: u32) ! (nw - 1) = 0xFFFFFFFF"
    using nw(1) by (simp_all add: nw_def)
  have "bitmap_create True True n = Ok (Some ?b)"
    unfolding bitmap_create_def Let_def eqs over_def [symmetric] ws_def [symmetric]
    using assms part full over(1) by simp
  moreover have "bitmap_wf ?b"
    using bits unfolding bitmap_wf_def by (simp add: ws_def nw_def)
  moreover have "free_bits ?b = {..<n}"
    using bits [of "i div 32" "i mod 32" for i] unfolding free_bits_def by (auto simp: nw_def)
  ultimately show ?thesis
    by auto
qed

text \<open>
  On a well-formed bitmap with a free item \<open>bitmap_alloc\<close> takes the least free item and no other, and
  \<open>bitmap_free\<close> of that item restores the set of free items; with no free item it fails with
  \<open>E_NO_MEM\<close> and changes nothing.  Releasing an item that is free or out of range is caught.
\<close>

theorem bitmap_alloc_free:
  assumes "bitmap_wf b"
  shows "(if free_bits b = {} then bitmap_alloc b = (Err E_NO_MEM, b)
     else \<exists>c d. bitmap_alloc b = (Ok (Min (free_bits b)), c) \<and> bitmap_wf c \<and>
       free_bits c = free_bits b - {Min (free_bits b)} \<and>
       bitmap_free (Min (free_bits b)) c = (Ok (), d) \<and> bitmap_wf d \<and> free_bits d = free_bits b) \<and>
     (i \<in> free_bits b \<or> nbits b \<le> i \<longrightarrow> bitmap_free i b = (Fault, b))"
proof (cases "free_bits b = {}")
  case True
  then show ?thesis
    using freemap.alloc_none [OF assms] freemap.release_fault [OF assms, of i] by auto
next
  case False
  obtain c where c: "bitmap_alloc b = (Ok (Min (free_bits b)), c)" "bitmap_wf c"
      "free_bits c = free_bits b - {Min (free_bits b)}"
    using freemap.alloc_some [OF assms False] by blast
  obtain d where "bitmap_free (Min (free_bits b)) c = (Ok (), d)" "bitmap_wf d" "free_bits d = free_bits b"
    using freemap.alloc_release [OF assms c(1)] by blast
  then show ?thesis
    using c False freemap.release_fault [OF assms, of i] by auto
qed

theorem bitmap_alloc_free_witness:
  "\<exists>b c. bitmap_create True True 33 = Ok (Some b) \<and> bitmap_alloc b = (Ok 0, c) \<and> free_bits c = {1..<33}"
proof -
  obtain b where b: "bitmap_create True True 33 = Ok (Some b)" "bitmap_wf b" "free_bits b = {..<33}"
    using bitmap_create_all_free [of 33] by auto
  have m: "Min {..<33 :: nat} = 0"
    by (rule Min_eqI) auto
  obtain c where "bitmap_alloc b = (Ok 0, c)" "free_bits c = {..<33} - {0}"
    using bitmap_alloc_free [OF b(2), of 0] unfolding b(3) m by (auto simp: lessThan_empty_iff split: if_splits)
  moreover have "{..<33} - {0} = {1..<33 :: nat}"
    by auto
  ultimately show ?thesis
    using b(1) by auto
qed

end
