(* ===== verification/Sfs.thy ===== *)
theory Sfs
  imports Bitmap
begin

text \<open>
  The simple file system of \<open>src/kern/fs/sfs\<close>: block transfers (\<open>sfs_io.c\<close>), block allocation, the map from
  the blocks of a file to the blocks of the disk, reading, writing and truncating files, directory
  entries and the operations on the name space (\<open>sfs_inode.c\<close>).

  A disk block is a function from offsets to bytes, of which the first \<open>SFS_BLKSIZE\<close> count.  In-memory inodes
  are identified by their number, since \<open>sfs_load_inode\<close> loads each of them once; \<open>nodes\<close> gives their contents
  and \<open>inode_list\<close> the numbers of those that are loaded.  \<open>kmem_left\<close> holds the results of the coming calls of
  \<open>kmalloc\<close>, and \<open>bad\<close> the blocks whose transfer the disk driver reports as failed.  Names are byte strings
  without the terminating zero.  The semaphores are not modelled: each operation is one step.
\<close>

section \<open>State\<close>

abbreviation SFS_BLKSIZE :: nat where "SFS_BLKSIZE \<equiv> 4096"
abbreviation SFS_NDIRECT :: nat where "SFS_NDIRECT \<equiv> 12"
abbreviation SFS_BLK_NENTRY :: nat where "SFS_BLK_NENTRY \<equiv> 1024"
abbreviation SFS_MAX_FNAME_LEN :: nat where "SFS_MAX_FNAME_LEN \<equiv> 255"
abbreviation SFS_MAX_FILE_SIZE :: nat where "SFS_MAX_FILE_SIZE \<equiv> 134217728"
abbreviation SFS_DIR_DOT_SLOT :: nat where "SFS_DIR_DOT_SLOT \<equiv> 0"
abbreviation SFS_DIR_DOTDOT_SLOT :: nat where "SFS_DIR_DOTDOT_SLOT \<equiv> 1"
abbreviation SFS_DIR_FIRST_ENTRY :: nat where "SFS_DIR_FIRST_ENTRY \<equiv> 2"
abbreviation SFS_TYPE_FILE :: nat where "SFS_TYPE_FILE \<equiv> 1"
abbreviation SFS_TYPE_DIR :: nat where "SFS_TYPE_DIR \<equiv> 2"
abbreviation SFS_TYPE_LINK :: nat where "SFS_TYPE_LINK \<equiv> 3"

record sfs_disk_inode =
  fsize :: nat
  ftype :: nat
  nlinks :: nat
  blocks :: nat
  direct :: "nat list"
  indirect :: nat

record sfs_inode =
  din :: sfs_disk_inode
  dirty :: bool
  reclaim_count :: int
  ref_count :: int

record sfs_disk_entry =
  e_ino :: nat
  e_name :: "u8 list"

record sfs_fs =
  sblocks :: nat
  unused_blocks :: nat
  super_dirty :: bool
  freemap :: bitmap
  d_blocks :: nat
  disk :: "nat \<Rightarrow> nat \<Rightarrow> u8"
  bad :: "nat \<Rightarrow> bool"
  nodes :: "nat \<Rightarrow> sfs_inode"
  inode_list :: "nat list"
  kmem_left :: "bool list"

definition upd_node :: "nat \<Rightarrow> (sfs_inode \<Rightarrow> sfs_inode) \<Rightarrow> sfs_fs \<Rightarrow> sfs_fs" where
  "upd_node i f s = s\<lparr>nodes := (nodes s)(i := f (nodes s i))\<rparr>"

definition upd_din :: "nat \<Rightarrow> (sfs_disk_inode \<Rightarrow> sfs_disk_inode) \<Rightarrow> sfs_fs \<Rightarrow> sfs_fs" where
  "upd_din i f s = upd_node i (\<lambda>n. n\<lparr>din := f (din n)\<rparr>) s"

definition set_dirty :: "nat \<Rightarrow> sfs_fs \<Rightarrow> sfs_fs" where
  "set_dirty i s = upd_node i (\<lambda>n. n\<lparr>dirty := True\<rparr>) s"

definition kmalloc_ok :: "sfs_fs \<Rightarrow> bool \<times> sfs_fs" where
  "kmalloc_ok s = (case kmem_left s of [] \<Rightarrow> (True, s) | b # bs \<Rightarrow> (b, s\<lparr>kmem_left := bs\<rparr>))"

text \<open>Integers in memory, lowest byte first.\<close>

definition put16 :: "nat \<Rightarrow> u8 list" where
  "put16 n = [of_nat n, of_nat (n div 256)]"

definition put32 :: "nat \<Rightarrow> u8 list" where
  "put32 n = [of_nat n, of_nat (n div 256), of_nat (n div 65536), of_nat (n div 16777216)]"

definition get16 :: "u8 list \<Rightarrow> nat \<Rightarrow> nat" where
  "get16 bs k = unat (bs ! k) + 256 * unat (bs ! (k + 1))"

definition get32 :: "u8 list \<Rightarrow> nat \<Rightarrow> nat" where
  "get32 bs k = unat (bs ! k) + 256 * unat (bs ! (k + 1)) + 65536 * unat (bs ! (k + 2)) +
     16777216 * unat (bs ! (k + 3))"

section \<open>Block transfers\<close>

text \<open>
  The block of the disk that a transfer of one block reaches: the byte offset of the buffer is a signed
  32-bit number, and the driver turns it back into a block number.
\<close>

definition iob_block :: "nat \<Rightarrow> nat" where
  "iob_block b = (
     let off = (int b * 4096 + 2 ^ 31) mod 2 ^ 32 - 2 ^ 31 in nat ((off div 4096) mod 2 ^ 32))"

definition disk0_io :: "nat \<Rightarrow> sfs_fs \<Rightarrow> nat outcome" where
  "disk0_io b s = (
     if (iob_block b + 1) mod 2 ^ 32 > d_blocks s then Err E_INVAL
     else if bad s (iob_block b) then Fault else Ok (iob_block b))"

definition sfs_rwblock_nolock :: "nat \<Rightarrow> bool \<Rightarrow> sfs_fs \<Rightarrow> nat outcome" where
  "sfs_rwblock_nolock b chk s = (
     if (b \<noteq> 0 \<or> \<not> chk) \<and> b < sblocks s then disk0_io b s else Fault)"

definition write_block :: "nat \<Rightarrow> bool \<Rightarrow> (nat \<Rightarrow> u8) \<Rightarrow> sfs_fs \<Rightarrow> unit outcome \<times> sfs_fs" where
  "write_block b chk f s = (
     case sfs_rwblock_nolock b chk s of
       Ok a \<Rightarrow> (Ok (), s\<lparr>disk := (disk s)(a := f)\<rparr>)
     | Err e \<Rightarrow> (Err e, s)
     | Fault \<Rightarrow> (Fault, s))"

fun sfs_rblock :: "nat \<Rightarrow> nat \<Rightarrow> sfs_fs \<Rightarrow> u8 list outcome" where
  "sfs_rblock b 0 s = Ok []"
| "sfs_rblock b (Suc n) s =
     obind (sfs_rwblock_nolock b True s) (\<lambda>a.
     obind (sfs_rblock (b + 1) n s) (\<lambda>bs. Ok (map (disk s a) [0..<SFS_BLKSIZE] @ bs)))"

fun sfs_wblock :: "u8 list \<Rightarrow> nat \<Rightarrow> nat \<Rightarrow> sfs_fs \<Rightarrow> unit outcome \<times> sfs_fs" where
  "sfs_wblock buf b 0 s = (Ok (), s)"
| "sfs_wblock buf b (Suc n) s =
     sbind (write_block b True (\<lambda>k. buf ! k) s) (\<lambda>_ s. sfs_wblock (drop SFS_BLKSIZE buf) (b + 1) n s)"

definition sfs_rbuf :: "nat \<Rightarrow> nat \<Rightarrow> nat \<Rightarrow> sfs_fs \<Rightarrow> u8 list outcome" where
  "sfs_rbuf len b off s = (
     if off < SFS_BLKSIZE \<and> off + len \<le> SFS_BLKSIZE
     then obind (sfs_rwblock_nolock b True s) (\<lambda>a. Ok (map (disk s a) [off..<off + len]))
     else Fault)"

definition sfs_wbuf :: "u8 list \<Rightarrow> nat \<Rightarrow> nat \<Rightarrow> sfs_fs \<Rightarrow> unit outcome \<times> sfs_fs" where
  "sfs_wbuf buf b off s = (
     if off < SFS_BLKSIZE \<and> off + length buf \<le> SFS_BLKSIZE
     then case sfs_rwblock_nolock b True s of
            Ok a \<Rightarrow> write_block b True
              (\<lambda>k. if off \<le> k \<and> k < off + length buf then buf ! (k - off) else disk s a k) s
          | Err e \<Rightarrow> (Err e, s)
          | Fault \<Rightarrow> (Fault, s)
     else (Fault, s))"

text \<open>With no block to clear the C function returns an uninitialised variable.\<close>

fun sfs_clear_block :: "nat \<Rightarrow> nat \<Rightarrow> sfs_fs \<Rightarrow> unit outcome \<times> sfs_fs" where
  "sfs_clear_block b 0 s = (Fault, s)"
| "sfs_clear_block b (Suc n) s =
     sbind (write_block b True (\<lambda>_. 0) s) (\<lambda>_ s. if n = 0 then (Ok (), s) else sfs_clear_block (b + 1) n s)"

section \<open>Block allocation\<close>

definition sfs_block_inuse :: "nat \<Rightarrow> sfs_fs \<Rightarrow> bool outcome" where
  "sfs_block_inuse b s = (
     if b \<noteq> 0 \<and> b < sblocks s then obind (bitmap_test b (freemap s)) (\<lambda>f. Ok (\<not> f)) else Fault)"

definition sfs_block_alloc :: "sfs_fs \<Rightarrow> nat outcome \<times> sfs_fs" where
  "sfs_block_alloc s = (
     case bitmap_alloc (freemap s) of
       (Ok b, fm) \<Rightarrow>
         let s = s\<lparr>freemap := fm\<rparr> in
         if unused_blocks s = 0 then (Fault, s)
         else
           let s = s\<lparr>unused_blocks := unused_blocks s - 1, super_dirty := True\<rparr> in
           if sfs_block_inuse b s = Ok True then sbind (sfs_clear_block b 1 s) (\<lambda>_ s. (Ok b, s)) else (Fault, s)
     | (Err e, fm) \<Rightarrow> (Err e, s\<lparr>freemap := fm\<rparr>)
     | (Fault, fm) \<Rightarrow> (Fault, s))"

definition sfs_block_free :: "nat \<Rightarrow> sfs_fs \<Rightarrow> unit outcome \<times> sfs_fs" where
  "sfs_block_free b s = (
     if sfs_block_inuse b s = Ok True
     then case bitmap_free b (freemap s) of
            (Ok _, fm) \<Rightarrow> (Ok (), s\<lparr>freemap := fm, unused_blocks := unused_blocks s + 1, super_dirty := True\<rparr>)
          | (_, fm) \<Rightarrow> (Fault, s)
     else (Fault, s))"

section \<open>The block map of a file\<close>

definition bmap_new_entry :: "nat \<Rightarrow> nat \<Rightarrow> nat \<Rightarrow> sfs_fs \<Rightarrow> (nat \<times> nat) outcome \<times> sfs_fs" where
  "bmap_new_entry entp ent index s = (
     let cleanup = (\<lambda>e s. if ent \<noteq> entp then sbind (sfs_block_free ent s) (\<lambda>_ s. (Err e, s)) else (Err e, s)) in
     case sfs_block_alloc s of
       (Ok ino, s) \<Rightarrow>
         (case sfs_wbuf (put32 ino) ent (index * 4) s of
            (Ok _, s) \<Rightarrow> (Ok (ent, ino), s)
          | (Err e, s) \<Rightarrow> sbind (sfs_block_free ino s) (\<lambda>_ s. cleanup e s)
          | (Fault, s) \<Rightarrow> (Fault, s))
     | (Err e, s) \<Rightarrow> cleanup e s
     | (Fault, s) \<Rightarrow> (Fault, s))"

definition sfs_bmap_get_sub_nolock :: "nat \<Rightarrow> nat \<Rightarrow> bool \<Rightarrow> sfs_fs \<Rightarrow> (nat \<times> nat) outcome \<times> sfs_fs" where
  "sfs_bmap_get_sub_nolock entp index create s = (
     if index \<ge> SFS_BLK_NENTRY then (Fault, s)
     else if entp \<noteq> 0
     then case sfs_rbuf 4 entp (index * 4) s of
            Ok bs \<Rightarrow> if get32 bs 0 \<noteq> 0 \<or> \<not> create then (Ok (entp, get32 bs 0), s)
                     else bmap_new_entry entp entp index s
          | Err e \<Rightarrow> (Err e, s)
          | Fault \<Rightarrow> (Fault, s)
     else if \<not> create then (Ok (entp, 0), s)
     else sbind (sfs_block_alloc s) (\<lambda>ent s. bmap_new_entry entp ent index s))"

definition bmap_out :: "nat \<Rightarrow> sfs_fs \<Rightarrow> nat outcome \<times> sfs_fs" where
  "bmap_out ino s = (if ino = 0 \<or> sfs_block_inuse ino s = Ok True then (Ok ino, s) else (Fault, s))"

definition sfs_bmap_get_nolock :: "nat \<Rightarrow> nat \<Rightarrow> bool \<Rightarrow> sfs_fs \<Rightarrow> nat outcome \<times> sfs_fs" where
  "sfs_bmap_get_nolock i index create s = (
     let d = din (nodes s i) in
     if index < SFS_NDIRECT
     then if direct d ! index = 0 \<and> create
          then sbind (sfs_block_alloc s) (\<lambda>ino s.
            bmap_out ino (set_dirty i (upd_din i (\<lambda>d. d\<lparr>direct := (direct d)[index := ino]\<rparr>) s)))
          else bmap_out (direct d ! index) s
     else if index - SFS_NDIRECT < SFS_BLK_NENTRY
     then sbind (sfs_bmap_get_sub_nolock (indirect d) (index - SFS_NDIRECT) create s) (\<lambda>(ent, ino) s.
            if ent \<noteq> indirect d
            then if indirect d = 0
                 then bmap_out ino (set_dirty i (upd_din i (\<lambda>d. d\<lparr>indirect := ent\<rparr>) s)) else (Fault, s)
            else bmap_out ino s)
     else (Fault, s))"

definition sfs_bmap_free_sub_nolock :: "nat \<Rightarrow> nat \<Rightarrow> sfs_fs \<Rightarrow> unit outcome \<times> sfs_fs" where
  "sfs_bmap_free_sub_nolock ent index s = (
     if sfs_block_inuse ent s = Ok True \<and> index < SFS_BLK_NENTRY
     then case sfs_rbuf 4 ent (index * 4) s of
            Ok bs \<Rightarrow> if get32 bs 0 \<noteq> 0
                     then sbind (sfs_wbuf (put32 0) ent (index * 4) s) (\<lambda>_ s. sfs_block_free (get32 bs 0) s)
                     else (Ok (), s)
          | Err e \<Rightarrow> (Err e, s)
          | Fault \<Rightarrow> (Fault, s)
     else (Fault, s))"

definition sfs_bmap_free_nolock :: "nat \<Rightarrow> nat \<Rightarrow> sfs_fs \<Rightarrow> unit outcome \<times> sfs_fs" where
  "sfs_bmap_free_nolock i index s = (
     let d = din (nodes s i) in
     if index < SFS_NDIRECT
     then if direct d ! index \<noteq> 0
          then sbind (sfs_block_free (direct d ! index) s) (\<lambda>_ s.
            (Ok (), set_dirty i (upd_din i (\<lambda>d. d\<lparr>direct := (direct d)[index := 0]\<rparr>) s)))
          else (Ok (), s)
     else if index - SFS_NDIRECT < SFS_BLK_NENTRY
     then if indirect d \<noteq> 0 then sfs_bmap_free_sub_nolock (indirect d) (index - SFS_NDIRECT) s else (Ok (), s)
     else (Ok (), s))"

definition sfs_bmap_load_nolock :: "nat \<Rightarrow> nat \<Rightarrow> sfs_fs \<Rightarrow> nat outcome \<times> sfs_fs" where
  "sfs_bmap_load_nolock i index s = (
     if index \<le> blocks (din (nodes s i))
     then let create = (index = blocks (din (nodes s i))) in
       sbind (sfs_bmap_get_nolock i index create s) (\<lambda>ino s.
         if sfs_block_inuse ino s = Ok True
         then (Ok ino, if create then upd_din i (\<lambda>d. d\<lparr>blocks := blocks d + 1\<rparr>) s else s)
         else (Fault, s))
     else (Fault, s))"

definition sfs_bmap_truncate_nolock :: "nat \<Rightarrow> sfs_fs \<Rightarrow> unit outcome \<times> sfs_fs" where
  "sfs_bmap_truncate_nolock i s = (
     if blocks (din (nodes s i)) \<noteq> 0
     then sbind (sfs_bmap_free_nolock i (blocks (din (nodes s i)) - 1) s) (\<lambda>_ s.
       (Ok (), set_dirty i (upd_din i (\<lambda>d. d\<lparr>blocks := blocks d - 1\<rparr>) s)))
     else (Fault, s))"

section \<open>Reading and writing files\<close>

text \<open>
  \<open>buf_op\<close> and \<open>block_op\<close> are the two function pointers that \<open>sfs_io_nolock\<close> sets: a transfer between position \<open>pos\<close> of
  the buffer and a disk block, in either direction.
\<close>

definition buf_op :: "bool \<Rightarrow> u8 list \<Rightarrow> nat \<Rightarrow> nat \<Rightarrow> nat \<Rightarrow> nat \<Rightarrow> sfs_fs \<Rightarrow> u8 list outcome \<times> sfs_fs" where
  "buf_op wr buf pos len b off s = (
     if wr then sbind (sfs_wbuf (take len (drop pos buf)) b off s) (\<lambda>_ s. (Ok buf, s))
     else (obind (sfs_rbuf len b off s) (\<lambda>bs. Ok (overwrite buf pos bs)), s))"

definition block_op :: "bool \<Rightarrow> u8 list \<Rightarrow> nat \<Rightarrow> nat \<Rightarrow> nat \<Rightarrow> sfs_fs \<Rightarrow> u8 list outcome \<times> sfs_fs" where
  "block_op wr buf pos b n s = (
     if wr then sbind (sfs_wblock (drop pos buf) b n s) (\<lambda>_ s. (Ok buf, s))
     else (obind (sfs_rblock b n s) (\<lambda>bs. Ok (overwrite buf pos bs)), s))"

text \<open>The loop over whole blocks; the position in the buffer is the number of bytes transferred.\<close>

fun io_blocks :: "bool \<Rightarrow> nat \<Rightarrow> nat \<Rightarrow> nat \<Rightarrow> u8 list \<Rightarrow> nat \<Rightarrow> sfs_fs \<Rightarrow>
    (unit outcome \<times> u8 list \<times> nat) \<times> sfs_fs" where
  "io_blocks wr i 0 blkno buf alen s = ((Ok (), buf, alen), s)"
| "io_blocks wr i (Suc n) blkno buf alen s = (
     case sbind (sfs_bmap_load_nolock i blkno s) (\<lambda>ino s. block_op wr buf alen ino 1 s) of
       (Ok buf, s) \<Rightarrow> io_blocks wr i n (blkno + 1) buf (alen + SFS_BLKSIZE) s
     | (Err e, s) \<Rightarrow> ((Err e, buf, alen), s)
     | (Fault, s) \<Rightarrow> ((Fault, buf, alen), s))"

definition io_part :: "bool \<Rightarrow> nat \<Rightarrow> nat \<Rightarrow> nat \<Rightarrow> nat \<Rightarrow> u8 list \<Rightarrow> nat \<Rightarrow> sfs_fs \<Rightarrow>
    (unit outcome \<times> u8 list \<times> nat) \<times> sfs_fs" where
  "io_part wr i blkno off len buf alen s = (
     case sbind (sfs_bmap_load_nolock i blkno s) (\<lambda>ino s. buf_op wr buf alen len ino off s) of
       (Ok buf, s) \<Rightarrow> ((Ok (), buf, alen + len), s)
     | (Err e, s) \<Rightarrow> ((Err e, buf, alen), s)
     | (Fault, s) \<Rightarrow> ((Fault, buf, alen), s))"

text \<open>The three parts of a transfer from \<open>offset\<close> up to \<open>endpos\<close>.\<close>

definition io_tail :: "bool \<Rightarrow> nat \<Rightarrow> nat \<Rightarrow> nat \<Rightarrow> (unit outcome \<times> u8 list \<times> nat) \<times> sfs_fs \<Rightarrow>
    (unit outcome \<times> u8 list \<times> nat) \<times> sfs_fs" where
  "io_tail wr i blkno endpos m = (
     case m of
       ((Ok _, buf, alen), s) \<Rightarrow>
         if endpos mod SFS_BLKSIZE \<noteq> 0 then io_part wr i blkno 0 (endpos mod SFS_BLKSIZE) buf alen s
         else ((Ok (), buf, alen), s)
     | _ \<Rightarrow> m)"

definition io_range :: "bool \<Rightarrow> nat \<Rightarrow> nat \<Rightarrow> nat \<Rightarrow> u8 list \<Rightarrow> sfs_fs \<Rightarrow>
    (unit outcome \<times> u8 list \<times> nat) \<times> sfs_fs" where
  "io_range wr i offset endpos buf s = (
     let blkno = offset div SFS_BLKSIZE; nblks = endpos div SFS_BLKSIZE - blkno; blkoff = offset mod SFS_BLKSIZE in
     if blkoff \<noteq> 0
     then case io_part wr i blkno blkoff (if nblks \<noteq> 0 then SFS_BLKSIZE - blkoff else endpos - offset) buf 0 s of
            ((Ok _, buf, alen), s) \<Rightarrow>
              if nblks = 0 then ((Ok (), buf, alen), s)
              else io_tail wr i (blkno + nblks) endpos (io_blocks wr i (nblks - 1) (blkno + 1) buf alen s)
          | m \<Rightarrow> m
     else io_tail wr i (blkno + nblks) endpos (io_blocks wr i nblks blkno buf 0 s))"

definition int32 :: "int \<Rightarrow> int" where
  "int32 x = (x + 2 ^ 31) mod 2 ^ 32 - 2 ^ 31"

definition sfs_io_nolock :: "bool \<Rightarrow> nat \<Rightarrow> u8 list \<Rightarrow> int \<Rightarrow> nat \<Rightarrow> sfs_fs \<Rightarrow>
    (unit outcome \<times> u8 list \<times> nat) \<times> sfs_fs" where
  "sfs_io_nolock wr i buf offset alen s = (
     let d = din (nodes s i); endpos = int32 (offset + int alen) in
     if ftype d = SFS_TYPE_DIR then ((Fault, buf, 0), s)
     else if offset < 0 \<or> offset \<ge> int SFS_MAX_FILE_SIZE \<or> offset > endpos then ((Err E_INVAL, buf, 0), s)
     else if offset = endpos then ((Ok (), buf, 0), s)
     else
       let endpos = min endpos (int SFS_MAX_FILE_SIZE) in
       if \<not> wr \<and> offset \<ge> int (fsize d) then ((Ok (), buf, 0), s)
       else
         let endpos = (if wr then endpos else min endpos (int (fsize d)));
             ((ret, buf, alen), s) = io_range wr i (nat offset) (nat endpos) buf s
         in ((ret, buf, alen),
             if nat offset + alen > fsize (din (nodes s i))
             then set_dirty i (upd_din i (\<lambda>d. d\<lparr>fsize := nat offset + alen\<rparr>) s) else s))"

section \<open>Truncating\<close>

fun grow_loop :: "nat \<Rightarrow> nat \<Rightarrow> nat \<Rightarrow> sfs_fs \<Rightarrow> unit outcome \<times> sfs_fs" where
  "grow_loop i nblks 0 s = (Ok (), s)"
| "grow_loop i nblks (Suc n) s = sbind (sfs_bmap_load_nolock i nblks s) (\<lambda>_ s. grow_loop i (nblks + 1) n s)"

fun shrink_loop :: "nat \<Rightarrow> nat \<Rightarrow> sfs_fs \<Rightarrow> unit outcome \<times> sfs_fs" where
  "shrink_loop i 0 s = (Ok (), s)"
| "shrink_loop i (Suc n) s = sbind (sfs_bmap_truncate_nolock i s) (\<lambda>_ s. shrink_loop i n s)"

definition sfs_truncfile :: "nat \<Rightarrow> int \<Rightarrow> sfs_fs \<Rightarrow> unit outcome \<times> sfs_fs" where
  "sfs_truncfile i len s = (
     if len < 0 \<or> len > int SFS_MAX_FILE_SIZE then (Err E_INVAL, s)
     else
       let d = din (nodes s i); tblks = (nat len + SFS_BLKSIZE - 1) div SFS_BLKSIZE; nblks = blocks d in
       if ftype d = SFS_TYPE_DIR
       then if len \<noteq> 0 then (Err E_ISDIR, s)
            else let (ret, s) = shrink_loop i nblks s in
              (ret, set_dirty i (upd_din i (\<lambda>d. d\<lparr>fsize := 0\<rparr>) s))
       else if fsize d = nat len then (if tblks = blocks d then (Ok (), s) else (Fault, s))
       else sbind (if nblks < tblks then grow_loop i nblks (tblks - nblks) s
                   else shrink_loop i (nblks - tblks) s) (\<lambda>_ s.
         if blocks (din (nodes s i)) = tblks
         then (Ok (), set_dirty i (upd_din i (\<lambda>d. d\<lparr>fsize := nat len\<rparr>) s)) else (Fault, s)))"

definition sfs_tryseek :: "nat \<Rightarrow> int \<Rightarrow> sfs_fs \<Rightarrow> unit outcome \<times> sfs_fs" where
  "sfs_tryseek i pos s = (
     if pos < 0 \<or> pos \<ge> int SFS_MAX_FILE_SIZE then (Err E_INVAL, s)
     else if pos > int (fsize (din (nodes s i))) then sfs_truncfile i pos s
     else (Ok (), s))"

section \<open>Inodes\<close>

definition encode_inode :: "sfs_disk_inode \<Rightarrow> u8 list" where
  "encode_inode d = put32 (fsize d) @ put16 (ftype d) @ put16 (nlinks d) @ put32 (blocks d) @
     concat (map put32 (direct d)) @ put32 (indirect d)"

definition decode_inode :: "u8 list \<Rightarrow> sfs_disk_inode" where
  "decode_inode bs = \<lparr>fsize = get32 bs 0, ftype = get16 bs 4, nlinks = get16 bs 6, blocks = get32 bs 8,
     direct = map (\<lambda>k. get32 bs (12 + 4 * k)) [0..<SFS_NDIRECT], indirect = get32 bs 60\<rparr>"

definition sfs_fsync :: "nat \<Rightarrow> sfs_fs \<Rightarrow> unit outcome \<times> sfs_fs" where
  "sfs_fsync i s = (
     if dirty (nodes s i)
     then let s = upd_node i (\<lambda>n. n\<lparr>dirty := False\<rparr>) s in
       case sfs_wbuf (encode_inode (din (nodes s i))) i 0 s of
         (Err e, s) \<Rightarrow> (Err e, set_dirty i s)
       | m \<Rightarrow> m
     else (Ok (), s))"

definition sfs_get_ops :: "nat \<Rightarrow> unit outcome" where
  "sfs_get_ops t = (if t \<in> {SFS_TYPE_DIR, SFS_TYPE_FILE, SFS_TYPE_LINK} then Ok () else Fault)"

definition sfs_create_inode :: "sfs_disk_inode \<Rightarrow> nat \<Rightarrow> sfs_fs \<Rightarrow> unit outcome \<times> sfs_fs" where
  "sfs_create_inode d i s = (
     case kmalloc_ok s of
       (True, s) \<Rightarrow>
         if sfs_get_ops (ftype d) = Ok ()
         then (Ok (), upd_node i (\<lambda>_. \<lparr>din = d, dirty = False, reclaim_count = 1, ref_count = 1\<rparr>) s)
         else (Fault, s)
     | (False, s) \<Rightarrow> (Err E_NO_MEM, s))"

definition sfs_set_links :: "nat \<Rightarrow> sfs_fs \<Rightarrow> sfs_fs" where
  "sfs_set_links i s = s\<lparr>inode_list := i # inode_list s\<rparr>"

definition sfs_remove_links :: "nat \<Rightarrow> sfs_fs \<Rightarrow> sfs_fs" where
  "sfs_remove_links i s = s\<lparr>inode_list := remove1 i (inode_list s)\<rparr>"

definition lookup_sfs_nolock :: "nat \<Rightarrow> sfs_fs \<Rightarrow> bool \<times> sfs_fs" where
  "lookup_sfs_nolock i s = (
     if i \<in> set (inode_list s)
     then (True, upd_node i (\<lambda>n. n\<lparr>ref_count := ref_count n + 1,
            reclaim_count := reclaim_count n + (if ref_count n + 1 = 1 then 1 else 0)\<rparr>) s)
     else (False, s))"

definition sfs_load_inode :: "nat \<Rightarrow> sfs_fs \<Rightarrow> nat outcome \<times> sfs_fs" where
  "sfs_load_inode i s = (
     case lookup_sfs_nolock i s of
       (True, s) \<Rightarrow> (Ok i, s)
     | (False, s) \<Rightarrow>
         (case kmalloc_ok s of
            (False, s) \<Rightarrow> (Err E_NO_MEM, s)
          | (True, s) \<Rightarrow>
              if sfs_block_inuse i s \<noteq> Ok True then (Fault, s)
              else sbind (sfs_rbuf 64 i 0 s, s) (\<lambda>bs s.
                if nlinks (decode_inode bs) = 0 then (Fault, s)
                else sbind (sfs_create_inode (decode_inode bs) i s) (\<lambda>_ s. (Ok i, sfs_set_links i s)))))"

definition sfs_reclaim :: "nat \<Rightarrow> sfs_fs \<Rightarrow> unit outcome \<times> sfs_fs" where
  "sfs_reclaim i s = (
     if reclaim_count (nodes s i) \<le> 0 then (Fault, s)
     else if ref_count (nodes s i) \<noteq> 0 then (Err E_BUSY, s)
     else let s = upd_node i (\<lambda>n. n\<lparr>reclaim_count := reclaim_count n - 1\<rparr>) s in
       if reclaim_count (nodes s i) \<noteq> 0 then (Err E_BUSY, s)
       else
         sbind (if nlinks (din (nodes s i)) = 0 then sfs_truncfile i 0 s else (Ok (), s)) (\<lambda>_ s.
         sbind (if dirty (nodes s i) then sfs_fsync i s else (Ok (), s)) (\<lambda>_ s.
         sbind (if nlinks (din (nodes s i)) = 0
                then sbind (sfs_block_free i s) (\<lambda>_ s.
                  if indirect (din (nodes s i)) \<noteq> 0 then sfs_block_free (indirect (din (nodes s i))) s
                  else (Ok (), s))
                else (Ok (), s)) (\<lambda>_ s. (Ok (), sfs_remove_links i s)))))"

definition inode_ref_dec :: "nat \<Rightarrow> sfs_fs \<Rightarrow> unit outcome \<times> sfs_fs" where
  "inode_ref_dec i s = (
     let s = upd_node i (\<lambda>n. n\<lparr>ref_count := ref_count n - 1\<rparr>) s in
     if ref_count (nodes s i) < 0 then (Fault, s)
     else if ref_count (nodes s i) = 0
     then case sfs_reclaim i s of (Fault, s) \<Rightarrow> (Fault, s) | (_, s) \<Rightarrow> (Ok (), s)
     else (Ok (), s))"

definition inode_ref_inc :: "nat \<Rightarrow> sfs_fs \<Rightarrow> sfs_fs" where
  "inode_ref_inc i s = upd_node i (\<lambda>n. n\<lparr>ref_count := ref_count n + 1\<rparr>) s"

section \<open>Directory entries\<close>

text \<open>Each entry has a block of its own: the number of the inode and the name, padded with zeros.\<close>

definition encode_entry :: "nat \<Rightarrow> u8 list \<Rightarrow> u8 list" where
  "encode_entry i name = put32 i @ name @ replicate (SFS_MAX_FNAME_LEN + 1 - length name) 0"

definition cstring :: "u8 list \<Rightarrow> u8 list" where
  "cstring bs = takeWhile (\<lambda>c. c \<noteq> 0) bs"

definition sfs_dirent_read_nolock :: "nat \<Rightarrow> nat \<Rightarrow> sfs_fs \<Rightarrow> sfs_disk_entry outcome \<times> sfs_fs" where
  "sfs_dirent_read_nolock i slot s = (
     if ftype (din (nodes s i)) = SFS_TYPE_DIR \<and> slot < blocks (din (nodes s i))
     then sbind (sfs_bmap_load_nolock i slot s) (\<lambda>ino s.
       if sfs_block_inuse ino s = Ok True
       then sbind (sfs_rbuf 260 ino 0 s, s) (\<lambda>bs s.
         (Ok \<lparr>e_ino = get32 bs 0, e_name = cstring ((drop 4 bs)[SFS_MAX_FNAME_LEN := 0])\<rparr>, s))
       else (Fault, s))
     else (Fault, s))"

text \<open>
  The search returns the slot and the inode number of the entry, and the empty slot it has noted: the
  last one before the end of the search, or one past the last slot.
\<close>

fun search_loop :: "nat \<Rightarrow> u8 list \<Rightarrow> nat list \<Rightarrow> nat \<Rightarrow> sfs_fs \<Rightarrow> ((nat \<times> nat) outcome \<times> nat) \<times> sfs_fs" where
  "search_loop i name [] vacant s = ((Err E_NOENT, vacant), s)"
| "search_loop i name (k # ks) vacant s = (
     case sfs_dirent_read_nolock i k s of
       (Ok e, s) \<Rightarrow>
         if e_ino e = 0 then search_loop i name ks k s
         else if name = e_name e then ((Ok (k, e_ino e), vacant), s)
         else search_loop i name ks vacant s
     | (Err x, s) \<Rightarrow> ((Err x, vacant), s)
     | (Fault, s) \<Rightarrow> ((Fault, vacant), s))"

definition sfs_dirent_search_nolock :: "nat \<Rightarrow> u8 list \<Rightarrow> sfs_fs \<Rightarrow> ((nat \<times> nat) outcome \<times> nat) \<times> sfs_fs" where
  "sfs_dirent_search_nolock i name s = (
     if length name > SFS_MAX_FNAME_LEN then ((Fault, 0), s)
     else case kmalloc_ok s of
       (False, s) \<Rightarrow> ((Err E_NO_MEM, 0), s)
     | (True, s) \<Rightarrow> search_loop i name [0..<blocks (din (nodes s i))] (blocks (din (nodes s i))) s)"

definition slash :: u8 where "slash = 0x2F"
definition dot :: "u8 list" where "dot = [0x2E]"
definition dotdot :: "u8 list" where "dotdot = [0x2E, 0x2E]"

definition valid_name :: "u8 list \<Rightarrow> bool" where
  "valid_name name \<longleftrightarrow> name \<noteq> [] \<and> length name \<le> SFS_MAX_FNAME_LEN \<and> slash \<notin> set name"

definition inc_nlinks :: "nat \<Rightarrow> sfs_fs \<Rightarrow> sfs_fs" where
  "inc_nlinks i s = set_dirty i (upd_din i (\<lambda>d. d\<lparr>nlinks := (nlinks d + 1) mod 65536\<rparr>) s)"

definition dec_nlinks :: "nat \<Rightarrow> sfs_fs \<Rightarrow> sfs_fs" where
  "dec_nlinks i s = set_dirty i (upd_din i (\<lambda>d. d\<lparr>nlinks := nlinks d - 1\<rparr>) s)"

definition sfs_dirent_link_nolock :: "nat \<Rightarrow> nat \<Rightarrow> nat \<Rightarrow> u8 list \<Rightarrow> sfs_fs \<Rightarrow> unit outcome \<times> sfs_fs" where
  "sfs_dirent_link_nolock dir slot target name s = (
     if \<not> valid_name name then (Err E_INVAL, s)
     else sbind (sfs_bmap_load_nolock dir slot s) (\<lambda>b s.
       sbind (sfs_wbuf (encode_entry target name) b 0 s) (\<lambda>_ s.
         (Ok (), set_dirty dir (inc_nlinks target s)))))"

definition sfs_dirent_unlink_nolock :: "nat \<Rightarrow> nat \<Rightarrow> nat \<Rightarrow> sfs_fs \<Rightarrow> unit outcome \<times> sfs_fs" where
  "sfs_dirent_unlink_nolock dir slot target s =
     sbind (sfs_bmap_get_nolock dir slot False s) (\<lambda>b s.
       if b = 0 then (Err E_NOENT, s)
       else if nlinks (din (nodes s target)) = 0 then (Err E_INVAL, s)
       else sbind (sfs_wbuf (replicate 260 0) b 0 s) (\<lambda>_ s.
         (Ok (), set_dirty dir (dec_nlinks target s))))"

definition sfs_dirent_replace_nolock :: "nat \<Rightarrow> nat \<Rightarrow> nat \<Rightarrow> nat \<Rightarrow> u8 list \<Rightarrow> sfs_fs \<Rightarrow> unit outcome \<times> sfs_fs" where
  "sfs_dirent_replace_nolock dir slot old new name s = (
     if \<not> valid_name name \<or> old = new then (Err E_INVAL, s)
     else sbind (sfs_bmap_get_nolock dir slot False s) (\<lambda>b s.
       if b = 0 then (Err E_NOENT, s)
       else if nlinks (din (nodes s old)) = 0 then (Err E_INVAL, s)
       else sbind (sfs_wbuf (encode_entry new name) b 0 s) (\<lambda>_ s.
         (Ok (), set_dirty dir (inc_nlinks new (dec_nlinks old s))))))"

definition sfs_dirent_set_parent_nolock :: "nat \<Rightarrow> nat \<Rightarrow> nat \<Rightarrow> sfs_fs \<Rightarrow> unit outcome \<times> sfs_fs" where
  "sfs_dirent_set_parent_nolock child old new s = (
     if ftype (din (nodes s child)) \<noteq> SFS_TYPE_DIR \<or> old = new \<or> blocks (din (nodes s child)) \<le> SFS_DIR_DOTDOT_SLOT
     then (Err E_INVAL, s)
     else sfs_dirent_replace_nolock child SFS_DIR_DOTDOT_SLOT old new dotdot s)"

fun empty_loop :: "nat \<Rightarrow> nat list \<Rightarrow> sfs_fs \<Rightarrow> bool outcome \<times> sfs_fs" where
  "empty_loop i [] s = (Ok True, s)"
| "empty_loop i (k # ks) s = (
     case sfs_dirent_read_nolock i k s of
       (Ok e, s) \<Rightarrow> if e_ino e \<noteq> 0 then (Ok False, s) else empty_loop i ks s
     | (Err x, s) \<Rightarrow> (Ok False, s)
     | (Fault, s) \<Rightarrow> (Fault, s))"

definition sfs_dir_empty_nolock :: "nat \<Rightarrow> sfs_fs \<Rightarrow> bool outcome \<times> sfs_fs" where
  "sfs_dir_empty_nolock i s = empty_loop i [SFS_DIR_FIRST_ENTRY..<blocks (din (nodes s i))] s"

fun getdirentry_loop :: "nat \<Rightarrow> nat list \<Rightarrow> nat \<Rightarrow> sfs_fs \<Rightarrow> u8 list outcome \<times> sfs_fs" where
  "getdirentry_loop i [] slot s = (Err E_NOENT, s)"
| "getdirentry_loop i (k # ks) slot s =
     sbind (sfs_dirent_read_nolock i k s) (\<lambda>e s.
       if e_ino e \<noteq> 0
       then if slot = 0 then (Ok (e_name e), s) else getdirentry_loop i ks (slot - 1) s
       else getdirentry_loop i ks slot s)"

definition sfs_getdirentry_sub_nolock :: "nat \<Rightarrow> nat \<Rightarrow> sfs_fs \<Rightarrow> u8 list outcome \<times> sfs_fs" where
  "sfs_getdirentry_sub_nolock i slot s = getdirentry_loop i [0..<blocks (din (nodes s i))] slot s"

section \<open>The name space\<close>

definition sfs_lookup_once :: "nat \<Rightarrow> u8 list \<Rightarrow> sfs_fs \<Rightarrow> nat outcome \<times> sfs_fs" where
  "sfs_lookup_once i name s = (
     case sfs_dirent_search_nolock i name s of
       ((Ok (slot, ino), _), s) \<Rightarrow> sfs_load_inode ino s
     | ((Err e, _), s) \<Rightarrow> (Err e, s)
     | ((Fault, _), s) \<Rightarrow> (Fault, s))"

definition sfs_lookup :: "nat \<Rightarrow> u8 list \<Rightarrow> sfs_fs \<Rightarrow> nat outcome \<times> sfs_fs" where
  "sfs_lookup i path s = (
     if path = [] \<or> hd path = slash then (Fault, s)
     else let s = inode_ref_inc i s in
       if ftype (din (nodes s i)) \<noteq> SFS_TYPE_DIR
       then sbind (inode_ref_dec i s) (\<lambda>_ s. (Err E_NOTDIR, s))
       else case sfs_lookup_once i path s of
         (Fault, s) \<Rightarrow> (Fault, s)
       | (r, s) \<Rightarrow> sbind (inode_ref_dec i s) (\<lambda>_ s. (r, s)))"

text \<open>The walk over the parents of a directory makes at most as many steps as the file system has blocks.\<close>

fun reaches_loop :: "nat \<Rightarrow> nat \<Rightarrow> nat \<Rightarrow> sfs_fs \<Rightarrow> bool outcome \<times> sfs_fs" where
  "reaches_loop 0 cursor target s = sbind (inode_ref_dec cursor s) (\<lambda>_ s. (Ok False, s))"
| "reaches_loop (Suc n) cursor target s = (
     if cursor = target then sbind (inode_ref_dec cursor s) (\<lambda>_ s. (Ok True, s))
     else case sfs_lookup_once cursor dotdot s of
       (Ok parent, s) \<Rightarrow>
         sbind (inode_ref_dec cursor s) (\<lambda>_ s.
         if parent = cursor then sbind (inode_ref_dec parent s) (\<lambda>_ s. (Ok False, s))
         else reaches_loop n parent target s)
     | (Err e, s) \<Rightarrow> sbind (inode_ref_dec cursor s) (\<lambda>_ s. (Ok False, s))
     | (Fault, s) \<Rightarrow> (Fault, s))"

definition sfs_dir_reaches :: "nat \<Rightarrow> nat \<Rightarrow> sfs_fs \<Rightarrow> bool outcome \<times> sfs_fs" where
  "sfs_dir_reaches start target s = reaches_loop (sblocks s) start target (inode_ref_inc start s)"

definition sfs_new_inode :: "nat \<Rightarrow> sfs_fs \<Rightarrow> nat outcome \<times> sfs_fs" where
  "sfs_new_inode t s =
     sbind (sfs_block_alloc s) (\<lambda>i s.
       let d = \<lparr>fsize = 0, ftype = t, nlinks = 0, blocks = 0, direct = replicate SFS_NDIRECT 0, indirect = 0\<rparr>;
           undo = (\<lambda>e s. sbind (sfs_block_free i s) (\<lambda>_ s. (Err e, s)))
       in case kmalloc_ok s of
         (False, s) \<Rightarrow> undo E_NO_MEM s
       | (True, s) \<Rightarrow>
           (case sfs_wbuf (encode_inode d) i 0 s of
              (Err e, s) \<Rightarrow> undo e s
            | (Fault, s) \<Rightarrow> (Fault, s)
            | (Ok _, s) \<Rightarrow>
                (case sfs_create_inode d i s of
                   (Err e, s) \<Rightarrow> undo e s
                 | (Fault, s) \<Rightarrow> (Fault, s)
                 | (Ok _, s) \<Rightarrow> (Ok i, sfs_set_links i s))))"

definition plain_name :: "u8 list \<Rightarrow> bool" where
  "plain_name name \<longleftrightarrow> valid_name name \<and> name \<noteq> dot \<and> name \<noteq> dotdot"

text \<open>The result of a handler that drops its reference to a node before it returns.\<close>

definition drop_node :: "nat option \<Rightarrow> 'a outcome \<times> sfs_fs \<Rightarrow> 'a outcome \<times> sfs_fs" where
  "drop_node node m = (
     case (node, m) of
       (Some i, (Fault, s)) \<Rightarrow> (Fault, s)
     | (Some i, (r, s)) \<Rightarrow> sbind (inode_ref_dec i s) (\<lambda>_ s. (r, s))
     | (None, m) \<Rightarrow> m)"

definition sfs_create :: "nat \<Rightarrow> u8 list \<Rightarrow> sfs_fs \<Rightarrow> nat outcome \<times> sfs_fs" where
  "sfs_create dir name s = (
     if \<not> plain_name name then (Err E_INVAL, s)
     else if ftype (din (nodes s dir)) \<noteq> SFS_TYPE_DIR then (Err E_NOTDIR, s)
     else case sfs_dirent_search_nolock dir name s of
       ((Ok _, _), s) \<Rightarrow> (Err E_EXISTS, s)
     | ((Fault, _), s) \<Rightarrow> (Fault, s)
     | ((Err e, slot), s) \<Rightarrow>
         if e \<noteq> E_NOENT then (Err e, s)
         else sbind (sfs_new_inode SFS_TYPE_FILE s) (\<lambda>node s.
           case sfs_dirent_link_nolock dir slot node name s of
             (Ok _, s) \<Rightarrow> (Ok node, s)
           | (Err e, s) \<Rightarrow> drop_node (Some node) (Err e, s)
           | (Fault, s) \<Rightarrow> (Fault, s)))"

text \<open>The undo steps of \<open>sfs_mkdir\<close> ignore the results of the calls.\<close>

definition try_unlink :: "nat \<Rightarrow> nat \<Rightarrow> nat \<Rightarrow> 'a outcome \<Rightarrow> sfs_fs \<Rightarrow> 'a outcome \<times> sfs_fs" where
  "try_unlink dir slot target r s = (
     case sfs_dirent_unlink_nolock dir slot target s of (Fault, s) \<Rightarrow> (Fault, s) | (_, s) \<Rightarrow> (r, s))"

definition mkdir_links :: "nat \<Rightarrow> nat \<Rightarrow> nat \<Rightarrow> u8 list \<Rightarrow> sfs_fs \<Rightarrow> unit outcome \<times> sfs_fs" where
  "mkdir_links dir slot node name s = (
     case sfs_dirent_link_nolock node SFS_DIR_DOT_SLOT node dot s of
       (Ok _, s) \<Rightarrow>
         (case sfs_dirent_link_nolock node SFS_DIR_DOTDOT_SLOT dir dotdot s of
            (Ok _, s) \<Rightarrow>
              (case sfs_dirent_link_nolock dir slot node name s of
                 (Err e, s) \<Rightarrow>
                   sbind (try_unlink node SFS_DIR_DOTDOT_SLOT dir (Ok ()) s) (\<lambda>_ s.
                   try_unlink node SFS_DIR_DOT_SLOT node (Err e) s)
               | m \<Rightarrow> m)
          | (Err e, s) \<Rightarrow> try_unlink node SFS_DIR_DOT_SLOT node (Err e) s
          | (Fault, s) \<Rightarrow> (Fault, s))
     | m \<Rightarrow> m)"

definition sfs_mkdir :: "nat \<Rightarrow> u8 list \<Rightarrow> sfs_fs \<Rightarrow> unit outcome \<times> sfs_fs" where
  "sfs_mkdir dir name s = (
     if \<not> plain_name name then (Err E_INVAL, s)
     else if ftype (din (nodes s dir)) \<noteq> SFS_TYPE_DIR then (Err E_NOTDIR, s)
     else case sfs_dirent_search_nolock dir name s of
       ((Ok _, _), s) \<Rightarrow> (Err E_EXISTS, s)
     | ((Fault, _), s) \<Rightarrow> (Fault, s)
     | ((Err e, slot), s) \<Rightarrow>
         if e \<noteq> E_NOENT then (Err e, s)
         else sbind (sfs_new_inode SFS_TYPE_DIR s) (\<lambda>node s.
           drop_node (Some node) (mkdir_links dir slot node name s)))"

definition sfs_link :: "nat \<Rightarrow> u8 list \<Rightarrow> nat \<Rightarrow> sfs_fs \<Rightarrow> unit outcome \<times> sfs_fs" where
  "sfs_link dir name target s = (
     if \<not> valid_name name then (Err E_INVAL, s)
     else if ftype (din (nodes s dir)) \<noteq> SFS_TYPE_DIR then (Err E_NOTDIR, s)
     else if ftype (din (nodes s target)) = SFS_TYPE_DIR then (Err E_INVAL, s)
     else case sfs_dirent_search_nolock dir name s of
       ((Ok _, _), s) \<Rightarrow> (Err E_EXISTS, s)
     | ((Fault, _), s) \<Rightarrow> (Fault, s)
     | ((Err e, slot), s) \<Rightarrow>
         if e \<noteq> E_NOENT then (Err e, s) else sfs_dirent_link_nolock dir slot target name s)"

text \<open>The part that \<open>sfs_unlink\<close> and \<open>sfs_rmdir\<close> share: the entry goes, and with it the two entries of a directory.\<close>

definition remove_entry :: "nat \<Rightarrow> nat \<Rightarrow> nat \<Rightarrow> sfs_fs \<Rightarrow> unit outcome \<times> sfs_fs" where
  "remove_entry dir slot target s =
     sbind (sfs_dirent_unlink_nolock dir slot target s) (\<lambda>_ s.
       if ftype (din (nodes s target)) = SFS_TYPE_DIR
       then sbind (try_unlink target SFS_DIR_DOTDOT_SLOT dir (Ok ()) s) (\<lambda>_ s.
         try_unlink target SFS_DIR_DOT_SLOT target (Ok ()) s)
       else (Ok (), s))"

definition sfs_unlink :: "nat \<Rightarrow> u8 list \<Rightarrow> sfs_fs \<Rightarrow> unit outcome \<times> sfs_fs" where
  "sfs_unlink dir name s = (
     if \<not> plain_name name then (Err E_INVAL, s)
     else if ftype (din (nodes s dir)) \<noteq> SFS_TYPE_DIR then (Err E_NOTDIR, s)
     else case sfs_dirent_search_nolock dir name s of
       ((Err e, _), s) \<Rightarrow> (Err e, s)
     | ((Fault, _), s) \<Rightarrow> (Fault, s)
     | ((Ok (slot, ino), _), s) \<Rightarrow>
         sbind (sfs_load_inode ino s) (\<lambda>target s.
           drop_node (Some target) (
             if ftype (din (nodes s target)) = SFS_TYPE_DIR
             then sbind (sfs_dir_empty_nolock target s) (\<lambda>e s.
               if e then remove_entry dir slot target s else (Err E_NOTEMPTY, s))
             else remove_entry dir slot target s)))"

definition sfs_rmdir :: "nat \<Rightarrow> u8 list \<Rightarrow> sfs_fs \<Rightarrow> unit outcome \<times> sfs_fs" where
  "sfs_rmdir dir name s = (
     if \<not> plain_name name then (Err E_INVAL, s)
     else if ftype (din (nodes s dir)) \<noteq> SFS_TYPE_DIR then (Err E_NOTDIR, s)
     else case sfs_dirent_search_nolock dir name s of
       ((Err e, _), s) \<Rightarrow> (Err e, s)
     | ((Fault, _), s) \<Rightarrow> (Fault, s)
     | ((Ok (slot, ino), _), s) \<Rightarrow>
         sbind (sfs_load_inode ino s) (\<lambda>target s.
           drop_node (Some target) (
             if ftype (din (nodes s target)) \<noteq> SFS_TYPE_DIR then (Err E_NOTDIR, s)
             else sbind (sfs_dir_empty_nolock target s) (\<lambda>e s.
               if e then remove_entry dir slot target s else (Err E_NOTEMPTY, s)))))"

definition sfs_symlink :: "nat \<Rightarrow> u8 list \<Rightarrow> u8 list \<Rightarrow> sfs_fs \<Rightarrow> unit outcome \<times> sfs_fs" where
  "sfs_symlink dir name target s = (
     if \<not> plain_name name then (Err E_INVAL, s)
     else if length target > SFS_MAX_FILE_SIZE then (Err E_TOO_BIG, s)
     else if ftype (din (nodes s dir)) \<noteq> SFS_TYPE_DIR then (Err E_NOTDIR, s)
     else case sfs_dirent_search_nolock dir name s of
       ((Ok _, _), s) \<Rightarrow> (Err E_EXISTS, s)
     | ((Fault, _), s) \<Rightarrow> (Fault, s)
     | ((Err e, slot), s) \<Rightarrow>
         if e \<noteq> E_NOENT then (Err e, s)
         else sbind (sfs_new_inode SFS_TYPE_LINK s) (\<lambda>node s.
           drop_node (Some node) (
             case sfs_io_nolock True node target 0 (length target) s of
               ((Ok _, _, _), s) \<Rightarrow> sfs_dirent_link_nolock dir slot node name s
             | ((Err e, _, _), s) \<Rightarrow> (Err e, s)
             | ((Fault, _, _), s) \<Rightarrow> (Fault, s))))"

definition rename_across :: "nat \<Rightarrow> nat \<Rightarrow> u8 list \<Rightarrow> nat \<Rightarrow> nat \<Rightarrow> u8 list \<Rightarrow> nat \<Rightarrow> sfs_fs \<Rightarrow>
    unit outcome \<times> sfs_fs" where
  "rename_across old old_slot old_name new new_slot new_name target s =
     sbind (sfs_dirent_link_nolock new new_slot target new_name s) (\<lambda>_ s.
       case sfs_dirent_unlink_nolock old old_slot target s of
         (Err e, s) \<Rightarrow> try_unlink new new_slot target (Err e) s
       | (Fault, s) \<Rightarrow> (Fault, s)
       | (Ok _, s) \<Rightarrow>
           if ftype (din (nodes s target)) = SFS_TYPE_DIR
           then case sfs_dirent_set_parent_nolock target old new s of
                  (Err e, s) \<Rightarrow>
                    sbind (try_unlink new new_slot target (Ok ()) s) (\<lambda>_ s.
                    case sfs_dirent_link_nolock old old_slot target old_name s of
                      (Fault, s) \<Rightarrow> (Fault, s) | (_, s) \<Rightarrow> (Err e, s))
                | m \<Rightarrow> m
           else (Ok (), s))"

definition sfs_rename :: "nat \<Rightarrow> u8 list \<Rightarrow> nat \<Rightarrow> u8 list \<Rightarrow> sfs_fs \<Rightarrow> unit outcome \<times> sfs_fs" where
  "sfs_rename old old_name new new_name s = (
     if \<not> plain_name old_name \<or> \<not> plain_name new_name then (Err E_INVAL, s)
     else if ftype (din (nodes s old)) \<noteq> SFS_TYPE_DIR \<or> ftype (din (nodes s new)) \<noteq> SFS_TYPE_DIR
     then (Err E_NOTDIR, s)
     else case sfs_dirent_search_nolock old old_name s of
       ((Err e, _), s) \<Rightarrow> (Err e, s)
     | ((Fault, _), s) \<Rightarrow> (Fault, s)
     | ((Ok (old_slot, ino), _), s) \<Rightarrow>
         sbind (sfs_load_inode ino s) (\<lambda>target s.
         sbind (if new \<noteq> old \<and> ftype (din (nodes s target)) = SFS_TYPE_DIR then sfs_dir_reaches new target s
                else (Ok False, s)) (\<lambda>cycle s.
           drop_node (Some target) (
             if old = new \<and> old_name = new_name then (Ok (), s)
             else if cycle then (Err E_INVAL, s)
             else case sfs_dirent_search_nolock new new_name s of
               ((Ok _, _), s) \<Rightarrow> (Err E_EXISTS, s)
             | ((Fault, _), s) \<Rightarrow> (Fault, s)
             | ((Err e, new_slot), s) \<Rightarrow>
                 if e \<noteq> E_NOENT then (Err e, s)
                 else if old = new
                 then sbind (sfs_bmap_get_nolock old old_slot False s) (\<lambda>b s.
                   sfs_wbuf (encode_entry target new_name) b 0 s)
                 else rename_across old old_slot old_name new new_slot new_name target s))))"

end
