(* ===== verification/Sfs_Map.thy ===== *)
theory Sfs_Map
  imports Sfs
begin

text \<open>
  The block maps of the simple file system.  \<open>fs_wf\<close> says that the free map and the counters of the file system fit
  together, \<open>file_wf\<close> that the block map of a file is sound; \<open>content\<close> is the file as a function from
  positions to bytes.  Loading and creating blocks keep them, and
  \<open>frame\<close> says what an operation on one file leaves alone.
\<close>

section \<open>Well-formed file systems\<close>

abbreviation avail :: "sfs_fs \<Rightarrow> nat set" where
  "avail s \<equiv> free_bits (freemap s)"

definition fs_wf :: "sfs_fs \<Rightarrow> bool" where
  "fs_wf s \<longleftrightarrow> bitmap_wf (freemap s) \<and> sblocks s \<le> nbits (freemap s) \<and> avail s \<subseteq> {0<..<sblocks s} \<and>
     unused_blocks s = card (avail s) \<and> sblocks s \<le> d_blocks s \<and> sblocks s \<le> 2 ^ 19 \<and> (\<forall>b < sblocks s. \<not> bad s b)"

lemma fs_wfD:
  assumes "fs_wf s"
  shows "bitmap_wf (freemap s)" "sblocks s \<le> nbits (freemap s)" "avail s \<subseteq> {0<..<sblocks s}"
    "unused_blocks s = card (avail s)" "sblocks s \<le> d_blocks s" "sblocks s \<le> 2 ^ 19" "b < sblocks s \<Longrightarrow> \<not> bad s b"
  using assms unfolding fs_wf_def by simp_all

lemma iob_block_small:
  assumes "b < 2 ^ 19"
  shows "iob_block b = b"
proof -
  have "(int b * 4096 + 2 ^ 31) mod 2 ^ 32 = int b * 4096 + 2 ^ 31"
    using assms by (intro mod_pos_pos_trivial) simp_all
  moreover have "int b mod 2 ^ 32 = int b"
    using assms by (intro mod_pos_pos_trivial) simp_all
  ultimately show ?thesis
    by (simp add: iob_block_def)
qed

lemma transfer_ok:
  assumes "fs_wf s" and "0 < b" and "b < sblocks s"
  shows "sfs_rwblock_nolock b True s = Ok b"
proof -
  have b: "b < 2 ^ 19" "iob_block b = b"
    using fs_wfD(6) [OF assms(1)] assms(3) iob_block_small by simp_all
  moreover have "(b + 1) mod 2 ^ 32 = b + 1" "\<not> d_blocks s < b + 1"
    using b(1) fs_wfD(5) [OF assms(1)] assms(3) by simp_all
  ultimately show ?thesis
    using assms fs_wfD(7) [OF assms(1,3)] by (simp add: sfs_rwblock_nolock_def disk0_io_def)
qed

lemma rbuf_ok:
  assumes "fs_wf s" "0 < b" "b < sblocks s" "off < SFS_BLKSIZE" "off + len \<le> SFS_BLKSIZE"
  shows "sfs_rbuf len b off s = Ok (map (disk s b) [off..<off + len])"
  using assms by (simp add: sfs_rbuf_def transfer_ok)

definition patch :: "(nat \<Rightarrow> u8) \<Rightarrow> nat \<Rightarrow> u8 list \<Rightarrow> nat \<Rightarrow> u8" where
  "patch f off bs k = (if off \<le> k \<and> k < off + length bs then bs ! (k - off) else f k)"

lemma wbuf_ok:
  assumes "fs_wf s" "0 < b" "b < sblocks s" "off < SFS_BLKSIZE" "off + length bs \<le> SFS_BLKSIZE"
  shows "sfs_wbuf bs b off s = (Ok (), s\<lparr>disk := (disk s)(b := patch (disk s b) off bs)\<rparr>)"
proof -
  have "patch (disk s b) off bs = (\<lambda>k. if off \<le> k \<and> k < off + length bs then bs ! (k - off) else disk s b k)"
    by (simp add: patch_def fun_eq_iff)
  then show ?thesis
    using assms by (simp add: sfs_wbuf_def write_block_def transfer_ok)
qed

lemma rblock_ok:
  assumes "fs_wf s" "0 < b" "b < sblocks s"
  shows "sfs_rblock b (Suc 0) s = Ok (map (disk s b) [0..<SFS_BLKSIZE])"
  using assms by (simp add: transfer_ok)

lemma wblock_ok:
  assumes "fs_wf s" "0 < b" "b < sblocks s"
  shows "sfs_wblock buf b (Suc 0) s = (Ok (), s\<lparr>disk := (disk s)(b := \<lambda>k. buf ! k)\<rparr>)"
  using assms by (simp add: write_block_def transfer_ok)

lemma fs_wf_upd [simp]:
  "fs_wf (s\<lparr>disk := f\<rparr>) = fs_wf s" "fs_wf (s\<lparr>nodes := g\<rparr>) = fs_wf s" "fs_wf (s\<lparr>kmem_left := ks\<rparr>) = fs_wf s"
  "fs_wf (s\<lparr>inode_list := xs\<rparr>) = fs_wf s" "fs_wf (upd_node i h s) = fs_wf s" "fs_wf (upd_din i j s) = fs_wf s"
  "fs_wf (set_dirty i s) = fs_wf s"
  by (simp_all add: fs_wf_def upd_node_def upd_din_def set_dirty_def)

lemma inuse_iff:
  assumes "fs_wf s" "0 < b" "b < sblocks s"
  shows "sfs_block_inuse b s = Ok (b \<notin> avail s)"
  using assms fs_wfD(2) [OF assms(1)] by (simp add: sfs_block_inuse_def bitmap_test_free)

lemma alloc_ok:
  assumes wf: "fs_wf s"
  shows "(avail s = {} \<and> sfs_block_alloc s = (Err E_NO_MEM, s)) \<or>
    (\<exists>b t. sfs_block_alloc s = (Ok b, t) \<and> b \<in> avail s \<and> fs_wf t \<and> avail t = avail s - {b} \<and>
       t = s\<lparr>freemap := freemap t, unused_blocks := unused_blocks t, super_dirty := True, disk := (disk s)(b := \<lambda>_. 0)\<rparr>)"
proof (cases "avail s = {}")
  case True
  then show ?thesis
    using freemap.alloc_none [OF fs_wfD(1) [OF wf] True] by (simp add: sfs_block_alloc_def)
next
  case False
  let ?b = "Min (avail s)"
  obtain fm where fm: "bitmap_alloc (freemap s) = (Ok ?b, fm)" "bitmap_wf fm" "nbits fm = nbits (freemap s)"
      "free_bits fm = avail s - {?b}"
    using freemap.alloc_some [OF fs_wfD(1) [OF wf] False] by blast
  have fin: "finite (avail s)"
    using freemap.finite_avail [OF fs_wfD(1) [OF wf]] .
  then have b: "?b \<in> avail s"
    using False by simp
  then have range: "0 < ?b" "?b < sblocks s"
    using fs_wfD(3) [OF wf] by auto
  define u where "u = s\<lparr>freemap := fm, unused_blocks := unused_blocks s - 1, super_dirty := True\<rparr>"
  have "unused_blocks s - 1 = card (avail s - {?b})"
    using fs_wfD(4) [OF wf] b fin by simp
  then have u: "fs_wf u"
    using wf fm unfolding fs_wf_def u_def by auto
  have pos: "unused_blocks s \<noteq> 0"
    using fs_wfD(4) [OF wf] b fin by auto
  have "sfs_block_inuse ?b u = Ok True"
    using inuse_iff [OF u, of ?b] range fm(4) by (simp add: u_def)
  moreover have "sfs_clear_block ?b 1 u = (Ok (), u\<lparr>disk := (disk u)(?b := \<lambda>_. 0)\<rparr>)"
    using transfer_ok [OF u, of ?b] range by (simp add: write_block_def u_def)
  ultimately have "sfs_block_alloc s = (Ok ?b, u\<lparr>disk := (disk u)(?b := \<lambda>_. 0)\<rparr>)"
    using fm(1) pos by (simp add: sfs_block_alloc_def Let_def u_def)
  then show ?thesis
    using b u fm(4) by (intro disjI2 exI [of _ ?b] exI [of _ "u\<lparr>disk := (disk u)(?b := \<lambda>_. 0)\<rparr>"]) (simp add: u_def)
qed

lemma free_ok:
  assumes wf: "fs_wf s" and b: "0 < b" "b < sblocks s" "b \<notin> avail s"
  shows "\<exists>t. sfs_block_free b s = (Ok (), t) \<and> fs_wf t \<and> avail t = insert b (avail s) \<and>
    t = s\<lparr>freemap := freemap t, unused_blocks := unused_blocks t, super_dirty := True\<rparr>"
proof -
  have "b < nbits (freemap s)"
    using fs_wfD(2) [OF wf] b(2) by simp
  then obtain fm where fm: "bitmap_free b (freemap s) = (Ok (), fm)" "bitmap_wf fm" "nbits fm = nbits (freemap s)"
      "free_bits fm = insert b (avail s)"
    using freemap.release_ok [OF fs_wfD(1) [OF wf] _ b(3)] by blast
  let ?t = "s\<lparr>freemap := fm, unused_blocks := unused_blocks s + 1, super_dirty := True\<rparr>"
  have "fs_wf ?t"
    using wf fm b freemap.finite_avail [OF fs_wfD(1) [OF wf]] unfolding fs_wf_def by auto
  moreover have "sfs_block_free b s = (Ok (), ?t)"
    using inuse_iff [OF wf b(1,2)] b(3) fm(1) by (simp add: sfs_block_free_def)
  ultimately show ?thesis
    using fm(4) by (intro exI [of _ ?t]) simp
qed

section \<open>Numbers on the disk\<close>

lemma length_put [simp]: "length (put16 n) = 2" "length (put32 n) = 4"
  by (simp_all add: put16_def put32_def)

lemma unat_byte: "unat (of_nat n :: u8) = n mod 256"
  by (simp add: unat_of_nat)

lemma byte_sum: "(n :: nat) < 2 ^ 32 \<Longrightarrow>
   n mod 256 + 256 * (n div 256 mod 256) + 65536 * (n div 65536 mod 256) + 16777216 * (n div 16777216 mod 256) = n"
proof -
  assume n: "n < 2 ^ 32"
  define a b c where "a = n div 256" and "b = a div 256" and "c = b div 256"
  have dv: "n div 65536 = b" "n div 16777216 = c"
    by (simp_all add: a_def b_def c_def div_mult2_eq [symmetric])
  have "c mod 256 = c"
    using n by (simp add: a_def b_def c_def div_mult2_eq [symmetric])
  moreover have "n = a * 256 + n mod 256" "a = b * 256 + a mod 256" "b = c * 256 + b mod 256"
    by (simp_all add: a_def b_def c_def)
  ultimately show ?thesis
    unfolding a_def [symmetric] dv by linarith
qed

lemma get_put32: "n < 2 ^ 32 \<Longrightarrow> get32 (put32 n @ bs) 0 = n"
  using byte_sum [of n] by (simp add: get32_def put32_def unat_byte del: unat_of_nat)

text \<open>Entry \<open>j\<close> of an indirect block.\<close>

definition entry :: "(nat \<Rightarrow> u8) \<Rightarrow> nat \<Rightarrow> nat" where
  "entry f j = get32 (map f [j * 4..<j * 4 + 4]) 0"

lemma upt4: "[j..<j + 4] = [j, j + 1, j + 2, j + 3]"
  by (simp add: upt_conv_Cons numeral_eq_Suc)

lemma entry_cong: "(\<And>k. j * 4 \<le> k \<Longrightarrow> k < j * 4 + 4 \<Longrightarrow> f k = g k) \<Longrightarrow> entry f j = entry g j"
  unfolding entry_def by (rule arg_cong [of _ _ "\<lambda>bs. get32 bs 0"], rule map_cong) auto

lemma entry_zero [simp]: "entry (\<lambda>_. 0) j = 0"
  by (simp add: entry_def get32_def upt4)

lemma entry_patch:
  assumes "n < 2 ^ 32"
  shows "entry (patch f (j * 4) (put32 n)) k = (if k = j then n else entry f k)"
proof (cases "k = j")
  case True
  have "map (patch f (j * 4) (put32 n)) [j * 4..<j * 4 + 4] = put32 n"
    by (simp add: upt4 patch_def put32_def)
  then show ?thesis
    using True get_put32 [OF assms, of "[]"] by (simp add: entry_def)
next
  case False
  then have "entry (patch f (j * 4) (put32 n)) k = entry f k"
    by (intro entry_cong) (auto simp: patch_def)
  then show ?thesis
    using False by simp
qed

section \<open>The block map\<close>

definition fmap :: "sfs_fs \<Rightarrow> nat \<Rightarrow> nat \<Rightarrow> nat" where
  "fmap s i k = (let d = din (nodes s i) in
     if k < SFS_NDIRECT then direct d ! k
     else if k < SFS_NDIRECT + SFS_BLK_NENTRY \<and> indirect d \<noteq> 0 then entry (disk s (indirect d)) (k - SFS_NDIRECT)
     else 0)"

abbreviation file_blocks :: nat where "file_blocks \<equiv> 1036"

definition owned :: "sfs_fs \<Rightarrow> nat \<Rightarrow> nat set" where
  "owned s i = (fmap s i ` {..<blocks (din (nodes s i))} \<union> {indirect (din (nodes s i))}) - {0}"

definition file_wf :: "sfs_fs \<Rightarrow> nat \<Rightarrow> bool" where
  "file_wf s i \<longleftrightarrow> (let d = din (nodes s i) in
     length (direct d) = SFS_NDIRECT \<and> blocks d \<le> file_blocks \<and>
     (\<forall>k < blocks d. fmap s i k \<noteq> 0) \<and> (\<forall>k \<ge> blocks d. k < file_blocks \<longrightarrow> fmap s i k = 0) \<and>
     inj_on (fmap s i) {..<blocks d} \<and> indirect d \<notin> fmap s i ` {..<blocks d} \<and>
     owned s i \<subseteq> {0<..<sblocks s} - avail s)"

lemma file_wfD:
  assumes "file_wf s i"
  shows "length (direct (din (nodes s i))) = SFS_NDIRECT" "blocks (din (nodes s i)) \<le> file_blocks"
    "k < blocks (din (nodes s i)) \<Longrightarrow> fmap s i k \<noteq> 0"
    "blocks (din (nodes s i)) \<le> k \<Longrightarrow> k < file_blocks \<Longrightarrow> fmap s i k = 0"
    "inj_on (fmap s i) {..<blocks (din (nodes s i))}"
    "k < blocks (din (nodes s i)) \<Longrightarrow> fmap s i k \<noteq> indirect (din (nodes s i))"
    "k < blocks (din (nodes s i)) \<Longrightarrow> 0 < fmap s i k \<and> fmap s i k < sblocks s \<and> fmap s i k \<notin> avail s"
    "indirect (din (nodes s i)) \<noteq> 0 \<Longrightarrow>
      indirect (din (nodes s i)) < sblocks s \<and> indirect (din (nodes s i)) \<notin> avail s"
    "owned s i \<subseteq> {0<..<sblocks s} - avail s"
proof -
  let ?d = "din (nodes s i)"
  have wf: "length (direct ?d) = SFS_NDIRECT" "blocks ?d \<le> file_blocks" "\<forall>k < blocks ?d. fmap s i k \<noteq> 0"
      "\<forall>k \<ge> blocks ?d. k < file_blocks \<longrightarrow> fmap s i k = 0" "inj_on (fmap s i) {..<blocks ?d}"
      "indirect ?d \<notin> fmap s i ` {..<blocks ?d}" "owned s i \<subseteq> {0<..<sblocks s} - avail s"
    using assms unfolding file_wf_def Let_def by simp_all
  then show "length (direct ?d) = SFS_NDIRECT" "blocks ?d \<le> file_blocks" "k < blocks ?d \<Longrightarrow> fmap s i k \<noteq> 0"
      "blocks ?d \<le> k \<Longrightarrow> k < file_blocks \<Longrightarrow> fmap s i k = 0" "inj_on (fmap s i) {..<blocks ?d}"
      "owned s i \<subseteq> {0<..<sblocks s} - avail s"
    by simp_all
  show "k < blocks ?d \<Longrightarrow> fmap s i k \<noteq> indirect ?d"
    using wf(6) by (metis imageI lessThan_iff)
  have "fmap s i k \<in> owned s i" if "k < blocks ?d"
    using that wf(3) unfolding owned_def by auto
  then show "k < blocks ?d \<Longrightarrow> 0 < fmap s i k \<and> fmap s i k < sblocks s \<and> fmap s i k \<notin> avail s"
    using wf(7) by auto
  have "indirect ?d \<in> owned s i" if "indirect ?d \<noteq> 0"
    using that unfolding owned_def by simp
  then show "indirect ?d \<noteq> 0 \<Longrightarrow> indirect ?d < sblocks s \<and> indirect ?d \<notin> avail s"
    using wf(7) by auto
qed

lemma fmap_range: "file_wf s i \<Longrightarrow> k < file_blocks \<Longrightarrow> fmap s i k \<noteq> 0 \<Longrightarrow> k < blocks (din (nodes s i))"
  using file_wfD(4) [of s i k] by (meson not_le)

definition content :: "sfs_fs \<Rightarrow> nat \<Rightarrow> nat \<Rightarrow> u8" where
  "content s i k = (
     if k < blocks (din (nodes s i)) * SFS_BLKSIZE
     then disk s (fmap s i (k div SFS_BLKSIZE)) (k mod SFS_BLKSIZE) else 0)"

text \<open>
  What an operation on file \<open>i\<close> leaves alone: the other inodes, and every block that is in use and not
  owned by the file.  No block gets lost: what was free or owned by the file still is.
\<close>

definition frame :: "nat \<Rightarrow> sfs_fs \<Rightarrow> sfs_fs \<Rightarrow> bool" where
  "frame i s t \<longleftrightarrow> (\<forall>j. j \<noteq> i \<longrightarrow> nodes t j = nodes s j) \<and>
     (\<forall>b. b \<notin> avail s \<and> b \<notin> owned s i \<longrightarrow> b \<notin> avail t \<and> disk t b = disk s b) \<and>
     avail t \<union> owned t i = avail s \<union> owned s i \<and>
     sblocks t = sblocks s \<and> inode_list t = inode_list s \<and> kmem_left t = kmem_left s \<and>
     ftype (din (nodes t i)) = ftype (din (nodes s i)) \<and> nlinks (din (nodes t i)) = nlinks (din (nodes s i))"

lemma frame_refl [simp]: "frame i s s"
  unfolding frame_def by simp

lemma frameD:
  assumes "frame i s t"
  shows "j \<noteq> i \<Longrightarrow> nodes t j = nodes s j" "b \<notin> avail s \<Longrightarrow> b \<notin> owned s i \<Longrightarrow> b \<notin> avail t \<and> disk t b = disk s b"
    "owned t i \<subseteq> owned s i \<union> avail s" "avail t \<subseteq> avail s \<union> owned s i" "sblocks t = sblocks s"
    "inode_list t = inode_list s" "kmem_left t = kmem_left s"
    "ftype (din (nodes t i)) = ftype (din (nodes s i))" "nlinks (din (nodes t i)) = nlinks (din (nodes s i))"
    "avail t \<union> owned t i = avail s \<union> owned s i"
  using assms unfolding frame_def by blast+

lemma frame_trans:
  assumes st: "frame i s t" and tu: "frame i t u"
  shows "frame i s u"
proof -
  have "b \<notin> avail u \<and> disk u b = disk s b" if "b \<notin> avail s" "b \<notin> owned s i" for b
    using frameD(2) [OF st that] frameD(3) [OF st] frameD(2) [OF tu, of b] that by auto
  then show ?thesis
    using st tu unfolding frame_def by simp
qed

text \<open>The number of blocks of a file, with its indirect block.\<close>

lemma card_owned:
  assumes "file_wf s i"
  shows "card (owned s i) = blocks (din (nodes s i)) + (if indirect (din (nodes s i)) = 0 then 0 else 1)"
proof -
  let ?d = "din (nodes s i)"
  have "0 \<notin> fmap s i ` {..<blocks ?d}" "indirect ?d \<notin> fmap s i ` {..<blocks ?d}"
    using file_wfD(3,6) [OF assms] by (metis imageE lessThan_iff)+
  then have "owned s i = fmap s i ` {..<blocks ?d} \<union> (if indirect ?d = 0 then {} else {indirect ?d})"
    "fmap s i ` {..<blocks ?d} \<inter> (if indirect ?d = 0 then {} else {indirect ?d}) = {}"
    unfolding owned_def by auto
  then show ?thesis
    using card_image [OF file_wfD(5) [OF assms]] by (simp add: card_Un_disjoint)
qed

text \<open>
  \<open>disk_full s i\<close>: file \<open>i\<close> cannot get another block, because no block is free, or just one while the file
  still needs its indirect block.
\<close>

definition disk_full :: "sfs_fs \<Rightarrow> nat \<Rightarrow> bool" where
  "disk_full s i \<longleftrightarrow> card (avail s) + card (owned s i) \<le> blocks (din (nodes s i)) + 1"

lemma frame_card:
  assumes "frame i s t" "fs_wf s" "fs_wf t" "file_wf s i" "file_wf t i"
  shows "card (avail s) + card (owned s i) = card (avail t) + card (owned t i)"
proof -
  have fin: "finite (avail s)" "finite (owned s i)" "finite (avail t)" "finite (owned t i)"
    using fs_wfD(3) assms(2,3) file_wfD(9) [OF assms(4)] file_wfD(9) [OF assms(5)]
    by (meson finite_Diff finite_greaterThanLessThan finite_subset)+
  have "avail s \<inter> owned s i = {}" "avail t \<inter> owned t i = {}"
    using file_wfD(9) [OF assms(4)] file_wfD(9) [OF assms(5)] by auto
  then show ?thesis
    using frameD(10) [OF assms(1)] card_Un_disjoint [OF fin(1,2)] card_Un_disjoint [OF fin(3,4)] by simp
qed

text \<open>Where a full disk stops an operation, the blocks that were free did not suffice.\<close>

lemma full_shortage:
  assumes "frame i s t" "fs_wf s" "fs_wf t" "file_wf s i" "file_wf t i" "disk_full t i"
  shows "card (avail s) + blocks (din (nodes s i)) \<le> blocks (din (nodes t i)) + 1"
  using frame_card [OF assms(1-5)] assms(6) card_owned [OF assms(4)] unfolding disk_full_def by simp

text \<open>A second file that shares no block with the first is not affected.\<close>

lemma kept_file:
  assumes wf: "file_wf s j" and node: "nodes t j = nodes s j" "sblocks t = sblocks s"
    and same: "\<And>b. b \<in> owned s j \<Longrightarrow> b \<notin> avail t \<and> disk t b = disk s b"
  shows "file_wf t j" "content t j = content s j" "owned t j = owned s j"
proof -
  let ?d = "din (nodes s j)"
  have ind: "disk t (indirect ?d) = disk s (indirect ?d)" if "indirect ?d \<noteq> 0"
    using same that unfolding owned_def by simp
  have f: "fmap t j = fmap s j"
    by (rule ext) (simp add: fmap_def node Let_def ind)
  show o: "owned t j = owned s j"
    unfolding owned_def node f ..
  show "content t j = content s j"
  proof
    fix k
    have "fmap s j (k div SFS_BLKSIZE) \<in> owned s j" if "k < blocks ?d * SFS_BLKSIZE"
      using that file_wfD(3) [OF wf, of "k div SFS_BLKSIZE"] unfolding owned_def by (auto simp: less_mult_imp_div_less)
    then show "content t j k = content s j k"
      using same unfolding content_def node f by simp
  qed
  have "owned s j \<subseteq> {0<..<sblocks t} - avail t"
    using same file_wfD(9) [OF wf] node(2) by auto
  then show "file_wf t j"
    using wf unfolding file_wf_def Let_def node f o by simp
qed

lemma frame_other:
  assumes fr: "frame i s t" and wf: "file_wf s j" and ij: "i \<noteq> j" and disj: "owned s i \<inter> owned s j = {}"
  shows "file_wf t j" "content t j = content s j" "owned t j = owned s j" "owned t i \<inter> owned t j = {}"
proof -
  have same: "b \<notin> avail t \<and> disk t b = disk s b" if "b \<in> owned s j" for b
    using frameD(2) [OF fr, of b] that disj file_wfD(9) [OF wf] by blast
  have node: "nodes t j = nodes s j"
    using frameD(1) [OF fr] ij by simp
  note kept = kept_file [OF wf node frameD(5) [OF fr] same]
  then show "file_wf t j" "content t j = content s j" "owned t j = owned s j"
    by simp_all
  show "owned t i \<inter> owned t j = {}"
    using kept(3) disj frameD(3) [OF fr] file_wfD(9) [OF wf] by blast
qed

section \<open>Loading and creating blocks\<close>

lemma node_simps [simp]:
  "nodes (upd_node i f s) = (nodes s)(i := f (nodes s i))"
  "nodes (upd_din i g s) = (nodes s)(i := (nodes s i)\<lparr>din := g (din (nodes s i))\<rparr>)"
  "nodes (set_dirty i s) = (nodes s)(i := (nodes s i)\<lparr>dirty := True\<rparr>)"
  "disk (upd_node i f s) = disk s" "disk (upd_din i g s) = disk s" "disk (set_dirty i s) = disk s"
  "freemap (upd_node i f s) = freemap s" "freemap (upd_din i g s) = freemap s" "freemap (set_dirty i s) = freemap s"
  "sblocks (upd_node i f s) = sblocks s" "sblocks (upd_din i g s) = sblocks s" "sblocks (set_dirty i s) = sblocks s"
  "inode_list (upd_node i f s) = inode_list s" "inode_list (upd_din i g s) = inode_list s"
  "inode_list (set_dirty i s) = inode_list s" "kmem_left (upd_node i f s) = kmem_left s"
  "kmem_left (upd_din i g s) = kmem_left s" "kmem_left (set_dirty i s) = kmem_left s"
  by (simp_all add: upd_node_def upd_din_def set_dirty_def)

lemma get_old:
  assumes wf: "fs_wf s" "file_wf s i" and n: "n < blocks (din (nodes s i))"
  shows "sfs_bmap_get_nolock i n create s = (Ok (fmap s i n), s)"
proof -
  let ?d = "din (nodes s i)"
  have b: "0 < fmap s i n" "fmap s i n < sblocks s" "fmap s i n \<notin> avail s"
    using file_wfD(7) [OF wf(2) n] by simp_all
  have out: "bmap_out (fmap s i n) s = (Ok (fmap s i n), s)"
    using inuse_iff [OF wf(1) b(1,2)] b(3) by (simp add: bmap_out_def)
  show ?thesis
  proof (cases "n < SFS_NDIRECT")
    case True
    then show ?thesis
      using out b(1) by (simp add: sfs_bmap_get_nolock_def Let_def fmap_def)
  next
    case False
    have small: "n < file_blocks"
      using n file_wfD(2) [OF wf(2)] by simp
    have ind: "indirect ?d \<noteq> 0"
      using b(1) False by (auto simp: fmap_def Let_def split: if_splits)
    have f: "fmap s i n = entry (disk s (indirect ?d)) (n - SFS_NDIRECT)"
      using False small ind by (simp add: fmap_def Let_def)
    have "sfs_rbuf 4 (indirect ?d) ((n - SFS_NDIRECT) * 4) s =
        Ok (map (disk s (indirect ?d)) [(n - SFS_NDIRECT) * 4..<(n - SFS_NDIRECT) * 4 + 4])"
      using file_wfD(8) [OF wf(2) ind] ind small by (intro rbuf_ok [OF wf(1)]) auto
    then have "sfs_bmap_get_sub_nolock (indirect ?d) (n - SFS_NDIRECT) create s = (Ok (indirect ?d, fmap s i n), s)"
      using ind small b(1) f by (simp add: sfs_bmap_get_sub_nolock_def entry_def)
    then show ?thesis
      using False small out by (simp add: sfs_bmap_get_nolock_def Let_def)
  qed
qed

lemma load_old:
  assumes wf: "fs_wf s" "file_wf s i" and n: "n < blocks (din (nodes s i))"
  shows "sfs_bmap_load_nolock i n s = (Ok (fmap s i n), s)"
  using get_old [OF assms, of False] file_wfD(7) [OF wf(2) n] inuse_iff [OF wf(1), of "fmap s i n"] n
  by (simp add: sfs_bmap_load_nolock_def Let_def)

text \<open>A change outside the blocks in use does not concern the file.\<close>

lemma same_file:
  assumes wf: "file_wf s i" and t: "nodes t = nodes s" "avail t = avail s" "sblocks t = sblocks s"
    "inode_list t = inode_list s" "kmem_left t = kmem_left s" "\<forall>b. b \<notin> avail s \<longrightarrow> disk t b = disk s b"
  shows "file_wf t i" "content t i = content s i" "frame i s t" "owned t i = owned s i"
proof -
  have ind: "disk t (indirect (din (nodes s i))) = disk s (indirect (din (nodes s i)))" if "indirect (din (nodes s i)) \<noteq> 0"
    using file_wfD(8) [OF wf that] t(6) by simp
  have f: "fmap t i = fmap s i"
    by (rule ext) (simp add: fmap_def t(1) Let_def ind)
  show o: "owned t i = owned s i"
    unfolding owned_def t(1) f ..
  show "file_wf t i"
    using wf unfolding file_wf_def t(1-3) f o .
  show "frame i s t"
    unfolding frame_def o using t by auto
  show "content t i = content s i"
  proof
    fix k
    show "content t i k = content s i k"
      using file_wfD(7) [OF wf, of "k div SFS_BLKSIZE"] t(6) unfolding content_def t(1) f
      by (simp add: less_mult_imp_div_less)
  qed
qed

text \<open>A fresh block, filled with zeros, at the end of the file.\<close>

lemma new_block:
  assumes wf: "fs_wf s" "file_wf s i" and n: "n = blocks (din (nodes s i))" "n < file_blocks"
    and t: "\<forall>j. j \<noteq> i \<longrightarrow> nodes t j = nodes s j" "sblocks t = sblocks s" "inode_list t = inode_list s"
      "kmem_left t = kmem_left s" "ftype (din (nodes t i)) = ftype (din (nodes s i))"
      "nlinks (din (nodes t i)) = nlinks (din (nodes s i))" "length (direct (din (nodes t i))) = SFS_NDIRECT"
      "blocks (din (nodes t i)) = n + 1"
    and f: "\<forall>k < file_blocks. fmap t i k = (if k = n then b else fmap s i k)" and b: "b \<in> avail s" "disk t b = (\<lambda>_. 0)"
    and e: "b \<noteq> indirect (din (nodes t i))"
      "indirect (din (nodes t i)) = indirect (din (nodes s i)) \<or>
       indirect (din (nodes s i)) = 0 \<and> indirect (din (nodes t i)) \<in> avail s"
    and a: "avail t = avail s - {b, indirect (din (nodes t i))}"
    and d: "\<forall>x. x \<notin> avail s \<and> (x = indirect (din (nodes s i)) \<longrightarrow> x = 0) \<longrightarrow> disk t x = disk s x"
  shows "file_wf t i \<and> content t i = content s i \<and> frame i s t"
proof -
  let ?e = "indirect (din (nodes t i))" and ?ind = "indirect (din (nodes s i))"
  have fs: "fmap t i k = fmap s i k" if "k < n" for k
    using f that n(2) by simp
  have fb: "fmap t i n = b"
    using f n(2) by simp
  have free: "avail s \<subseteq> {0<..<sblocks s}"
    using fs_wfD(3) [OF wf(1)] .
  have old: "0 < fmap s i k" "fmap s i k < sblocks s" "fmap s i k \<notin> avail s" "fmap s i k \<noteq> ?ind" if "k < n" for k
    using file_wfD(6,7) [OF wf(2), of k] that n(1) by simp_all
  have img: "fmap t i ` {..<n + 1} = insert b (fmap s i ` {..<n})"
    using fs fb image_cong [of "{..<n}" "{..<n}" "fmap t i" "fmap s i"] by (simp add: lessThan_Suc)
  have own: "owned t i = insert b (fmap s i ` {..<n}) \<union> {?e} - {0}"
    unfolding owned_def t(8) img ..
  have ow: "owned s i = fmap s i ` {..<n} \<union> {?ind} - {0}"
    unfolding owned_def n(1) ..
  have inj: "inj_on (fmap t i) {..<n + 1}"
  proof -
    have "inj_on (fmap t i) {..<n}"
      using file_wfD(5) [OF wf(2)] fs n(1) by (simp add: inj_on_def)
    moreover have "b \<notin> fmap t i ` {..<n}"
      using old(3) fs b(1) by auto
    ultimately show ?thesis
      using fb by (simp add: lessThan_Suc)
  qed
  have e0: "?ind \<notin> avail s"
    using file_wfD(8) [OF wf(2)] free by auto
  have "?e \<noteq> fmap s i k" if "k < n" for k
    using e(2) old(3,4) [OF that] by metis
  then have en: "?e \<notin> fmap t i ` {..<n + 1}"
    unfolding img using e(1) by auto
  have range: "owned t i \<subseteq> {0<..<sblocks t} - avail t"
    unfolding own a t(2) using b(1) free old e file_wfD(8) [OF wf(2)] by auto
  have nz: "fmap t i k \<noteq> 0" if "k < n + 1" for k
    using that old(1) fs fb b(1) free by (cases "k = n") auto
  have "fmap t i k = 0" if "n + 1 \<le> k" "k < file_blocks" for k
    using f that file_wfD(4) [OF wf(2), of k] n(1) by simp
  then have new_wf: "file_wf t i"
    unfolding file_wf_def Let_def t(7,8) using n(2) nz inj en range by simp
  have new_content: "content t i = content s i"
  proof
    fix k
    have "content t i k = content s i k" if "k div SFS_BLKSIZE < n"
      using that fs [OF that] old [OF that] d unfolding content_def t(8) n(1) [symmetric]
      by (simp add: div_less_iff_less_mult)
    moreover have "content t i k = 0 \<and> content s i k = 0" if "\<not> k div SFS_BLKSIZE < n"
    proof -
      have "k div SFS_BLKSIZE = n" if "k < (n + 1) * SFS_BLKSIZE"
        using that \<open>\<not> k div SFS_BLKSIZE < n\<close> less_mult_imp_div_less [OF that] by simp
      then show ?thesis
        using that fb b(2) unfolding content_def t(8) n(1) [symmetric]
        by (auto simp: div_less_iff_less_mult)
    qed
    ultimately show "content t i k = content s i k"
      by metis
  qed
  have "x \<notin> avail t \<and> disk t x = disk s x" if "x \<notin> avail s" "x \<notin> owned s i" for x
  proof -
    have "x = ?ind \<longrightarrow> x = 0"
      using that(2) unfolding owned_def by auto
    then show ?thesis
      using that(1) d a by simp
  qed
  moreover have "avail t \<union> owned t i = avail s \<union> owned s i"
    unfolding own a ow using b(1) e free by auto
  ultimately have "frame i s t"
    unfolding frame_def using t by simp
  then show ?thesis
    using new_wf new_content by simp
qed


lemma avail_range: "fs_wf s \<Longrightarrow> b \<in> avail s \<Longrightarrow> 0 < b \<and> b < sblocks s \<and> b < 2 ^ 32"
  using fs_wfD(3,6) [of s] by auto

lemma out_ok:
  assumes "fs_wf s" "0 < b" "b < sblocks s" "b \<notin> avail s"
  shows "bmap_out b s = (Ok b, s)" "sfs_block_inuse b s = Ok True"
  using assms inuse_iff [OF assms(1-3)] by (simp_all add: bmap_out_def)

text \<open>What \<open>sfs_bmap_load_nolock\<close> promises: the block is there, the bytes of the file are as before.\<close>

definition load_spec :: "nat \<Rightarrow> nat \<Rightarrow> sfs_fs \<Rightarrow> nat outcome \<times> sfs_fs \<Rightarrow> bool" where
  "load_spec i n s m \<longleftrightarrow> (let (r, t) = m in
     fs_wf t \<and> file_wf t i \<and> frame i s t \<and> content t i = content s i \<and>
     fsize (din (nodes t i)) = fsize (din (nodes s i)) \<and>
     (case r of
        Ok b \<Rightarrow> b = fmap t i n \<and> blocks (din (nodes t i)) = max (blocks (din (nodes s i))) (n + 1)
      | Err e \<Rightarrow> e = E_NO_MEM \<and> n = blocks (din (nodes s i)) \<and> blocks (din (nodes t i)) = n \<and> disk_full t i
      | Fault \<Rightarrow> False))"

lemma load_direct:
  assumes wf: "fs_wf s" "file_wf s i" and n: "n = blocks (din (nodes s i))" "n < SFS_NDIRECT"
  shows "load_spec i n s (sfs_bmap_load_nolock i n s)"
proof -
  let ?d = "din (nodes s i)"
  have zero: "direct ?d ! n = 0"
    using file_wfD(4) [OF wf(2), of n] n by (simp add: fmap_def Let_def)
  consider (none) "avail s = {}" "sfs_block_alloc s = (Err E_NO_MEM, s)"
    | (some) b u where "sfs_block_alloc s = (Ok b, u)" "b \<in> avail s" "fs_wf u" "avail u = avail s - {b}"
        "u = s\<lparr>freemap := freemap u, unused_blocks := unused_blocks u, super_dirty := True, disk := (disk s)(b := \<lambda>_. 0)\<rparr>"
    using alloc_ok [OF wf(1)] by blast
  then show ?thesis
  proof cases
    case none
    then show ?thesis
      using zero n wf card_owned [OF wf(2)]
      by (simp add: load_spec_def disk_full_def sfs_bmap_load_nolock_def sfs_bmap_get_nolock_def Let_def)
  next
    case some
    define v where "v = set_dirty i (upd_din i (\<lambda>d. d\<lparr>direct := (direct d)[n := b]\<rparr>) u)"
    define t where "t = upd_din i (\<lambda>d. d\<lparr>blocks := blocks d + 1\<rparr>) v"
    have u: "nodes u = nodes s" "disk u = (disk s)(b := \<lambda>_. 0)" "sblocks u = sblocks s"
        "inode_list u = inode_list s" "kmem_left u = kmem_left s"
      by (subst some(5), simp)+
    have b: "0 < b" "b < sblocks s"
      using avail_range [OF wf(1) some(2)] by simp_all
    have v: "fs_wf v" "sblocks v = sblocks s" "avail v = avail s - {b}"
      using some(3,4) u(3) by (simp_all add: v_def)
    have out: "bmap_out b v = (Ok b, v)" "sfs_block_inuse b v = Ok True"
      using out_ok [OF v(1), of b] b v by simp_all
    have "sfs_bmap_get_nolock i n True s = (Ok b, v)"
      using some(1) zero n(2) out(1) by (simp add: sfs_bmap_get_nolock_def Let_def v_def [symmetric])
    then have "sfs_bmap_load_nolock i n s = (Ok b, t)"
      using n(1) out(2) by (simp add: sfs_bmap_load_nolock_def Let_def t_def)
    moreover have "fs_wf t"
      using v(1) by (simp add: t_def)
    moreover have ind: "indirect ?d \<notin> avail s" "indirect ?d \<noteq> b"
      using file_wfD(8) [OF wf(2)] fs_wfD(3) [OF wf(1)] some(2) by auto
    then have f: "\<forall>k < file_blocks. fmap t i k = (if k = n then b else fmap s i k)"
      using n file_wfD(1) [OF wf(2)] u by (auto simp: fmap_def Let_def t_def v_def nth_list_update)
    have new: "file_wf t i \<and> content t i = content s i \<and> frame i s t"
      by (rule new_block [OF wf n(1) _ _ _ _ _ _ _ _ _ f])
        (use ind some(2,4) u n file_wfD(1) [OF wf(2)] in \<open>auto simp: t_def v_def\<close>)
    ultimately show ?thesis
      using f n u by (simp add: load_spec_def t_def v_def max_def)
  qed
qed


text \<open>Two states that differ only in the free map, the counters and the contents of blocks.\<close>

definition alloc_step :: "sfs_fs \<Rightarrow> sfs_fs \<Rightarrow> bool" where
  "alloc_step s t \<longleftrightarrow> fs_wf t \<and> nodes t = nodes s \<and> sblocks t = sblocks s \<and> inode_list t = inode_list s \<and>
     kmem_left t = kmem_left s"

lemma alloc_stepD:
  assumes "alloc_step s t"
  shows "fs_wf t" "nodes t = nodes s" "sblocks t = sblocks s" "inode_list t = inode_list s" "kmem_left t = kmem_left s"
  using assms unfolding alloc_step_def by simp_all

lemma alloc_step_trans: "alloc_step s t \<Longrightarrow> alloc_step t u \<Longrightarrow> alloc_step s u"
  unfolding alloc_step_def by simp

lemma block_alloc_cases:
  assumes "fs_wf s"
  obtains (none) "avail s = {}" "sfs_block_alloc s = (Err E_NO_MEM, s)"
    | (some) b t where "sfs_block_alloc s = (Ok b, t)" "b \<in> avail s" "alloc_step s t" "avail t = avail s - {b}"
        "disk t = (disk s)(b := \<lambda>_. 0)"
proof (cases "avail s = {}")
  case False
  then obtain b t where t: "sfs_block_alloc s = (Ok b, t)" "b \<in> avail s" "fs_wf t" "avail t = avail s - {b}"
      "t = s\<lparr>freemap := freemap t, unused_blocks := unused_blocks t, super_dirty := True, disk := (disk s)(b := \<lambda>_. 0)\<rparr>"
    using alloc_ok [OF assms] by blast
  have "nodes t = nodes s" "disk t = (disk s)(b := \<lambda>_. 0)" "sblocks t = sblocks s"
      "inode_list t = inode_list s" "kmem_left t = kmem_left s"
    by (subst t(5), simp)+
  then show thesis
    using some t(1-4) unfolding alloc_step_def by blast
qed (use none alloc_ok [OF assms] in blast)

lemma free_step:
  assumes "fs_wf s" "0 < b" "b < sblocks s" "b \<notin> avail s"
  obtains t where "sfs_block_free b s = (Ok (), t)" "alloc_step s t" "avail t = insert b (avail s)" "disk t = disk s"
proof -
  obtain t where t: "sfs_block_free b s = (Ok (), t)" "fs_wf t" "avail t = insert b (avail s)"
      "t = s\<lparr>freemap := freemap t, unused_blocks := unused_blocks t, super_dirty := True\<rparr>"
    using free_ok [OF assms] by blast
  have "nodes t = nodes s" "disk t = disk s" "sblocks t = sblocks s" "inode_list t = inode_list s"
      "kmem_left t = kmem_left s"
    by (subst t(4), simp)+
  then show thesis
    using that t(1-3) unfolding alloc_step_def by blast
qed

lemma new_entry:
  assumes wf: "fs_wf u" and ent: "0 < ent" "ent < sblocks u" "ent \<notin> avail u" and j: "j < SFS_BLK_NENTRY"
  obtains (none) t where "bmap_new_entry entp ent j u = (Err E_NO_MEM, t)" "alloc_step u t" "disk t = disk u" "avail u = {}"
      "avail t = (if ent \<noteq> entp then insert ent (avail u) else avail u)"
    | (some) b t where "bmap_new_entry entp ent j u = (Ok (ent, b), t)" "b \<in> avail u" "alloc_step u t"
        "avail t = avail u - {b}" "disk t = (disk u)(b := \<lambda>_. 0, ent := patch (disk u ent) (j * 4) (put32 b))"
  using wf
proof (cases rule: block_alloc_cases)
  case none
  obtain t where "sfs_block_free ent u = (Ok (), t)" "alloc_step u t" "avail t = insert ent (avail u)" "disk t = disk u"
    using free_step [OF wf ent] .
  note t = this
  show thesis
  proof (cases "ent = entp")
    case True
    show thesis
      by (rule that(1) [of u]) (use none wf True in \<open>simp_all add: bmap_new_entry_def Let_def alloc_step_def\<close>)
  next
    case False
    show thesis
      by (rule that(1) [OF _ t(2,4)]) (use none False t in \<open>simp_all add: bmap_new_entry_def Let_def\<close>)
  qed
next
  case (some b t)
  let ?v = "t\<lparr>disk := (disk t)(ent := patch (disk t ent) (j * 4) (put32 b))\<rparr>"
  note t = alloc_stepD [OF some(3)]
  have "sfs_wbuf (put32 b) ent (j * 4) t = (Ok (), ?v)"
    using ent t(3) j by (intro wbuf_ok [OF t(1)]) simp_all
  then have "bmap_new_entry entp ent j u = (Ok (ent, b), ?v)"
    using some(1) by (simp add: bmap_new_entry_def Let_def)
  moreover have "alloc_step u ?v"
    using t unfolding alloc_step_def by simp
  moreover have "ent \<noteq> b"
    using some(2) ent(3) by auto
  then have "disk ?v = (disk u)(b := \<lambda>_. 0, ent := patch (disk u ent) (j * 4) (put32 b))"
    by (simp add: some(5))
  ultimately show thesis
    using some(2,4) by (intro that(2) [of b ?v]) simp_all
qed

text \<open>From the result of the search in the indirect block to the result of \<open>sfs_bmap_load_nolock\<close>.\<close>

lemma load_finish:
  assumes wf: "fs_wf s" "file_wf s i" and n: "n = blocks (din (nodes s i))" "n < file_blocks" "\<not> n < SFS_NDIRECT"
    and sub: "sfs_bmap_get_sub_nolock (indirect (din (nodes s i))) (n - SFS_NDIRECT) True s = (Ok (e, b), u)"
    and u: "alloc_step s u" "avail u = avail s - {b, e}" "b \<in> avail s" "b \<noteq> e" "disk u b = (\<lambda>_. 0)"
    and e: "e = indirect (din (nodes s i)) \<and> e \<noteq> 0 \<or> indirect (din (nodes s i)) = 0 \<and> e \<in> avail s"
    and d: "\<forall>x. x \<notin> avail s \<and> (x = indirect (din (nodes s i)) \<longrightarrow> x = 0) \<longrightarrow> disk u x = disk s x"
      "\<forall>k. entry (disk u e) k = (if k = n - SFS_NDIRECT then b
         else if e = indirect (din (nodes s i)) then entry (disk s e) k else 0)"
  shows "load_spec i n s (sfs_bmap_load_nolock i n s)"
proof -
  let ?ind = "indirect (din (nodes s i))"
  define v where "v = (if e \<noteq> ?ind then set_dirty i (upd_din i (\<lambda>d. d\<lparr>indirect := e\<rparr>) u) else u)"
  define t where "t = upd_din i (\<lambda>d. d\<lparr>blocks := blocks d + 1\<rparr>) v"
  note us = alloc_stepD [OF u(1)]
  have b: "0 < b" "b < sblocks s"
    using avail_range [OF wf(1) u(3)] by simp_all
  have e0: "0 < e"
    using e avail_range [OF wf(1), of e] by auto
  have v: "fs_wf v" "sblocks v = sblocks s" "avail v = avail s - {b, e}"
    using us u(2) by (simp_all add: v_def)
  have out: "bmap_out b v = (Ok b, v)" "sfs_block_inuse b v = Ok True"
    using out_ok [OF v(1), of b] b v by simp_all
  have "sfs_bmap_get_nolock i n True s = (Ok b, v)"
    using sub n(2,3) out(1) e by (auto simp: sfs_bmap_get_nolock_def Let_def v_def)
  then have "sfs_bmap_load_nolock i n s = (Ok b, t)"
    using n(1) out(2) by (simp add: sfs_bmap_load_nolock_def Let_def t_def)
  moreover have "fs_wf t"
    using v(1) by (simp add: t_def)
  moreover have t: "indirect (din (nodes t i)) = e" "direct (din (nodes t i)) = direct (din (nodes s i))" "disk t = disk u"
      "blocks (din (nodes t i)) = n + 1" "fsize (din (nodes t i)) = fsize (din (nodes s i))"
    using us(2) n(1) by (simp_all add: t_def v_def)
  have old: "fmap s i k = (if e = ?ind then entry (disk s e) (k - SFS_NDIRECT) else 0)"
    if "\<not> k < SFS_NDIRECT" "k < file_blocks" for k
    using that e e0 by (auto simp: fmap_def Let_def)
  have f: "\<forall>k < file_blocks. fmap t i k = (if k = n then b else fmap s i k)"
  proof (intro allI impI)
    fix k assume k: "k < file_blocks"
    show "fmap t i k = (if k = n then b else fmap s i k)"
    proof (cases "k < SFS_NDIRECT")
      case True
      then show ?thesis
        using n(3) by (auto simp: fmap_def Let_def t)
    next
      case False
      then have "fmap t i k = entry (disk u e) (k - SFS_NDIRECT)"
        using k e0 by (simp add: fmap_def Let_def t)
      moreover have "k - SFS_NDIRECT = n - SFS_NDIRECT \<longleftrightarrow> k = n"
        using False n(3) by auto
      ultimately show ?thesis
        using d(2) old [OF False k] by simp
    qed
  qed
  have new: "file_wf t i \<and> content t i = content s i \<and> frame i s t"
    by (rule new_block [OF wf n(1,2) _ _ _ _ _ _ _ _ f u(3)])
      (use u us t e d(1) file_wfD(1) [OF wf(2)] in \<open>auto simp: t_def v_def\<close>)
  ultimately show ?thesis
    using f n t by (simp add: load_spec_def max_def)
qed


lemma load_failed:
  assumes wf: "file_wf s i" and n: "n = blocks (din (nodes s i))" "n < file_blocks" "\<not> n < SFS_NDIRECT"
    and sub: "sfs_bmap_get_sub_nolock (indirect (din (nodes s i))) (n - SFS_NDIRECT) True s = (Err E_NO_MEM, t)"
    and t: "alloc_step s t" "avail t = avail s" "\<forall>b. b \<notin> avail s \<longrightarrow> disk t b = disk s b"
    and full: "disk_full s i"
  shows "load_spec i n s (sfs_bmap_load_nolock i n s)"
proof -
  have "sfs_bmap_get_nolock i n True s = (Err E_NO_MEM, t)"
    using sub n(2,3) by (simp add: sfs_bmap_get_nolock_def Let_def)
  then have "sfs_bmap_load_nolock i n s = (Err E_NO_MEM, t)"
    using n(1) by (simp add: sfs_bmap_load_nolock_def Let_def)
  then show ?thesis
    using same_file [OF wf alloc_stepD(2) [OF t(1)] t(2) alloc_stepD(3-5) [OF t(1)] t(3)] alloc_stepD [OF t(1)]
      full t(2) n(1) by (simp add: load_spec_def disk_full_def)
qed

lemma load_indirect:
  assumes wf: "fs_wf s" "file_wf s i" and n: "n = blocks (din (nodes s i))" "n < file_blocks" "\<not> n < SFS_NDIRECT"
    and ind: "indirect (din (nodes s i)) \<noteq> 0"
  shows "load_spec i n s (sfs_bmap_load_nolock i n s)"
proof -
  let ?e = "indirect (din (nodes s i))" and ?j = "n - SFS_NDIRECT"
  have e: "?e < sblocks s" "?e \<notin> avail s" "0 < ?e"
    using file_wfD(8) [OF wf(2) ind] ind by simp_all
  have j: "?j < SFS_BLK_NENTRY"
    using n(2,3) by simp
  have "entry (disk s ?e) ?j = 0"
    using file_wfD(4) [OF wf(2), of n] n ind by (simp add: fmap_def Let_def)
  moreover have "sfs_rbuf 4 ?e (?j * 4) s = Ok (map (disk s ?e) [?j * 4..<?j * 4 + 4])"
    using e j by (intro rbuf_ok [OF wf(1)]) auto
  ultimately have sub: "sfs_bmap_get_sub_nolock ?e ?j True s = bmap_new_entry ?e ?e ?j s"
    using j ind by (simp add: sfs_bmap_get_sub_nolock_def entry_def)
  show ?thesis
    using wf(1) e(3,1,2) j
  proof (cases rule: new_entry [where entp = ?e])
    case (none t)
    then show ?thesis
      using card_owned [OF wf(2)] by (intro load_failed [OF wf(2) n, of t]) (simp_all add: sub disk_full_def)
  next
    case (some b t)
    have be: "b \<noteq> ?e" "b < 2 ^ 32"
      using some(2) e(2) avail_range [OF wf(1)] by auto
    show ?thesis
    proof (rule load_finish [OF wf n, of ?e b t])
      show "\<forall>k. entry (disk t ?e) k = (if k = ?j then b else if ?e = ?e then entry (disk s ?e) k else 0)"
        using be by (simp add: some(5) entry_patch)
    qed (use some be e ind in \<open>auto simp: sub\<close>)
  qed
qed

lemma load_first_indirect:
  assumes wf: "fs_wf s" "file_wf s i" and n: "n = blocks (din (nodes s i))" "n < file_blocks" "\<not> n < SFS_NDIRECT"
    and ind: "indirect (din (nodes s i)) = 0"
  shows "load_spec i n s (sfs_bmap_load_nolock i n s)"
  using wf(1)
proof (cases rule: block_alloc_cases)
  case none
  show ?thesis
    by (rule load_failed [OF wf(2) n, of s])
      (use none n ind wf card_owned [OF wf(2)] in \<open>auto simp: sfs_bmap_get_sub_nolock_def alloc_step_def disk_full_def\<close>)
next
  case (some e u)
  let ?j = "n - SFS_NDIRECT"
  note u = alloc_stepD [OF some(3)]
  have e: "0 < e" "e < sblocks u" "e \<notin> avail u"
    using avail_range [OF wf(1) some(2)] u(3) some(4) by simp_all
  have j: "?j < SFS_BLK_NENTRY"
    using n(2,3) by simp
  have sub: "sfs_bmap_get_sub_nolock (indirect (din (nodes s i))) ?j True s = bmap_new_entry 0 e ?j u"
    using j ind some(1) by (simp add: sfs_bmap_get_sub_nolock_def)
  show ?thesis
    using u(1) e j
  proof (cases rule: new_entry [where entp = 0])
    case (none t)
    then have one: "avail s = {e}"
      using some(2,4) by auto
    from none show ?thesis
      using some(2,4,5) e(1) card_owned [OF wf(2)] ind one
      by (intro load_failed [OF wf(2) n, of t]) (auto simp: sub sub [unfolded ind] disk_full_def intro: alloc_step_trans [OF some(3)])
  next
    case (some b t)
    have be: "b \<noteq> e" "b < 2 ^ 32" "b \<in> avail s"
      using some(2) e(3) avail_range [OF u(1)] \<open>avail u = avail s - {e}\<close> by auto
    show ?thesis
    proof (rule load_finish [OF wf n, of e b t])
      show "\<forall>k. entry (disk t e) k = (if k = ?j then b
          else if e = indirect (din (nodes s i)) then entry (disk s e) k else 0)"
        using be e(1) ind by (simp add: some(5) entry_patch \<open>disk u = (disk s)(e := \<lambda>_. 0)\<close>)
      show "alloc_step s t"
        using alloc_step_trans [OF \<open>alloc_step s u\<close> some(3)] .
      show "avail t = avail s - {b, e}"
        unfolding some(4) \<open>avail u = avail s - {e}\<close> by auto
      show "\<forall>x. x \<notin> avail s \<and> (x = indirect (din (nodes s i)) \<longrightarrow> x = 0) \<longrightarrow> disk t x = disk s x"
        using be(3) \<open>e \<in> avail s\<close> by (auto simp: some(5) \<open>disk u = (disk s)(e := \<lambda>_. 0)\<close>)
      show "sfs_bmap_get_sub_nolock (indirect (din (nodes s i))) ?j True s = (Ok (e, b), t)"
        unfolding sub some(1) ..
    qed (use be some(5) ind \<open>e \<in> avail s\<close> in simp_all)
  qed
qed

lemma load_ok:
  assumes wf: "fs_wf s" "file_wf s i" and n: "n \<le> blocks (din (nodes s i))" "n < file_blocks"
  shows "load_spec i n s (sfs_bmap_load_nolock i n s)"
proof (cases "n = blocks (din (nodes s i))")
  case True
  then show ?thesis
    using load_direct [OF wf True] load_indirect [OF wf True n(2)] load_first_indirect [OF wf True n(2)]
    by (cases "n < SFS_NDIRECT"; cases "indirect (din (nodes s i)) = 0") simp_all
next
  case False
  then have "n < blocks (din (nodes s i))"
    using n(1) by simp
  then show ?thesis
    using load_old [OF wf] wf by (simp add: load_spec_def max_def)
qed

end
