(* ===== verification/Sfs_File.thy ===== *)
theory Sfs_File
  imports Sfs_Map
begin

text \<open>
  Reading, writing and truncating files of the simple file system, in terms of the bytes of the file.
\<close>

section \<open>Patches\<close>

lemma patch_nil [simp]: "patch f p [] = f"
  by (auto simp: patch_def fun_eq_iff)

lemma patch_patch: "patch (patch f p bs) (p + length bs) cs = patch f p (bs @ cs)"
  by (auto simp: patch_def fun_eq_iff nth_append)

abbreviation nblocks :: "sfs_fs \<Rightarrow> nat \<Rightarrow> nat" where
  "nblocks s i \<equiv> blocks (din (nodes s i))"

text \<open>A range inside one block, by the number of the block and the offset in it.\<close>

lemma block_range:
  assumes "off + len \<le> SFS_BLKSIZE"
  shows "n * SFS_BLKSIZE + off \<le> k \<and> k < n * SFS_BLKSIZE + off + len \<longleftrightarrow>
    k div SFS_BLKSIZE = n \<and> off \<le> k mod SFS_BLKSIZE \<and> k mod SFS_BLKSIZE < off + len"
proof -
  define q r where "q = k div SFS_BLKSIZE" and "r = k mod SFS_BLKSIZE"
  have k: "k = q * SFS_BLKSIZE + r" "r < SFS_BLKSIZE"
    by (simp_all add: q_def r_def)
  consider "q = n" | "q + 1 \<le> n" | "n + 1 \<le> q"
    by linarith
  then show ?thesis
  proof cases
    case 1
    then show ?thesis
      unfolding q_def [symmetric] r_def [symmetric] using k by auto
  next
    case 2
    then have "(q + 1) * SFS_BLKSIZE \<le> n * SFS_BLKSIZE"
      by (rule mult_le_mono1)
    then show ?thesis
      unfolding q_def [symmetric] r_def [symmetric] using k 2 by auto
  next
    case 3
    then have "(n + 1) * SFS_BLKSIZE \<le> q * SFS_BLKSIZE"
      by (rule mult_le_mono1)
    then show ?thesis
      unfolding q_def [symmetric] r_def [symmetric] using k 3 assms by auto
  qed
qed

lemma ceil_le: "p \<le> n * SFS_BLKSIZE \<Longrightarrow> (p + SFS_BLKSIZE - 1) div SFS_BLKSIZE \<le> n"
  using less_mult_imp_div_less [of "p + SFS_BLKSIZE - 1" "n + 1" SFS_BLKSIZE] by simp

lemma less_ceil: "k < m \<Longrightarrow> k < (m + SFS_BLKSIZE - 1) div SFS_BLKSIZE * SFS_BLKSIZE"
  by (simp add: div_mult_mod_eq [of "m + SFS_BLKSIZE - 1" SFS_BLKSIZE, symmetric])

section \<open>Writing\<close>

lemma write_to_block:
  assumes wf: "file_wf s i" and n: "n < nblocks s i" and off: "off + length bs \<le> SFS_BLKSIZE"
    and g: "\<forall>k < SFS_BLKSIZE. g k = patch (disk s (fmap s i n)) off bs k"
    and t: "t = s\<lparr>disk := (disk s)(fmap s i n := g)\<rparr>"
  shows "file_wf t i" "frame i s t" "content t i = patch (content s i) (n * SFS_BLKSIZE + off) bs"
proof -
  have f: "fmap t i = fmap s i"
    using file_wfD(6) [OF wf n] by (auto simp: fmap_def Let_def t)
  then have o: "owned t i = owned s i"
    unfolding owned_def by (simp add: t)
  show "file_wf t i"
    using wf unfolding file_wf_def Let_def f o by (simp add: t)
  have "fmap s i n \<in> owned s i"
    using n file_wfD(3) [OF wf n] unfolding owned_def by auto
  then show "frame i s t"
    unfolding frame_def o by (auto simp: t)
  show "content t i = patch (content s i) (n * SFS_BLKSIZE + off) bs"
  proof
    fix k
    let ?q = "k div SFS_BLKSIZE"
    have c: "content t i k = (if k < nblocks s i * SFS_BLKSIZE
        then (if fmap s i ?q = fmap s i n then g else disk s (fmap s i ?q)) (k mod SFS_BLKSIZE) else 0)"
      unfolding content_def f by (simp add: t)
    show "content t i k = patch (content s i) (n * SFS_BLKSIZE + off) bs k"
    proof (cases "?q = n")
      case True
      then have "k < nblocks s i * SFS_BLKSIZE"
        using n by (simp add: div_less_iff_less_mult [symmetric])
      moreover have "k - (n * SFS_BLKSIZE + off) = k mod SFS_BLKSIZE - off"
        using True by (metis diff_diff_left minus_div_mult_eq_mod)
      ultimately show ?thesis
        unfolding c using True g block_range [OF off, of n k] by (simp add: content_def patch_def)
    next
      case False
      have "fmap s i ?q \<noteq> fmap s i n" if "?q < nblocks s i"
        using False that n file_wfD(5) [OF wf] by (auto dest: inj_onD)
      then show ?thesis
        unfolding c using False block_range [OF off, of n k]
        by (auto simp: content_def patch_def less_mult_imp_div_less)
    qed
  qed
qed

text \<open>
  What writing promises: the bytes from position \<open>a0\<close> of the buffer up to position \<open>a\<close> have been written at
  position \<open>p\<close> of the file, and \<open>a\<close> is \<open>a1\<close> unless the disk is full.
\<close>

definition write_spec :: "nat \<Rightarrow> nat \<Rightarrow> u8 list \<Rightarrow> nat \<Rightarrow> nat \<Rightarrow> sfs_fs \<Rightarrow>
    (unit outcome \<times> u8 list \<times> nat) \<times> sfs_fs \<Rightarrow> bool" where
  "write_spec i p buf a0 a1 s m \<longleftrightarrow> (let ((r, buf', a), t) = m in
     fs_wf t \<and> file_wf t i \<and> frame i s t \<and> buf' = buf \<and> a0 \<le> a \<and> a \<le> a1 \<and>
     fsize (din (nodes t i)) = fsize (din (nodes s i)) \<and>
     content t i = patch (content s i) p (take (a - a0) (drop a0 buf)) \<and>
     nblocks t i = max (nblocks s i) ((p + (a - a0) + SFS_BLKSIZE - 1) div SFS_BLKSIZE) \<and>
     (case r of
        Ok _ \<Rightarrow> a = a1
      | Err e \<Rightarrow> e = E_NO_MEM \<and> a < a1 \<and> nblocks t i < (p + (a1 - a0) + SFS_BLKSIZE - 1) div SFS_BLKSIZE \<and> disk_full t i
      | Fault \<Rightarrow> False))"

lemma write_spec_nil:
  assumes "fs_wf s" "file_wf s i" "p \<le> nblocks s i * SFS_BLKSIZE"
  shows "write_spec i p buf a a s ((Ok (), buf, a), s)"
  using assms unfolding write_spec_def by (auto simp: max_def)

lemma write_spec_trans:
  assumes 1: "write_spec i p buf a0 a1 s ((Ok (), buf, a1), t)" and len: "a2 \<le> length buf"
    and 2: "write_spec i (p + (a1 - a0)) buf a1 a2 t m"
  shows "write_spec i p buf a0 a2 s m"
proof -
  obtain r buf' a u where m: "m = ((r, buf', a), u)"
    by (metis surj_pair)
  have a: "a0 \<le> a1" "a1 \<le> a" "a \<le> a2"
    using 1 2 unfolding write_spec_def m by simp_all
  have "take (a1 - a0) (drop a0 buf) @ take (a - a1) (drop a1 buf) = take (a - a0) (drop a0 buf)"
    using a take_add [of "a1 - a0" "a - a1" "drop a0 buf"] by simp
  moreover have "length (take (a1 - a0) (drop a0 buf)) = a1 - a0"
    using a len by simp
  ultimately have "patch (patch c p (take (a1 - a0) (drop a0 buf))) (p + (a1 - a0)) (take (a - a1) (drop a1 buf)) =
      patch c p (take (a - a0) (drop a0 buf))" for c
    using patch_patch [of c p "take (a1 - a0) (drop a0 buf)" "take (a - a1) (drop a1 buf)"] by simp
  moreover have "p + (a1 - a0) + (a - a1) = p + (a - a0)"
    using a by simp
  moreover have "(p + (a1 - a0) + SFS_BLKSIZE - 1) div SFS_BLKSIZE \<le> (p + (a - a0) + SFS_BLKSIZE - 1) div SFS_BLKSIZE"
    using a by (intro div_le_mono) simp
  ultimately show ?thesis
    using 1 2 a frame_trans [of i s t u] unfolding write_spec_def m
    by (cases r) (auto simp: max.assoc max_absorb2)
qed


lemma write_spec_fail:
  assumes "write_spec i p buf a0 a1 s ((Err e, buf', a), t)" "a1 \<le> a2"
  shows "write_spec i p buf a0 a2 s ((Err e, buf', a), t)"
proof -
  have "(p + (a1 - a0) + SFS_BLKSIZE - 1) div SFS_BLKSIZE \<le> (p + (a2 - a0) + SFS_BLKSIZE - 1) div SFS_BLKSIZE"
    using assms(2) by (intro div_le_mono) simp
  then have "nblocks t i < (p + (a2 - a0) + SFS_BLKSIZE - 1) div SFS_BLKSIZE"
    using assms(1) unfolding write_spec_def prod.case Let_def outcome.case by (meson less_le_trans)
  then show ?thesis
    using assms unfolding write_spec_def prod.case Let_def outcome.case by simp
qed

lemma load_then_write:
  assumes wf: "fs_wf s" "file_wf s i" and n: "n \<le> nblocks s i" "n < file_blocks"
    and off: "off + len \<le> SFS_BLKSIZE" "0 < len" "a + len \<le> length buf"
    and p: "p = n * SFS_BLKSIZE + off" "p \<le> nblocks s i * SFS_BLKSIZE"
    and op: "\<And>b t. fs_wf t \<Longrightarrow> 0 < b \<Longrightarrow> b < sblocks t \<Longrightarrow>
      \<exists>g. op b t = (Ok buf, t\<lparr>disk := (disk t)(b := g)\<rparr>) \<and>
        (\<forall>k < SFS_BLKSIZE. g k = patch (disk t b) off (take len (drop a buf)) k)"
  shows "write_spec i p buf a (a + len) s (
     case sbind (sfs_bmap_load_nolock i n s) op of
       (Ok buf, s) \<Rightarrow> ((Ok (), buf, a + len), s)
     | (Err e, s) \<Rightarrow> ((Err e, buf, a), s)
     | (Fault, s) \<Rightarrow> ((Fault, buf, a), s))"
proof -
  obtain r t where l: "sfs_bmap_load_nolock i n s = (r, t)"
    by fastforce
  have t: "fs_wf t" "file_wf t i" "frame i s t" "content t i = content s i"
      "fsize (din (nodes t i)) = fsize (din (nodes s i))"
      "case r of
        Ok b \<Rightarrow> b = fmap t i n \<and> nblocks t i = max (nblocks s i) (n + 1)
      | Err e \<Rightarrow> e = E_NO_MEM \<and> n = nblocks s i \<and> nblocks t i = n \<and> disk_full t i | Fault \<Rightarrow> False"
    using load_ok [OF wf n] unfolding l load_spec_def by simp_all
  have up: "(p + len + SFS_BLKSIZE - 1) div SFS_BLKSIZE = n + 1"
    using off p(1) by (intro div_nat_eqI) simp_all
  show ?thesis
  proof (cases r)
    case (Ok b)
    have nt: "n < nblocks t i" "b = fmap t i n" "nblocks t i = max (nblocks s i) (n + 1)"
      using t(6) Ok by simp_all
    have b: "0 < b" "b < sblocks t"
      using file_wfD(7) [OF t(2) nt(1)] nt(2) by simp_all
    obtain g where g: "op b t = (Ok buf, t\<lparr>disk := (disk t)(b := g)\<rparr>)"
        "\<forall>k < SFS_BLKSIZE. g k = patch (disk t b) off (take len (drop a buf)) k"
      using op [OF t(1) b] by blast
    have len: "length (take len (drop a buf)) = len"
      using off(3) by simp
    let ?u = "t\<lparr>disk := (disk t)(b := g)\<rparr>"
    note w = write_to_block [OF t(2) nt(1) _ g(2) [unfolded nt(2)], of ?u, unfolded len, OF off(1)]
    show ?thesis
      using up w t nt g(1) l Ok p(1) frame_trans [OF t(3) w(2)] by (simp add: write_spec_def)
  next
    case (Err e)
    have "(p + SFS_BLKSIZE - 1) div SFS_BLKSIZE \<le> nblocks s i"
      using p(2) by (rule ceil_le)
    then show ?thesis
      using t l Err up off(2) by (simp add: write_spec_def max_def)
  qed (use t(6) in simp)
qed

lemma write_part:
  assumes wf: "fs_wf s" "file_wf s i" and n: "n \<le> nblocks s i" "n < file_blocks"
    and off: "off + len \<le> SFS_BLKSIZE" "0 < len" "a + len \<le> length buf"
    and p: "p = n * SFS_BLKSIZE + off" "p \<le> nblocks s i * SFS_BLKSIZE"
  shows "write_spec i p buf a (a + len) s (io_part True i n off len buf a s)"
  unfolding io_part_def
proof (rule load_then_write [OF assms])
  fix b t assume t: "fs_wf t" "0 < b" "b < sblocks t"
  have "sfs_wbuf (take len (drop a buf)) b off t =
      (Ok (), t\<lparr>disk := (disk t)(b := patch (disk t b) off (take len (drop a buf)))\<rparr>)"
    using off by (intro wbuf_ok [OF t]) auto
  then show "\<exists>g. buf_op True buf a len b off t = (Ok buf, t\<lparr>disk := (disk t)(b := g)\<rparr>) \<and>
      (\<forall>k < SFS_BLKSIZE. g k = patch (disk t b) off (take len (drop a buf)) k)"
    by (intro exI [of _ "patch (disk t b) off (take len (drop a buf))"]) (simp add: buf_op_def)
qed

lemma write_blocks:
  "fs_wf s \<Longrightarrow> file_wf s i \<Longrightarrow> n \<le> nblocks s i \<Longrightarrow> n + m \<le> file_blocks \<Longrightarrow> a + m * SFS_BLKSIZE \<le> length buf \<Longrightarrow>
   write_spec i (n * SFS_BLKSIZE) buf a (a + m * SFS_BLKSIZE) s (io_blocks True i m n buf a s)"
proof (induction m arbitrary: n a s)
  case 0
  then show ?case
    using write_spec_nil [of s i "n * SFS_BLKSIZE" buf a] by simp
next
  case (Suc m)
  let ?m = "case sbind (sfs_bmap_load_nolock i n s) (\<lambda>b t. block_op True buf a b 1 t) of
       (Ok buf, s) \<Rightarrow> ((Ok (), buf, a + SFS_BLKSIZE), s)
     | (Err e, s) \<Rightarrow> ((Err e, buf, a), s)
     | (Fault, s) \<Rightarrow> ((Fault, buf, a), s)"
  have first: "write_spec i (n * SFS_BLKSIZE) buf a (a + SFS_BLKSIZE) s ?m"
  proof (rule load_then_write [OF Suc.prems(1,2), where off = 0])
    fix b t assume t: "fs_wf t" "0 < b" "b < sblocks t"
    show "\<exists>g. block_op True buf a b 1 t = (Ok buf, t\<lparr>disk := (disk t)(b := g)\<rparr>) \<and>
      (\<forall>k < SFS_BLKSIZE. g k = patch (disk t b) 0 (take SFS_BLKSIZE (drop a buf)) k)"
      using wblock_ok [OF t, of "drop a buf"] Suc.prems(5)
      by (intro exI [of _ "\<lambda>k. drop a buf ! k"]) (simp add: block_op_def patch_def)
  qed (use Suc.prems in auto)
  obtain x t where x: "sbind (sfs_bmap_load_nolock i n s) (\<lambda>b t. block_op True buf a b 1 t) = (x, t)"
    by fastforce
  show ?case
  proof (cases x)
    case (Ok buf')
    have "write_spec i (n * SFS_BLKSIZE) buf a (a + SFS_BLKSIZE) s ((Ok (), buf', a + SFS_BLKSIZE), t)"
      using first x Ok by simp
    moreover from this have t: "fs_wf t" "file_wf t i" "buf' = buf" "n + 1 \<le> nblocks t i"
      unfolding write_spec_def by auto
    moreover have "write_spec i (n * SFS_BLKSIZE + (a + SFS_BLKSIZE - a)) buf (a + SFS_BLKSIZE)
        (a + Suc m * SFS_BLKSIZE) t (io_blocks True i m (n + 1) buf (a + SFS_BLKSIZE) t)"
      using Suc.IH [OF t(1,2,4), of "a + SFS_BLKSIZE"] Suc.prems(4,5) by (simp add: ac_simps)
    ultimately show ?thesis
      using write_spec_trans [of i "n * SFS_BLKSIZE" buf a "a + SFS_BLKSIZE" s t "a + Suc m * SFS_BLKSIZE"] Suc.prems(5)
        x Ok by simp
  next
    case (Err e)
    then show ?thesis
      using first x write_spec_fail [of i "n * SFS_BLKSIZE" buf a "a + SFS_BLKSIZE" s e buf a t "a + Suc m * SFS_BLKSIZE"]
      by simp
  qed (use first x in \<open>simp add: write_spec_def\<close>)
qed

lemma write_tail:
  assumes m: "write_spec i p buf a (a + (e div SFS_BLKSIZE * SFS_BLKSIZE - p)) s m"
    and e: "p \<le> e div SFS_BLKSIZE * SFS_BLKSIZE" "e \<le> file_blocks * SFS_BLKSIZE" "a + (e - p) \<le> length buf"
  shows "write_spec i p buf a (a + (e - p)) s (io_tail True i (e div SFS_BLKSIZE) e m)"
proof -
  let ?q = "e div SFS_BLKSIZE * SFS_BLKSIZE"
  obtain r buf' a' t where mm: "m = ((r, buf', a'), t)"
    by (metis surj_pair)
  have q: "?q \<le> e" "e - ?q = e mod SFS_BLKSIZE"
    by (simp_all add: minus_div_mult_eq_mod)
  show ?thesis
  proof (cases r)
    case (Ok x)
    have t: "fs_wf t" "file_wf t i" "buf' = buf" "a' = a + (?q - p)" "e div SFS_BLKSIZE \<le> nblocks t i"
      using m Ok e(1) unfolding mm write_spec_def by (auto simp: div_nat_eqI)
    show ?thesis
    proof (cases "e mod SFS_BLKSIZE = 0")
      case True
      then have "?q = e"
        using div_mult_mod_eq [of e SFS_BLKSIZE] by simp
      then show ?thesis
        using m Ok t True unfolding mm io_tail_def by simp
    next
      case False
      then have lt: "e div SFS_BLKSIZE < file_blocks"
        using e(2) by (cases "e = file_blocks * SFS_BLKSIZE") (auto simp: div_less_iff_less_mult)
      define b where "b = a + (?q - p)"
      have b: "p + (b - a) = ?q" "b + e mod SFS_BLKSIZE = a + (e - p)"
        using q e(1) by (simp_all add: b_def)
      have "b + e mod SFS_BLKSIZE \<le> length buf" "?q \<le> nblocks t i * SFS_BLKSIZE"
        using e(3) t(5) unfolding b(2) by simp_all
      with False have rest: "write_spec i (p + (b - a)) buf b (b + e mod SFS_BLKSIZE) t
          (io_part True i (e div SFS_BLKSIZE) 0 (e mod SFS_BLKSIZE) buf b t)"
        by (intro write_part [OF t(1,2,5) lt]) (simp_all add: b(1))
      have "write_spec i p buf a (a + (e - p)) s (io_part True i (e div SFS_BLKSIZE) 0 (e mod SFS_BLKSIZE) buf b t)"
        using m Ok t(3,4) e(3) by (intro write_spec_trans [OF _ _ rest [unfolded b(2)]]) (simp_all add: mm b_def)
      then show ?thesis
        using Ok t(3,4) False unfolding mm io_tail_def by (simp add: b_def)
    qed
  next
    case (Err x)
    then show ?thesis
      using write_spec_fail [OF m [unfolded mm Err], of "a + (e - p)"] q(1) unfolding mm io_tail_def by simp
  qed (use m in \<open>simp add: mm write_spec_def\<close>)
qed


lemma write_range:
  assumes wf: "fs_wf s" "file_wf s i" and p: "p < e" "p \<le> nblocks s i * SFS_BLKSIZE"
    and e: "e \<le> file_blocks * SFS_BLKSIZE" "e - p \<le> length buf"
  shows "write_spec i p buf 0 (e - p) s (io_range True i p e buf s)"
proof -
  define n m off where "n = p div SFS_BLKSIZE" and "m = e div SFS_BLKSIZE - n" and "off = p mod SFS_BLKSIZE"
  have pe: "p = n * SFS_BLKSIZE + off" "off < SFS_BLKSIZE" "n + m = e div SFS_BLKSIZE"
    using p(1) div_le_mono [of p e SFS_BLKSIZE] by (simp_all add: n_def m_def off_def)
  have q: "n * SFS_BLKSIZE + m * SFS_BLKSIZE = e div SFS_BLKSIZE * SFS_BLKSIZE" "e div SFS_BLKSIZE * SFS_BLKSIZE \<le> e"
    using pe(3) by (simp_all add: distrib_right [symmetric])
  have n: "n \<le> nblocks s i" "n + m \<le> file_blocks"
    using p(2) e(1) div_le_mono [of p "nblocks s i * SFS_BLKSIZE" SFS_BLKSIZE]
      div_le_mono [of e "file_blocks * SFS_BLKSIZE" SFS_BLKSIZE] pe(3) by (simp_all add: n_def)
  note range = io_range_def Let_def n_def [symmetric] m_def [symmetric] off_def [symmetric] pe(3)
  show ?thesis
  proof (cases "off = 0")
    case True
    have pq: "p = n * SFS_BLKSIZE" "e div SFS_BLKSIZE * SFS_BLKSIZE - p = m * SFS_BLKSIZE" "p \<le> e div SFS_BLKSIZE * SFS_BLKSIZE"
      using pe(1) True q by simp_all
    have "write_spec i p buf 0 (0 + (e div SFS_BLKSIZE * SFS_BLKSIZE - p)) s (io_blocks True i m n buf 0 s)"
      unfolding pq(2) unfolding pq(1) using pq q e(2) by (intro write_blocks [OF wf n]) simp
    then have "write_spec i p buf 0 (0 + (e - p)) s (io_tail True i (e div SFS_BLKSIZE) e (io_blocks True i m n buf 0 s))"
      using pq(3) e by (intro write_tail) simp_all
    then show ?thesis
      unfolding range using True by simp
  next
    case False
    let ?len = "if m \<noteq> 0 then SFS_BLKSIZE - off else e - p"
    have q1: "p + (SFS_BLKSIZE - off) = (n + 1) * SFS_BLKSIZE" "(n + 1) * SFS_BLKSIZE \<le> e div SFS_BLKSIZE * SFS_BLKSIZE" if "m \<noteq> 0"
      using pe that q(1) by (cases m; simp)+
    have q0: "e = n * SFS_BLKSIZE + e mod SFS_BLKSIZE" if "m = 0"
      using that pe(3) by simp
    have "p < file_blocks * SFS_BLKSIZE"
      using p(1) e(1) by linarith
    then have n1: "n < file_blocks"
      unfolding n_def by (rule less_mult_imp_div_less)
    have len: "off + ?len \<le> SFS_BLKSIZE" "?len \<le> e - p" "0 < ?len"
    proof -
      show "off + ?len \<le> SFS_BLKSIZE"
        using q0 pe(1,2) p(1) mod_less_divisor [of SFS_BLKSIZE e] by (cases "m = 0") auto
      show "?len \<le> e - p" "0 < ?len"
        using q1 q(2) p(1) pe(2) by (cases "m = 0"; simp)+
    qed
    then have part: "write_spec i p buf 0 (0 + ?len) s (io_part True i n off ?len buf 0 s)"
      using e(2) p(2) pe(1) by (intro write_part [OF wf n(1) n1]) simp_all
    obtain r buf' a t where pm: "io_part True i n off ?len buf 0 s = ((r, buf', a), t)"
      by (metis surj_pair)
    show ?thesis
    proof (cases r)
      case (Ok x)
      have t: "fs_wf t" "file_wf t i" "buf' = buf" "a = ?len"
        using part Ok unfolding pm write_spec_def by simp_all
      show ?thesis
      proof (cases "m = 0")
        case True
        then show ?thesis
          unfolding range using part pm Ok t(3,4) False by simp
      next
        case m: False
        have nt: "n + 1 \<le> nblocks t i"
          using part Ok m t(4) q1(1) [OF m] unfolding pm write_spec_def by (auto simp: div_nat_eqI)
        have d: "?len + (m - 1) * SFS_BLKSIZE = e div SFS_BLKSIZE * SFS_BLKSIZE - p" "p + (?len - 0) = (n + 1) * SFS_BLKSIZE"
          "?len + (m - 1) * SFS_BLKSIZE \<le> length buf" "p \<le> e div SFS_BLKSIZE * SFS_BLKSIZE"
          using m q1 [OF m] q e(2) pe(2) by (cases m; simp)+
        have rest: "write_spec i (p + (?len - 0)) buf ?len (e div SFS_BLKSIZE * SFS_BLKSIZE - p) t
            (io_blocks True i (m - 1) (n + 1) buf ?len t)"
          unfolding d(2) d(1) [symmetric] using n(2) m d(3) by (intro write_blocks [OF t(1,2) nt]) simp_all
        have "write_spec i p buf 0 ?len s ((Ok (), buf, ?len), t)"
          using part Ok t(3,4) unfolding pm by simp
        then have "write_spec i p buf 0 (0 + (e div SFS_BLKSIZE * SFS_BLKSIZE - p)) s
            (io_blocks True i (m - 1) (n + 1) buf ?len t)"
          using write_spec_trans [OF _ d(3) [unfolded d(1)] rest] by simp
        then have "write_spec i p buf 0 (0 + (e - p)) s
            (io_tail True i (e div SFS_BLKSIZE) e (io_blocks True i (m - 1) (n + 1) buf ?len t))"
          using d(4) e by (intro write_tail) simp_all
        then show ?thesis
          unfolding range using pm Ok t(3,4) m False by simp
      qed
    next
      case (Err x)
      then show ?thesis
        using write_spec_fail [OF part [unfolded pm Err], of "e - p"] len(2) pm False unfolding range by simp
    qed (use part pm in \<open>simp add: write_spec_def\<close>)
  qed
qed


text \<open>A sound file whose number of blocks fits its size, and its bytes.\<close>

definition file_ok :: "sfs_fs \<Rightarrow> nat \<Rightarrow> bool" where
  "file_ok s i \<longleftrightarrow> file_wf s i \<and> nblocks s i = (fsize (din (nodes s i)) + SFS_BLKSIZE - 1) div SFS_BLKSIZE"

definition contents :: "sfs_fs \<Rightarrow> nat \<Rightarrow> u8 list" where
  "contents s i = map (content s i) [0..<fsize (din (nodes s i))]"

definition set_size :: "nat \<Rightarrow> nat \<Rightarrow> sfs_fs \<Rightarrow> sfs_fs" where
  "set_size i n s = set_dirty i (upd_din i (\<lambda>d. d\<lparr>fsize := n\<rparr>) s)"

lemma set_size_simps [simp]:
  "fmap (set_size i n s) i = fmap s i" "content (set_size i n s) i = content s i" "owned (set_size i n s) i = owned s i"
  "file_wf (set_size i n s) i = file_wf s i" "fs_wf (set_size i n s) = fs_wf s"
  "nblocks (set_size i n s) i = nblocks s i" "fsize (din (nodes (set_size i n s) i)) = n"
  "frame i s (set_size i n t) = frame i s t"
proof -
  show f: "fmap (set_size i n s) i = fmap s i" for s
    by (simp add: fmap_def Let_def set_size_def fun_eq_iff)
  show o: "owned (set_size i n s) i = owned s i" for s
    unfolding owned_def f by (simp add: set_size_def)
  show "content (set_size i n s) i = content s i"
    by (rule ext) (auto simp: content_def f, simp_all add: set_size_def)
  show "file_wf (set_size i n s) i = file_wf s i"
    unfolding file_wf_def Let_def f o by (simp add: set_size_def)
  show "frame i s (set_size i n t) = frame i s t"
    unfolding frame_def o by (auto simp: set_size_def)
qed (simp_all add: set_size_def)

lemma size_blocks: "file_ok s i \<Longrightarrow> fsize (din (nodes s i)) \<le> nblocks s i * SFS_BLKSIZE"
  unfolding file_ok_def by simp

lemma int32_small: "0 \<le> x \<Longrightarrow> x < 2 ^ 31 \<Longrightarrow> int32 x = x"
  by (simp add: int32_def)

lemma contents_write:
  assumes c: "content t i = patch (content s i) p bs" and p: "p \<le> fsize (din (nodes s i))"
    and f: "fsize (din (nodes t i)) = max (fsize (din (nodes s i))) (p + length bs)"
  shows "contents t i = take p (contents s i) @ bs @ drop (p + length bs) (contents s i)"
  by (rule nth_equalityI)
    (use p in \<open>auto simp: contents_def c f nth_append patch_def max_def split: if_splits\<close>)

lemma write_ok:
  assumes "fs_wf s" and "file_ok s i" and "ftype (din (nodes s i)) \<noteq> SFS_TYPE_DIR"
    and "off \<le> fsize (din (nodes s i))" and "off + length data \<le> file_blocks * SFS_BLKSIZE"
  shows "\<exists>r a t. sfs_io_nolock True i data (int off) (length data) s = ((r, data, a), t) \<and>
    fs_wf t \<and> file_ok t i \<and> frame i s t \<and>
    (r = Ok () \<and> a = length data \<or> r = Err E_NO_MEM \<and> a < length data \<and>
       card (avail s) + blocks (din (nodes s i)) \<le> (off + length data + SFS_BLKSIZE - 1) div SFS_BLKSIZE) \<and>
    contents t i = take off (contents s i) @ take a data @ drop (off + a) (contents s i)"
proof (cases "data = []")
  case True
  then show ?thesis
    using assms by (simp add: sfs_io_nolock_def Let_def int32_small)
next
  case False
  let ?d = "din (nodes s i)" and ?e = "off + length data"
  have wf: "file_wf s i"
    using assms(2) unfolding file_ok_def by simp
  have "write_spec i off data 0 (?e - off) s (io_range True i off ?e data s)"
    using False assms(4,5) size_blocks [OF assms(2)] by (intro write_range [OF assms(1) wf]) auto
  then obtain r a u where u: "io_range True i off ?e data s = ((r, data, a), u)" "fs_wf u" "file_wf u i" "frame i s u"
      "a \<le> length data" "fsize (din (nodes u i)) = fsize ?d" "content u i = patch (content s i) off (take a data)"
      "nblocks u i = max (nblocks s i) ((off + a + SFS_BLKSIZE - 1) div SFS_BLKSIZE)"
      "case r of
        Ok _ \<Rightarrow> a = length data
      | Err e \<Rightarrow> e = E_NO_MEM \<and> a < length data \<and> nblocks u i < (off + (length data - 0) + SFS_BLKSIZE - 1) div SFS_BLKSIZE \<and> disk_full u i
      | Fault \<Rightarrow> False"
    by (cases "io_range True i off ?e data s") (auto simp: write_spec_def)
  define t where "t = (if off + a > fsize ?d then set_size i (off + a) u else u)"
  have io: "sfs_io_nolock True i data (int off) (length data) s = ((r, data, a), t)"
    using u(1,6) False assms(3-5)
    by (simp add: sfs_io_nolock_def Let_def int32_small t_def set_size_def nat_add_distrib)
  have f: "fsize (din (nodes t i)) = max (fsize ?d) (off + a)"
    using u(6) by (simp add: t_def)
  have t: "fs_wf t" "file_wf t i" "frame i s t" "content t i = patch (content s i) off (take a data)" "nblocks t i = nblocks u i"
    using u(2-4,7) by (simp_all add: t_def)
  have "nblocks t i = (fsize (din (nodes t i)) + SFS_BLKSIZE - 1) div SFS_BLKSIZE"
    using assms(2) u(8) t(5) div_le_mono [of "fsize ?d + SFS_BLKSIZE - 1" "off + a + SFS_BLKSIZE - 1" SFS_BLKSIZE]
      div_le_mono [of "off + a + SFS_BLKSIZE - 1" "fsize ?d + SFS_BLKSIZE - 1" SFS_BLKSIZE]
    unfolding file_ok_def f by (auto simp: max_def)
  moreover have "contents t i = take off (contents s i) @ take a data @ drop (off + a) (contents s i)"
    using contents_write [OF t(4) assms(4)] f u(5) by simp
  moreover have "r = Ok () \<and> a = length data \<or> r = Err E_NO_MEM \<and> a < length data \<and>
       card (avail s) + blocks (din (nodes s i)) \<le> (off + length data + SFS_BLKSIZE - 1) div SFS_BLKSIZE"
    using u(9) full_shortage [OF u(4) assms(1) u(2) wf u(3)] by (cases r) auto
  ultimately show ?thesis
    using io t unfolding file_ok_def by auto
qed

text \<open>
  C12: Writing \<open>data\<close> at an offset within a file replaces exactly these bytes of the file and extends it as needed,
  up to the 1036 blocks an inode can map.  The call succeeds whenever more blocks are free than the file has
  to gain; one more may go to its indirect block.  If the disk fills up, the file holds a proper prefix of the
  data and the call reports \<open>E_NO_MEM\<close>.  In either case the free map, the counters and the block map stay
  consistent, and \<open>frame\<close> holds: no other inode and no block in use by anything else changes, and no block
  gets lost.  No assertion of the code fails.  The device has no bad blocks and at most \<open>2\<^sup>1\<^sup>9\<close> blocks (\<open>fs_wf\<close>).
\<close>

theorem sfs_write_contents:
  assumes "fs_wf s" and "file_ok s i" and "ftype (din (nodes s i)) \<noteq> SFS_TYPE_DIR"
    and "off \<le> fsize (din (nodes s i))" and "off + length data \<le> file_blocks * SFS_BLKSIZE"
  shows "\<exists>r a t. sfs_io_nolock True i data (int off) (length data) s = ((r, data, a), t) \<and>
    fs_wf t \<and> file_ok t i \<and> frame i s t \<and>
    (r = Ok () \<and> a = length data \<or> r = Err E_NO_MEM \<and> a < length data \<and>
       card (avail s) + blocks (din (nodes s i)) \<le> (off + length data + SFS_BLKSIZE - 1) div SFS_BLKSIZE) \<and>
    contents t i = take off (contents s i) @ take a data @ drop (off + a) (contents s i)"
  using write_ok [OF assms] .


section \<open>Reading\<close>

lemma overwrite_append:
  "a \<le> length buf \<Longrightarrow> overwrite (overwrite buf a xs) (a + length xs) ys = overwrite buf a (xs @ ys)"
  by (simp add: overwrite_def ac_simps)

lemma content_block:
  assumes "n < nblocks s i" and "off + len \<le> SFS_BLKSIZE"
  shows "map (disk s (fmap s i n)) [off..<off + len] = map (content s i) [n * SFS_BLKSIZE + off..<n * SFS_BLKSIZE + off + len]"
proof (rule nth_equalityI)
  fix k assume "k < length (map (disk s (fmap s i n)) [off..<off + len])"
  then have "(n * SFS_BLKSIZE + (off + k)) div SFS_BLKSIZE = n" "(n * SFS_BLKSIZE + (off + k)) mod SFS_BLKSIZE = off + k"
      "n * SFS_BLKSIZE + (off + k) < nblocks s i * SFS_BLKSIZE" "k < len"
    using assms mult_le_mono1 [of "n + 1" "nblocks s i" SFS_BLKSIZE] by (auto simp: div_nat_eqI)
  then show "map (disk s (fmap s i n)) [off..<off + len] ! k =
      map (content s i) [n * SFS_BLKSIZE + off..<n * SFS_BLKSIZE + off + len] ! k"
    by (simp add: content_def add.assoc)
qed simp

lemma read_part:
  assumes wf: "fs_wf s" "file_wf s i" and n: "n < nblocks s i" and off: "off < SFS_BLKSIZE" "off + len \<le> SFS_BLKSIZE"
  shows "io_part False i n off len buf a s =
    ((Ok (), overwrite buf a (map (content s i) [n * SFS_BLKSIZE + off..<n * SFS_BLKSIZE + off + len]), a + len), s)"
  using load_old [OF wf n] rbuf_ok [OF wf(1) _ _ off, of "fmap s i n"] file_wfD(7) [OF wf(2) n] content_block [OF n off(2)]
  by (simp add: io_part_def buf_op_def)

lemma read_blocks:
  "fs_wf s \<Longrightarrow> file_wf s i \<Longrightarrow> n + m \<le> nblocks s i \<Longrightarrow> a \<le> length buf \<Longrightarrow>
   io_blocks False i m n buf a s =
     ((Ok (), overwrite buf a (map (content s i) [n * SFS_BLKSIZE..<(n + m) * SFS_BLKSIZE]), a + m * SFS_BLKSIZE), s)"
proof (induction m arbitrary: n a buf)
  case 0
  then show ?case
    by (simp add: overwrite_def)
next
  case (Suc m)
  let ?b = "map (content s i) [n * SFS_BLKSIZE..<n * SFS_BLKSIZE + SFS_BLKSIZE]"
  have n: "n < nblocks s i"
    using Suc.prems(3) by simp
  have "sbind (sfs_bmap_load_nolock i n s) (\<lambda>b t. block_op False buf a b 1 t) = (Ok (overwrite buf a ?b), s)"
    using load_old [OF Suc.prems(1,2) n] transfer_ok [OF Suc.prems(1), of "fmap s i n"]
      file_wfD(7) [OF Suc.prems(2) n] content_block [OF n, of 0 SFS_BLKSIZE] by (simp add: block_op_def)
  moreover have "[n * SFS_BLKSIZE..<n * SFS_BLKSIZE + SFS_BLKSIZE] @ [(n + 1) * SFS_BLKSIZE..<(n + 1 + m) * SFS_BLKSIZE] =
      [n * SFS_BLKSIZE..<(n + 1 + m) * SFS_BLKSIZE]"
    using upt_add_eq_append [of "n * SFS_BLKSIZE" "n * SFS_BLKSIZE + SFS_BLKSIZE" "m * SFS_BLKSIZE"]
    by (simp add: ac_simps)
  then have "overwrite (overwrite buf a ?b) (a + SFS_BLKSIZE)
      (map (content s i) [(n + 1) * SFS_BLKSIZE..<(n + 1 + m) * SFS_BLKSIZE]) =
      overwrite buf a (map (content s i) [n * SFS_BLKSIZE..<(n + 1 + m) * SFS_BLKSIZE])"
    using overwrite_append [OF Suc.prems(4), of ?b] by (simp flip: map_append)
  moreover have "a + SFS_BLKSIZE \<le> length (overwrite buf a ?b)"
    using Suc.prems(4) by (simp add: overwrite_def)
  ultimately show ?case
    using Suc.IH [OF Suc.prems(1,2), of "n + 1" "a + SFS_BLKSIZE" "overwrite buf a ?b"] Suc.prems(3) by (simp add: ac_simps)
qed

lemma overwrite_upt:
  assumes "a \<le> length buf" "p \<le> q" "q \<le> e" "b = a + (q - p)"
  shows "overwrite (overwrite buf a (map f [p..<q])) b (map f [q..<e]) = overwrite buf a (map f [p..<e])"
proof -
  have "[p..<q] @ [q..<e] = [p..<e]"
    using assms(2,3) upt_add_eq_append [of p q "e - q"] by simp
  then show ?thesis
    using overwrite_append [OF assms(1), of "map f [p..<q]" "map f [q..<e]"] assms(4) by (simp flip: map_append)
qed

lemma overwrite_fits: "a \<le> length buf \<Longrightarrow> a + length xs \<le> length (overwrite buf a xs)"
  by (simp add: overwrite_def)

lemma read_tail:
  assumes wf: "fs_wf s" "file_wf s i" and e: "e \<le> nblocks s i * SFS_BLKSIZE"
  shows "io_tail False i (e div SFS_BLKSIZE) e ((Ok (), buf, a), s) =
    ((Ok (), overwrite buf a (map (content s i) [e div SFS_BLKSIZE * SFS_BLKSIZE..<e]), a + e mod SFS_BLKSIZE), s)"
proof (cases "e mod SFS_BLKSIZE = 0")
  case True
  then have "e div SFS_BLKSIZE * SFS_BLKSIZE = e"
    using div_mult_mod_eq [of e SFS_BLKSIZE] by simp
  then show ?thesis
    using True by (simp add: io_tail_def overwrite_def)
next
  case False
  then have "e div SFS_BLKSIZE < nblocks s i"
    using e by (cases "e = nblocks s i * SFS_BLKSIZE") (auto simp: div_less_iff_less_mult)
  then show ?thesis
    using False read_part [OF wf, of "e div SFS_BLKSIZE" 0 "e mod SFS_BLKSIZE" buf a] by (simp add: io_tail_def)
qed

lemma read_range:
  assumes wf: "fs_wf s" "file_wf s i" and p: "p < e" "e \<le> nblocks s i * SFS_BLKSIZE"
  shows "io_range False i p e buf s = ((Ok (), overwrite buf 0 (map (content s i) [p..<e]), e - p), s)"
proof -
  define n m off where "n = p div SFS_BLKSIZE" and "m = e div SFS_BLKSIZE - n" and "off = p mod SFS_BLKSIZE"
  have pe: "p = n * SFS_BLKSIZE + off" "off < SFS_BLKSIZE" "n + m = e div SFS_BLKSIZE"
    using p(1) div_le_mono [of p e SFS_BLKSIZE] by (simp_all add: n_def m_def off_def)
  define q where "q = e div SFS_BLKSIZE * SFS_BLKSIZE"
  have q: "(n + m) * SFS_BLKSIZE = q" "q \<le> e" "e - q = e mod SFS_BLKSIZE" "n + m \<le> nblocks s i"
    using pe(3) p(2) div_le_mono [of e "nblocks s i * SFS_BLKSIZE" SFS_BLKSIZE]
    by (simp_all add: q_def minus_div_mult_eq_mod)
  note range = io_range_def Let_def n_def [symmetric] m_def [symmetric] off_def [symmetric] pe(3)
  note tail = read_tail [OF wf p(2), folded q_def]
  show ?thesis
  proof (cases "off = 0")
    case True
    have "p \<le> q" "m * SFS_BLKSIZE = q - p"
      using pe(1) True q(1) by auto
    then show ?thesis
      unfolding range using True read_blocks [OF wf q(4), of 0 buf] pe(1) q tail p(1)
        overwrite_upt [of 0 buf p q e "q - p" "content s i"] by simp
  next
    case False
    let ?len = "if m \<noteq> 0 then SFS_BLKSIZE - off else e - p"
    show ?thesis
    proof (cases "m = 0")
      case True
      obtain r where "e = n * SFS_BLKSIZE + r" "r < SFS_BLKSIZE"
        using True pe(3) by (metis add.right_neutral div_mult_mod_eq mod_less_divisor zero_less_numeral)
      then have "off + (e - p) \<le> SFS_BLKSIZE"
        using pe(1,2) by simp
      moreover have "n < nblocks s i"
        unfolding n_def by (rule less_mult_imp_div_less) (use p in simp)
      ultimately show ?thesis
        unfolding range using True False read_part [OF wf, of n off "e - p" buf 0] pe p(1) by simp
    next
      case m: False
      have d: "n * SFS_BLKSIZE + off + (SFS_BLKSIZE - off) = (n + 1) * SFS_BLKSIZE" "(n + 1) * SFS_BLKSIZE \<le> q"
        "n + 1 + (m - 1) = n + m" "n < nblocks s i"
        using pe m q by (cases m; simp)+
      have part: "io_part False i n off (SFS_BLKSIZE - off) buf 0 s =
          ((Ok (), overwrite buf 0 (map (content s i) [p..<(n + 1) * SFS_BLKSIZE]), SFS_BLKSIZE - off), s)"
        using read_part [OF wf d(4) pe(2), of "SFS_BLKSIZE - off" buf 0] pe(1,2) d(1) by simp
      let ?b = "overwrite buf 0 (map (content s i) [p..<(n + 1) * SFS_BLKSIZE])"
      have "SFS_BLKSIZE - off = (n + 1) * SFS_BLKSIZE - p"
        using pe(1) by simp
      moreover have "SFS_BLKSIZE - off \<le> length ?b"
        using pe(1) overwrite_fits [of 0 buf "map (content s i) [p..<(n + 1) * SFS_BLKSIZE]"] by simp
      ultimately have "io_blocks False i (m - 1) (n + 1) ?b (SFS_BLKSIZE - off) s =
          ((Ok (), overwrite buf 0 (map (content s i) [p..<q]), q - p), s)"
        using read_blocks [OF wf, of "n + 1" "m - 1" "SFS_BLKSIZE - off" ?b] d q(1,4) pe(1)
          overwrite_upt [of 0 buf p "(n + 1) * SFS_BLKSIZE" q "SFS_BLKSIZE - off" "content s i"]
        by (simp add: algebra_simps)
      moreover have pq: "p \<le> q" "q - p + e mod SFS_BLKSIZE = e - p"
        using d(2) pe(1,2) q(2,3) by simp_all
      ultimately show ?thesis
        unfolding range using part m False tail overwrite_upt [OF _ pq(1) q(2), of 0 buf "q - p" "content s i"] by simp
    qed
  qed
qed


text \<open>
  C14: Reading \<open>len\<close> bytes at an offset returns exactly the bytes of the file that lie in the range, fewer at
  the end of the file and none behind it, and changes nothing.  The device has no bad blocks (\<open>fs_wf\<close>).
\<close>

theorem sfs_read_contents:
  assumes "fs_wf s" and "file_ok s i" and "ftype (din (nodes s i)) \<noteq> SFS_TYPE_DIR"
    and "off < SFS_MAX_FILE_SIZE" and "off + len < 2 ^ 31" and "fsize (din (nodes s i)) \<le> SFS_MAX_FILE_SIZE"
  shows "sfs_io_nolock False i buf (int off) len s =
    (let bs = take len (drop off (contents s i)) in ((Ok (), overwrite buf 0 bs, length bs), s))"
proof -
  let ?f = "fsize (din (nodes s i))"
  have wf: "file_wf s i"
    using assms(2) unfolding file_ok_def by simp
  show ?thesis
  proof (cases "len = 0 \<or> ?f \<le> off")
    case True
    then show ?thesis
      using assms by (auto simp: sfs_io_nolock_def Let_def int32_small contents_def overwrite_def)
  next
    case False
    define e where "e = min (off + len) ?f"
    have e: "off < e" "e \<le> ?f" "e \<le> nblocks s i * SFS_BLKSIZE"
      using False size_blocks [OF assms(2)] by (auto simp: e_def)
    have bs: "take len (drop off (contents s i)) = map (content s i) [off..<e]"
      by (simp add: contents_def drop_map take_map e_def min_def)
    have ne: "nat (min (min (int off + int len) (int SFS_MAX_FILE_SIZE)) (int ?f)) = e"
      using assms(6) by (auto simp: e_def min_def)
    have "sfs_io_nolock False i buf (int off) len s =
        (let ((ret, buf, alen), s) = io_range False i off e buf s
         in ((ret, buf, alen), if off + alen > fsize (din (nodes s i)) then set_size i (off + alen) s else s))"
      using False assms(3-5) unfolding sfs_io_nolock_def Let_def set_size_def ne [symmetric]
      by (simp add: int32_small cong: if_cong)
    then show ?thesis
      using read_range [OF assms(1) wf e(1,3), of buf] e(1,2) unfolding bs by simp
  qed
qed


section \<open>Truncating\<close>

text \<open>What the two loops of \<open>sfs_truncfile\<close> keep.\<close>

definition resize_spec :: "nat \<Rightarrow> sfs_fs \<Rightarrow> sfs_fs \<Rightarrow> bool" where
  "resize_spec i s t \<longleftrightarrow> fs_wf t \<and> file_wf t i \<and> frame i s t \<and>
     fsize (din (nodes t i)) = fsize (din (nodes s i)) \<and>
     (\<forall>k. content t i k = (if k < nblocks t i * SFS_BLKSIZE then content s i k else 0))"

lemma content_beyond: "nblocks s i * SFS_BLKSIZE \<le> k \<Longrightarrow> content s i k = 0"
  by (simp add: content_def)

lemma resize_refl: "fs_wf s \<Longrightarrow> file_wf s i \<Longrightarrow> resize_spec i s s"
  unfolding resize_spec_def by (simp add: content_beyond)

lemma grow_ok:
  "fs_wf s \<Longrightarrow> file_wf s i \<Longrightarrow> nblocks s i + n \<le> file_blocks \<Longrightarrow>
   \<exists>r t. grow_loop i (nblocks s i) n s = (r, t) \<and> resize_spec i s t \<and> nblocks s i \<le> nblocks t i \<and>
     (case r of
        Ok _ \<Rightarrow> nblocks t i = nblocks s i + n
      | Err e \<Rightarrow> e = E_NO_MEM \<and> nblocks t i < nblocks s i + n \<and> disk_full t i
      | Fault \<Rightarrow> False)"
proof (induction n arbitrary: s)
  case 0
  then show ?case
    using resize_refl by simp
next
  case (Suc n)
  obtain r t where l: "sfs_bmap_load_nolock i (nblocks s i) s = (r, t)"
    by fastforce
  have t: "fs_wf t" "file_wf t i" "frame i s t" "content t i = content s i"
      "fsize (din (nodes t i)) = fsize (din (nodes s i))"
      "case r of
        Ok b \<Rightarrow> b = fmap t i (nblocks s i) \<and> nblocks t i = max (nblocks s i) (nblocks s i + 1)
      | Err e \<Rightarrow> e = E_NO_MEM \<and> nblocks s i = nblocks s i \<and> nblocks t i = nblocks s i \<and> disk_full t i | Fault \<Rightarrow> False"
    using load_ok [OF Suc.prems(1,2), of "nblocks s i"] Suc.prems(3) unfolding l load_spec_def by simp_all
  have "content s i k = 0" if "\<not> k < nblocks t i * SFS_BLKSIZE" for k
    using content_beyond [of t i k] t(4) that by simp
  then have st: "resize_spec i s t"
    using t unfolding resize_spec_def by simp
  show ?case
  proof (cases r)
    case (Ok b)
    then have n: "nblocks t i = nblocks s i + 1"
      using t(6) by simp
    obtain r' u where u: "grow_loop i (nblocks t i) n t = (r', u)" "resize_spec i t u" "nblocks t i \<le> nblocks u i"
        "case r' of
           Ok _ \<Rightarrow> nblocks u i = nblocks t i + n
         | Err e \<Rightarrow> e = E_NO_MEM \<and> nblocks u i < nblocks t i + n \<and> disk_full u i
         | Fault \<Rightarrow> False"
      using Suc.IH [OF t(1,2)] n Suc.prems(3) by auto
    have "resize_spec i s u"
      using u(2) st t(4) frame_trans [OF t(3)] unfolding resize_spec_def by simp
    then show ?thesis
      using u n l Ok by (auto split: outcome.splits)
  next
    case (Err e)
    then show ?thesis
      using st t(6) l by auto
  qed (use t(6) in simp)
qed

lemma resize_trans:
  assumes "resize_spec i s t" "resize_spec i t u" "nblocks u i \<le> nblocks t i"
  shows "resize_spec i s u"
  using assms frame_trans [of i s t u] unfolding resize_spec_def by auto

lemma drop_block:
  assumes wf: "fs_wf t" "file_wf s i" and n: "n + 1 = nblocks s i"
    and t: "\<forall>j. j \<noteq> i \<longrightarrow> nodes t j = nodes s j" "sblocks t = sblocks s" "inode_list t = inode_list s"
      "kmem_left t = kmem_left s" "ftype (din (nodes t i)) = ftype (din (nodes s i))"
      "nlinks (din (nodes t i)) = nlinks (din (nodes s i))" "length (direct (din (nodes t i))) = SFS_NDIRECT"
      "nblocks t i = n" "indirect (din (nodes t i)) = indirect (din (nodes s i))"
      "fsize (din (nodes t i)) = fsize (din (nodes s i))"
    and f: "\<forall>k < file_blocks. fmap t i k = (if k = n then 0 else fmap s i k)"
    and a: "avail t = insert (fmap s i n) (avail s)"
    and d: "\<forall>x. (x = indirect (din (nodes s i)) \<longrightarrow> x = 0) \<longrightarrow> disk t x = disk s x"
  shows "resize_spec i s t"
proof -
  let ?ind = "indirect (din (nodes s i))"
  have nb: "n < file_blocks" "nblocks s i = n + 1"
    using n file_wfD(2) [OF wf(2)] by simp_all
  have fs: "fmap t i k = fmap s i k" if "k < n" for k
    using f that nb(1) by simp
  have img: "fmap t i ` {..<n} = fmap s i ` {..<n}"
    using fs by simp
  have inj: "inj_on (fmap s i) {..<n + 1}"
    using file_wfD(5) [OF wf(2)] nb(2) by simp
  then have notn: "\<forall>k<n. fmap s i k \<noteq> fmap s i n"
    by (auto simp: inj_on_def)
  have "inj_on (fmap t i) {..<n}"
    using inj fs by (auto simp: inj_on_def)
  moreover have own: "owned t i = owned s i - {fmap s i n}"
    unfolding owned_def t(8,9) img nb(2) using notn file_wfD(6) [OF wf(2), of n] nb(2) by (auto simp: lessThan_Suc)
  have "owned t i \<subseteq> {0<..<sblocks t} - avail t"
    unfolding own a t(2) using file_wfD(9) [OF wf(2)] by auto
  moreover have "fmap t i k \<noteq> 0" if "k < n" for k
    using fs that file_wfD(3) [OF wf(2), of k] nb(2) by simp
  moreover have "fmap s i k \<noteq> ?ind" if "k < n" for k
    using that file_wfD(6) [OF wf(2), of k] nb(2) by simp
  then have "?ind \<notin> fmap t i ` {..<n}"
    unfolding img by (metis imageE lessThan_iff)
  moreover have "fmap t i k = 0" if "n \<le> k" "k < file_blocks" for k
    using f that file_wfD(4) [OF wf(2), of k] nb(2) by (cases "k = n") simp_all
  ultimately have "file_wf t i"
    unfolding file_wf_def Let_def t(7-9) using nb(1) by auto
  moreover have "frame i s t"
  proof -
    have o: "fmap s i n \<in> owned s i"
      unfolding owned_def using nb(2) file_wfD(3) [OF wf(2), of n] by auto
    have "x \<notin> avail t \<and> disk t x = disk s x" if "x \<notin> avail s" "x \<notin> owned s i" for x
    proof -
      have "x = ?ind \<longrightarrow> x = 0"
        using that(2) unfolding owned_def by auto
      then show ?thesis
        using that o d unfolding a by auto
    qed
    then show ?thesis
      unfolding frame_def own using t a o by auto
  qed
  moreover have "content t i k = (if k < n * SFS_BLKSIZE then content s i k else 0)" for k
  proof (cases "k < n * SFS_BLKSIZE")
    case True
    then have q: "k div SFS_BLKSIZE < n"
      by (rule less_mult_imp_div_less)
    then show ?thesis
      using True fs [OF q] d file_wfD(6) [OF wf(2), of "k div SFS_BLKSIZE"] nb(2) unfolding content_def t(8) by simp
  qed (simp add: content_def t(8))
  ultimately show ?thesis
    unfolding resize_spec_def t(8) using wf(1) t(10) by simp
qed

lemma truncate_ok:
  assumes wf: "fs_wf s" "file_wf s i" and n: "nblocks s i \<noteq> 0"
  shows "\<exists>t. sfs_bmap_truncate_nolock i s = (Ok (), t) \<and> resize_spec i s t \<and> nblocks t i + 1 = nblocks s i"
proof -
  define k where "k = nblocks s i - 1"
  have k: "k + 1 = nblocks s i" "k < nblocks s i" "k < file_blocks"
    using n file_wfD(2) [OF wf(2)] by (simp_all add: k_def)
  let ?b = "fmap s i k" and ?ind = "indirect (din (nodes s i))"
  have b: "0 < ?b" "?b < sblocks s" "?b \<notin> avail s"
    using file_wfD(7) [OF wf(2) k(2)] by simp_all
  show ?thesis
  proof (cases "k < SFS_NDIRECT")
    case True
    obtain u where u: "sfs_block_free ?b s = (Ok (), u)" "alloc_step s u" "avail u = insert ?b (avail s)" "disk u = disk s"
      using free_step [OF wf(1) b] .
    define t where "t = set_dirty i (upd_din i (\<lambda>d. d\<lparr>blocks := blocks d - 1\<rparr>)
      (set_dirty i (upd_din i (\<lambda>d. d\<lparr>direct := (direct d)[k := 0]\<rparr>) u)))"
    have "direct (din (nodes s i)) ! k = ?b"
      using True by (simp add: fmap_def Let_def)
    then have "sfs_bmap_truncate_nolock i s = (Ok (), t)"
      using n u(1) True b(1) k(1) by (simp add: sfs_bmap_truncate_nolock_def sfs_bmap_free_nolock_def Let_def t_def k_def)
    moreover have "resize_spec i s t"
      by (rule drop_block [OF _ wf(2) k(1)])
        (use alloc_stepD [OF u(2)] u True k file_wfD(1) [OF wf(2)] in \<open>auto simp: t_def fmap_def Let_def nth_list_update\<close>)
    ultimately show ?thesis
      using alloc_stepD(2) [OF u(2)] k(1) by (auto simp: t_def)
  next
    case False
    let ?j = "k - SFS_NDIRECT"
    have ind: "?ind \<noteq> 0"
      using b(1) False by (auto simp: fmap_def Let_def split: if_splits)
    have e: "0 < ?ind" "?ind < sblocks s" "?ind \<notin> avail s" "?j < SFS_BLK_NENTRY" "?b = entry (disk s ?ind) ?j"
      using file_wfD(8) [OF wf(2) ind] ind False k(3) by (simp_all add: fmap_def Let_def)
    define v where "v = s\<lparr>disk := (disk s)(?ind := patch (disk s ?ind) (?j * 4) (put32 0))\<rparr>"
    have v: "fs_wf v" "avail v = avail s" "sblocks v = sblocks s"
      using wf(1) by (simp_all add: v_def)
    obtain u where u: "sfs_block_free ?b v = (Ok (), u)" "alloc_step v u" "avail u = insert ?b (avail s)" "disk u = disk v"
      using free_step [OF v(1), of ?b] b v(2,3) by auto
    define t where "t = set_dirty i (upd_din i (\<lambda>d. d\<lparr>blocks := blocks d - 1\<rparr>) u)"
    have "sfs_bmap_free_sub_nolock ?ind ?j s = (Ok (), u)"
      using e b(1) u(1) inuse_iff [OF wf(1) e(1,2)] rbuf_ok [OF wf(1) e(1,2), of "?j * 4" 4]
        wbuf_ok [OF wf(1) e(1,2), of "?j * 4" "put32 0"]
      by (simp add: sfs_bmap_free_sub_nolock_def entry_def v_def)
    then have "sfs_bmap_truncate_nolock i s = (Ok (), t)"
      using n False k ind by (simp add: sfs_bmap_truncate_nolock_def sfs_bmap_free_nolock_def Let_def t_def k_def)
    moreover have nu: "nodes u = nodes s" "sblocks u = sblocks s" "inode_list u = inode_list s" "kmem_left u = kmem_left s" "fs_wf u"
      using alloc_stepD [OF u(2)] by (simp_all add: v_def)
    moreover have "fmap t i m = (if m = k then 0 else fmap s i m)" if "m < file_blocks" for m
      using False ind that entry_patch [of 0 "disk s ?ind" ?j "m - SFS_NDIRECT"] nu(1) u(4)
      by (auto simp: fmap_def Let_def t_def v_def)
    then have "resize_spec i s t"
      by (intro drop_block [OF _ wf(2) k(1)])
        (use nu u k(1) file_wfD(1) [OF wf(2)] ind in \<open>auto simp: t_def v_def\<close>)
    ultimately show ?thesis
      using k(1) by (auto simp: t_def)
  qed
qed

lemma shrink_ok:
  "fs_wf s \<Longrightarrow> file_wf s i \<Longrightarrow> n \<le> nblocks s i \<Longrightarrow>
   \<exists>t. shrink_loop i n s = (Ok (), t) \<and> resize_spec i s t \<and> nblocks t i + n = nblocks s i"
proof (induction n arbitrary: s)
  case 0
  then show ?case
    using resize_refl by simp
next
  case (Suc n)
  obtain t where t: "sfs_bmap_truncate_nolock i s = (Ok (), t)" "resize_spec i s t" "nblocks t i + 1 = nblocks s i"
    using truncate_ok [OF Suc.prems(1,2)] Suc.prems(3) by auto
  moreover from this obtain u where "shrink_loop i n t = (Ok (), u)" "resize_spec i t u" "nblocks u i + n = nblocks t i"
    using Suc.IH [of t] Suc.prems(3) unfolding resize_spec_def by auto
  ultimately show ?case
    using resize_trans [of i s t u] by auto
qed


lemma truncfile_spec:
  assumes wf: "fs_wf s" "file_ok s i" and ty: "ftype (din (nodes s i)) \<noteq> SFS_TYPE_DIR"
    and len: "len \<le> file_blocks * SFS_BLKSIZE"
  shows "\<exists>r t. sfs_truncfile i (int len) s = (r, t) \<and> fs_wf t \<and> file_wf t i \<and> frame i s t \<and>
    (\<forall>k. content t i k = (if k < nblocks t i * SFS_BLKSIZE then content s i k else 0)) \<and>
    (case r of
       Ok _ \<Rightarrow> file_ok t i \<and> fsize (din (nodes t i)) = len
     | Err e \<Rightarrow> e = E_NO_MEM \<and> fsize (din (nodes s i)) < len \<and> fsize (din (nodes t i)) = fsize (din (nodes s i)) \<and>
         nblocks s i \<le> nblocks t i \<and> nblocks s i < (len + SFS_BLKSIZE - 1) div SFS_BLKSIZE \<and>
         card (avail s) + nblocks s i \<le> (len + SFS_BLKSIZE - 1) div SFS_BLKSIZE
     | Fault \<Rightarrow> False)"
proof -
  let ?f = "fsize (din (nodes s i))"
  define tb where "tb = (len + SFS_BLKSIZE - 1) div SFS_BLKSIZE"
  have wff: "file_wf s i" and nb: "nblocks s i = (?f + SFS_BLKSIZE - 1) div SFS_BLKSIZE"
    using wf(2) unfolding file_ok_def by simp_all
  have tb: "tb \<le> file_blocks"
    unfolding tb_def using len by (rule ceil_le)
  have "\<exists>r u. (if nblocks s i < tb then grow_loop i (nblocks s i) (tb - nblocks s i) s
      else shrink_loop i (nblocks s i - tb) s) = (r, u) \<and> resize_spec i s u \<and>
      (case r of Ok _ \<Rightarrow> nblocks u i = tb | Err e \<Rightarrow> e = E_NO_MEM \<and> nblocks s i < tb \<and> nblocks s i \<le> nblocks u i \<and> nblocks u i < tb \<and> disk_full u i
        | Fault \<Rightarrow> False)"
  proof (cases "nblocks s i < tb")
    case True
    then show ?thesis
      using grow_ok [OF wf(1) wff, of "tb - nblocks s i"] tb by (auto split: outcome.splits)
  next
    case False
    then show ?thesis
      using shrink_ok [OF wf(1) wff, of "nblocks s i - tb"] by auto
  qed
  then obtain r u where u: "(if nblocks s i < tb then grow_loop i (nblocks s i) (tb - nblocks s i) s
      else shrink_loop i (nblocks s i - tb) s) = (r, u)" "resize_spec i s u"
      "case r of Ok _ \<Rightarrow> nblocks u i = tb | Err e \<Rightarrow> e = E_NO_MEM \<and> nblocks s i < tb \<and> nblocks s i \<le> nblocks u i \<and> nblocks u i < tb \<and> disk_full u i
        | Fault \<Rightarrow> False"
    by blast
  have lim: "\<not> int SFS_MAX_FILE_SIZE < int len"
    using len by simp
  show ?thesis
  proof (cases "?f = len")
    case True
    then have "sfs_truncfile i (int len) s = (Ok (), s)"
      using ty lim nb by (simp add: sfs_truncfile_def Let_def)
    then show ?thesis
      using wf wff True by (simp add: content_beyond)
  next
    case False
    have step: "sfs_truncfile i (int len) s = sbind (r, u) (\<lambda>_ s.
         if nblocks s i = tb then (Ok (), set_size i len s) else (Fault, s))"
      using ty lim False unfolding sfs_truncfile_def Let_def set_size_def nat_int tb_def [symmetric] u(1) by simp
    have less: "?f < len" if "nblocks s i < tb"
      using that div_le_mono [of "len + SFS_BLKSIZE - 1" "?f + SFS_BLKSIZE - 1" SFS_BLKSIZE] unfolding nb tb_def
      by linarith
    have "card (avail s) + nblocks s i \<le> tb" if "disk_full u i" "nblocks u i < tb"
      using that full_shortage [of i s u] wf(1) wff u(2) unfolding resize_spec_def by simp
    then show ?thesis
      using u(2,3) step less unfolding resize_spec_def
      by (cases r) (auto simp: file_ok_def tb_def)
  qed
qed

lemma contents_upto:
  "\<forall>k. content t i k = (if k < nblocks t i * SFS_BLKSIZE then content s i k else 0) \<Longrightarrow>
   fsize (din (nodes t i)) \<le> nblocks t i * SFS_BLKSIZE \<Longrightarrow>
   contents t i = map (content s i) [0..<fsize (din (nodes t i))]"
  unfolding contents_def by simp

lemma truncate_contents:
  assumes "fs_wf s" and "file_ok s i" and "ftype (din (nodes s i)) \<noteq> SFS_TYPE_DIR"
    and "len \<le> file_blocks * SFS_BLKSIZE"
  shows "\<exists>r t. sfs_truncfile i (int len) s = (r, t) \<and> fs_wf t \<and> file_wf t i \<and> frame i s t \<and>
    (case r of
       Ok _ \<Rightarrow> file_ok t i \<and> contents t i = map (content s i) [0..<len]
     | Err e \<Rightarrow> e = E_NO_MEM \<and> fsize (din (nodes s i)) < len \<and> contents t i = contents s i \<and>
         card (avail s) + blocks (din (nodes s i)) \<le> (len + SFS_BLKSIZE - 1) div SFS_BLKSIZE
     | Fault \<Rightarrow> False)"
proof -
  obtain r t where t: "sfs_truncfile i (int len) s = (r, t)" "fs_wf t" "file_wf t i" "frame i s t"
    "\<forall>k. content t i k = (if k < nblocks t i * SFS_BLKSIZE then content s i k else 0)"
    "case r of
       Ok _ \<Rightarrow> file_ok t i \<and> fsize (din (nodes t i)) = len
     | Err e \<Rightarrow> e = E_NO_MEM \<and> fsize (din (nodes s i)) < len \<and> fsize (din (nodes t i)) = fsize (din (nodes s i)) \<and>
         nblocks s i \<le> nblocks t i \<and> nblocks s i < (len + SFS_BLKSIZE - 1) div SFS_BLKSIZE \<and>
         card (avail s) + nblocks s i \<le> (len + SFS_BLKSIZE - 1) div SFS_BLKSIZE
     | Fault \<Rightarrow> False"
    using truncfile_spec [OF assms] by blast
  show ?thesis
  proof (cases r)
    case (Ok x)
    then show ?thesis
      using t size_blocks [of t i] contents_upto [OF t(5)] by simp
  next
    case (Err e)
    have "fsize (din (nodes s i)) \<le> nblocks t i * SFS_BLKSIZE"
      using t(6) Err size_blocks [OF assms(2)] mult_le_mono1 [of "nblocks s i" "nblocks t i" SFS_BLKSIZE] by simp
    then show ?thesis
      using t Err contents_upto [OF t(5)] by (simp add: contents_def)
  qed (use t(6) in simp)
qed

text \<open>
  C16: Setting the length of a file, up to the 1036 blocks an inode can map.  Truncating it to a shorter length
  always succeeds and keeps exactly the bytes before the new end.  Extending it succeeds whenever more
  blocks are free than the file has to gain, and the file keeps its bytes and goes on with what its last
  block held behind the old end, followed by zeros; otherwise it may fail with \<open>E_NO_MEM\<close>, and then the
  bytes of the file are as before.  The free map and the block map stay sound, nothing else changes and no
  block gets lost.  The device has no bad blocks and at most \<open>2\<^sup>1\<^sup>9\<close> blocks (\<open>fs_wf\<close>).
\<close>

theorem sfs_truncate_contents:
  assumes "fs_wf s" and "file_ok s i" and "ftype (din (nodes s i)) \<noteq> SFS_TYPE_DIR"
    and "len \<le> file_blocks * SFS_BLKSIZE"
  shows "\<exists>r t. sfs_truncfile i (int len) s = (r, t) \<and> fs_wf t \<and> file_wf t i \<and> frame i s t \<and>
    (case r of
       Ok _ \<Rightarrow> file_ok t i \<and> contents t i = map (content s i) [0..<len]
     | Err e \<Rightarrow> e = E_NO_MEM \<and> fsize (din (nodes s i)) < len \<and> contents t i = contents s i \<and>
         card (avail s) + blocks (din (nodes s i)) \<le> (len + SFS_BLKSIZE - 1) div SFS_BLKSIZE
     | Fault \<Rightarrow> False)"
  using truncate_contents [OF assms] .

text \<open>
  Extending a file exposes what it held before: if a file is truncated to \<open>n\<close> bytes and then extended to
  \<open>m\<close> bytes without crossing a block boundary, the bytes between \<open>n\<close> and \<open>m\<close> are the old ones, not zeros.
\<close>

theorem truncate_extend_stale:
  assumes "fs_wf s" and "file_ok s i" and "ftype (din (nodes s i)) \<noteq> SFS_TYPE_DIR"
    and "fsize (din (nodes s i)) \<le> file_blocks * SFS_BLKSIZE"
    and "n < m" and "m \<le> fsize (din (nodes s i))"
    and "(n + SFS_BLKSIZE - 1) div SFS_BLKSIZE = (m + SFS_BLKSIZE - 1) div SFS_BLKSIZE"
  shows "\<exists>t u. sfs_truncfile i (int n) s = (Ok (), t) \<and> contents t i = take n (contents s i) \<and>
    sfs_truncfile i (int m) t = (Ok (), u) \<and> contents u i = take m (contents s i)"
proof -
  obtain t where t: "sfs_truncfile i (int n) s = (Ok (), t)" "fs_wf t" "frame i s t"
    "\<forall>k. content t i k = (if k < nblocks t i * SFS_BLKSIZE then content s i k else 0)"
    "file_ok t i" "fsize (din (nodes t i)) = n"
    using truncfile_spec [OF assms(1-3), of n] assms(4-6) by (fastforce split: outcome.splits)
  have ty: "ftype (din (nodes t i)) \<noteq> SFS_TYPE_DIR"
    using frameD(8) [OF t(3)] assms(3) by simp
  have nb: "nblocks t i = (m + SFS_BLKSIZE - 1) div SFS_BLKSIZE"
    using t(5,6) assms(7) unfolding file_ok_def by simp
  obtain u where u: "sfs_truncfile i (int m) t = (Ok (), u)"
    "\<forall>k. content u i k = (if k < nblocks u i * SFS_BLKSIZE then content t i k else 0)"
    "file_ok u i" "fsize (din (nodes u i)) = m"
    using truncfile_spec [OF t(2,5) ty, of m] assms(4,6) nb by (fastforce split: outcome.splits)
  have "contents u i = map (content t i) [0..<m]"
    using contents_upto [OF u(2)] size_blocks [OF u(3)] u(4) by simp
  also have "\<dots> = map (content s i) [0..<m]"
    using t(4) nb by (auto simp: less_ceil)
  also have "\<dots> = take m (contents s i)"
    using assms(6) by (simp add: contents_def take_map)
  finally have "contents u i = take m (contents s i)" .
  moreover have "contents t i = take n (contents s i)"
    using contents_upto [OF t(4)] size_blocks [OF t(5)] t(6) assms(5,6) by (simp add: contents_def take_map)
  ultimately show ?thesis
    using t(1) u(1) by auto
qed


section \<open>Isolation\<close>

text \<open>
  C20: Writing to or truncating one file does not concern another: a second file that shares no block with the
  first keeps its bytes, stays sound and still shares no block with it, also when the operation fails
  because the disk is full.  Positions and lengths are within the 1036 blocks an inode can map, and the
  device has no bad blocks (\<open>fs_wf\<close>).
\<close>

theorem file_isolation:
  assumes "fs_wf s" and "file_ok s i" and "ftype (din (nodes s i)) \<noteq> SFS_TYPE_DIR"
    and "file_ok s j" and "i \<noteq> j" and "owned s i \<inter> owned s j = {}"
    and "len \<le> file_blocks * SFS_BLKSIZE" and "off \<le> fsize (din (nodes s i))"
    and "off + length data \<le> file_blocks * SFS_BLKSIZE"
    and "t = snd (sfs_io_nolock True i data (int off) (length data) s) \<or> t = snd (sfs_truncfile i (int len) s)"
  shows "file_ok t j \<and> contents t j = contents s j \<and> owned t i \<inter> owned t j = {}"
proof -
  have "frame i s t"
    using write_ok [OF assms(1-3,8,9)] truncate_contents [OF assms(1-3,7)] assms(10) by auto
  note other = frame_other [OF this _ assms(5,6)] frameD(1) [OF this, of j]
  show ?thesis
    using other assms(4,5) unfolding file_ok_def contents_def by simp
qed

section \<open>Concrete file systems\<close>

text \<open>A disk of 32 blocks; the bits of the argument are the free blocks.\<close>

definition demo_fs :: "u32 \<Rightarrow> (nat \<Rightarrow> sfs_disk_inode) \<Rightarrow> sfs_fs" where
  "demo_fs free d =
     \<lparr>sblocks = 32, unused_blocks = length (filter (bit free) [0..<32]), super_dirty = False,
      freemap = \<lparr>nbits = 32, nwords = 1, bwords = [free]\<rparr>, d_blocks = 32, disk = (\<lambda>b k. of_nat (b + k)),
      bad = (\<lambda>_. False), nodes = (\<lambda>i. \<lparr>din = d i, dirty = False, reclaim_count = 1, ref_count = 1\<rparr>),
      inode_list = [5], kmem_left = []\<rparr>"

definition demo_inode :: "nat \<Rightarrow> nat \<Rightarrow> sfs_disk_inode" where
  "demo_inode n b = \<lparr>fsize = n, ftype = 1, nlinks = 1, blocks = (if b = 0 then 0 else 1),
     direct = b # replicate 11 0, indirect = 0\<rparr>"

lemma demo_avail: "avail (demo_fs free d) = {b. b < 32 \<and> bit free b}"
  by (auto simp: free_bits_def demo_fs_def)

lemma demo_wf:
  assumes "\<not> bit free 0"
  shows "fs_wf (demo_fs free d)"
proof -
  have set: "{b. b < 32 \<and> bit free b} = set (filter (bit free) [0..<32])"
    by auto
  have "0 < b" if "bit free b" for b
    using assms that by (cases b) auto
  moreover have "card {b. b < 32 \<and> bit free b} = length (filter (bit free) [0..<32])"
    unfolding set by (rule distinct_card) simp
  ultimately show ?thesis
    unfolding fs_wf_def demo_avail by (auto simp: demo_fs_def bitmap_wf_def)
qed

lemma demo_fmap: "d i = demo_inode n b \<Longrightarrow> fmap (demo_fs free d) i k = (if k = 0 then b else 0)"
  by (auto simp: fmap_def Let_def demo_fs_def demo_inode_def nth_Cons')

lemma demo_file:
  assumes "d i = demo_inode n b" "b < 32" "\<not> bit free b" "b = 0 \<and> n = 0 \<or> 0 < b \<and> 0 < n \<and> n \<le> SFS_BLKSIZE"
  shows "file_ok (demo_fs free d) i"
proof -
  have "(n + SFS_BLKSIZE - 1) div SFS_BLKSIZE = (if b = 0 then 0 else 1)"
    using assms(4) by (auto simp: div_nat_eqI)
  moreover have "din (nodes (demo_fs free d) i) = demo_inode n b"
    using assms(1) by (simp add: demo_fs_def)
  moreover from this have "file_wf (demo_fs free d) i"
    unfolding file_wf_def Let_def owned_def demo_avail using assms(2-)
    by (auto simp: demo_fmap [of d i, OF assms(1)]) (auto simp: demo_fs_def demo_inode_def inj_on_def)
  ultimately show ?thesis
    unfolding file_ok_def by (simp add: assms(1) demo_fs_def demo_inode_def)
qed

lemma demo_type: "d i = demo_inode n b \<Longrightarrow> ftype (din (nodes (demo_fs free d) i)) \<noteq> SFS_TYPE_DIR"
  "d i = demo_inode n b \<Longrightarrow> fsize (din (nodes (demo_fs free d) i)) = n"
  by (simp_all add: demo_fs_def demo_inode_def)

lemma demo_content:
  "d i = demo_inode n b \<Longrightarrow> 0 < b \<Longrightarrow> k < SFS_BLKSIZE \<Longrightarrow> content (demo_fs free d) i k = of_nat (b + k)"
  by (simp add: content_def demo_fmap) (simp add: demo_fs_def demo_inode_def)

lemma demo_contents:
  "d i = demo_inode n b \<Longrightarrow> 0 < b \<Longrightarrow> n \<le> SFS_BLKSIZE \<Longrightarrow>
    contents (demo_fs free d) i = map (\<lambda>k. of_nat (b + k)) [0..<n]"
  by (simp add: contents_def demo_type demo_content del: of_nat_add)

definition small_fs :: sfs_fs where
  "small_fs = demo_fs 512 (\<lambda>i. if i = 6 then demo_inode 2 8 else demo_inode 3 7)"

lemma small_fs_ok: "fs_wf small_fs" "file_ok small_fs 5" "file_ok small_fs 6" "contents small_fs 5 = [7, 8, 9]"
  "contents small_fs 6 = [8, 9]"
  "content small_fs 5 0 = 7" "content small_fs 5 1 = 8" "content small_fs 5 2 = 9" "content small_fs 5 3 = 10"
  "ftype (din (nodes small_fs 5)) \<noteq> SFS_TYPE_DIR" "fsize (din (nodes small_fs 5)) = 3"
  "owned small_fs 5 \<inter> owned small_fs 6 = {}"
proof -
  let ?d = "\<lambda>i :: nat. if i = 6 then demo_inode 2 8 else demo_inode 3 7"
  have d: "?d 5 = demo_inode 3 7" "?d 6 = demo_inode 2 8"
    by simp_all
  have bits: "\<not> bit (512 :: u32) 0" "\<not> bit (512 :: u32) 7" "\<not> bit (512 :: u32) 8"
    by code_simp+
  show "fs_wf small_fs"
    unfolding small_fs_def by (rule demo_wf [OF bits(1)])
  show "file_ok small_fs 5" "file_ok small_fs 6"
    unfolding small_fs_def by (rule demo_file [of ?d 5, OF d(1)], use bits in simp_all) (rule demo_file [of ?d 6, OF d(2)], use bits in simp_all)
  show "contents small_fs 5 = [7, 8, 9]" "contents small_fs 6 = [8, 9]"
    unfolding small_fs_def by (simp_all add: demo_contents [of ?d 5, OF d(1)] demo_contents [of ?d 6, OF d(2)] upt_rec)
  show "content small_fs 5 0 = 7" "content small_fs 5 1 = 8" "content small_fs 5 2 = 9" "content small_fs 5 3 = 10"
    unfolding small_fs_def by (simp_all add: demo_content [of ?d 5, OF d(1)])
  show "ftype (din (nodes small_fs 5)) \<noteq> SFS_TYPE_DIR" "fsize (din (nodes small_fs 5)) = 3"
    unfolding small_fs_def by (rule demo_type [of ?d 5, OF d(1)])+
  show "owned small_fs 5 \<inter> owned small_fs 6 = {}"
    unfolding small_fs_def owned_def demo_fmap [of ?d 5, OF d(1)] demo_fmap [of ?d 6, OF d(2)] by (auto simp: demo_fs_def demo_inode_def)
qed

text \<open>The same files on a disk with the free blocks 9 to 12.\<close>

definition roomy_fs :: sfs_fs where
  "roomy_fs = demo_fs 0x1E00 (\<lambda>i. if i = 6 then demo_inode 2 8 else demo_inode 3 7)"

lemma roomy_fs_ok: "fs_wf roomy_fs" "file_ok roomy_fs 5" "contents roomy_fs 5 = [7, 8, 9]"
  "ftype (din (nodes roomy_fs 5)) \<noteq> SFS_TYPE_DIR" "fsize (din (nodes roomy_fs 5)) = 3" "blocks (din (nodes roomy_fs 5)) = 1"
  "card (avail roomy_fs) = 4"
proof -
  let ?d = "\<lambda>i :: nat. if i = 6 then demo_inode 2 8 else demo_inode 3 7"
  have d: "?d 5 = demo_inode 3 7"
    by simp
  have bits: "\<not> bit (0x1E00 :: u32) 0" "\<not> bit (0x1E00 :: u32) 7"
    by code_simp+
  show "fs_wf roomy_fs"
    unfolding roomy_fs_def by (rule demo_wf [OF bits(1)])
  show "file_ok roomy_fs 5"
    unfolding roomy_fs_def by (rule demo_file [of ?d 5, OF d]) (use bits in simp_all)
  show "contents roomy_fs 5 = [7, 8, 9]"
    unfolding roomy_fs_def by (simp add: demo_contents [of ?d 5, OF d] upt_rec)
  show "ftype (din (nodes roomy_fs 5)) \<noteq> SFS_TYPE_DIR" "fsize (din (nodes roomy_fs 5)) = 3"
    unfolding roomy_fs_def by (rule demo_type [of ?d 5, OF d])+
  show "blocks (din (nodes roomy_fs 5)) = 1"
    by (simp add: roomy_fs_def demo_fs_def demo_inode_def)
  have "avail roomy_fs = set (filter (bit (0x1E00 :: u32)) [0..<32])"
    unfolding roomy_fs_def demo_avail by auto
  also have "\<dots> = {9, 10, 11, 12}"
    by code_simp
  finally show "card (avail roomy_fs) = 4"
    by simp
qed

theorem sfs_write_contents_witness:
  "\<exists>a t. sfs_io_nolock True 5 [1, 2, 3, 4] (int 2) (length [1::u8, 2, 3, 4]) roomy_fs = ((Ok (), [1, 2, 3, 4], a), t) \<and>
    fs_wf t \<and> file_ok t 5 \<and> contents t 5 = [7, 8, 1, 2, 3, 4]"
  using sfs_write_contents [OF roomy_fs_ok(1,2,4), of 2 "[1, 2, 3, 4]"]
  by (auto simp: roomy_fs_ok)

theorem sfs_read_contents_witness:
  "sfs_io_nolock False 5 [0, 0, 0, 0] (int 1) 4 small_fs = ((Ok (), [8, 9, 0, 0], 2), small_fs)"
  using sfs_read_contents [OF small_fs_ok(1,2,10), of 1 4 "[0, 0, 0, 0]"]
  by (simp add: small_fs_ok overwrite_def)

theorem sfs_truncate_contents_witness:
  "\<exists>t u. sfs_truncfile 5 (int 1) small_fs = (Ok (), t) \<and> contents t 5 = [7] \<and>
    sfs_truncfile 5 (int 12288) roomy_fs = (Ok (), u) \<and> contents u 5 = map (content roomy_fs 5) [0..<12288]"
proof -
  have "\<exists>t. sfs_truncfile 5 (int 1) small_fs = (Ok (), t) \<and> contents t 5 = [7]"
    using sfs_truncate_contents [OF small_fs_ok(1,2,10), of 1]
    by (auto simp: small_fs_ok split: outcome.splits) (metis outcome.exhaust old.unit.exhaust)
  moreover have "\<exists>u. sfs_truncfile 5 (int 12288) roomy_fs = (Ok (), u) \<and> contents u 5 = map (content roomy_fs 5) [0..<12288]"
    using sfs_truncate_contents [OF roomy_fs_ok(1,2,4), of 12288]
    by (auto simp: roomy_fs_ok split: outcome.splits) (metis outcome.exhaust old.unit.exhaust)
  ultimately show ?thesis
    by blast
qed

theorem truncate_extend_stale_witness:
  "\<exists>t u. sfs_truncfile 5 (int 1) small_fs = (Ok (), t) \<and> contents t 5 = [7] \<and>
    sfs_truncfile 5 (int 3) t = (Ok (), u) \<and> contents u 5 = [7, 8, 9]"
  using truncate_extend_stale [OF small_fs_ok(1,2,10), of 1 3]
  by (simp add: small_fs_ok)

theorem file_isolation_witness:
  "file_ok (snd (sfs_truncfile 5 (int 4000) small_fs)) 6 \<and>
    contents (snd (sfs_truncfile 5 (int 4000) small_fs)) 6 = [8, 9]"
  using file_isolation [OF small_fs_ok(1,2,10,3) _ small_fs_ok(12), of 4000 0 "[]"]
  by (simp add: small_fs_ok)

section \<open>Two panics\<close>

lemma load_last_block:
  assumes "fs_wf s" "file_wf s i" "blocks (din (nodes s i)) = 0" "avail s = {b}"
  obtains v where "sfs_bmap_load_nolock i 0 s = (Ok b, v)" "avail v = {}" "fs_wf v" "file_wf v i"
    "blocks (din (nodes v i)) = 1"
    "fsize (din (nodes v i)) = fsize (din (nodes s i))" "frame i s v"
proof -
  obtain u where u: "sfs_block_alloc s = (Ok b, u)" "avail u = {}"
      "u = s\<lparr>freemap := freemap u, unused_blocks := unused_blocks u, super_dirty := True, disk := (disk s)(b := \<lambda>_. 0)\<rparr>"
    using alloc_ok [OF assms(1)] assms(4) by auto
  have n: "nodes u = nodes s"
    by (subst u(3)) simp
  have "direct (din (nodes s i)) ! 0 = 0"
    using file_wfD(4) [OF assms(2), of 0] assms(3) by (simp add: fmap_def Let_def)
  moreover have "load_spec i 0 s (sfs_bmap_load_nolock i 0 s)"
    by (rule load_ok) (use assms in simp_all)
  moreover have "0 < b"
    using avail_range [OF assms(1)] assms(4) by simp
  moreover note u(1)
  ultimately show thesis
    using assms(3) u(2) n
    by (intro that [of "snd (sfs_bmap_load_nolock i 0 s)"])
      (auto simp: sfs_bmap_load_nolock_def sfs_bmap_get_nolock_def Let_def bmap_out_def load_spec_def
        upd_din_def upd_node_def set_dirty_def free_bits_def split: if_splits)
qed

lemma load_full_disk:
  assumes "fs_wf s" "file_wf s i" "blocks (din (nodes s i)) = n" "n < SFS_NDIRECT" "avail s = {}"
  shows "sfs_bmap_load_nolock i n s = (Err E_NO_MEM, s)"
proof -
  have "direct (din (nodes s i)) ! n = 0"
    using file_wfD(4) [OF assms(2), of n] assms(3,4) by (simp add: fmap_def Let_def)
  moreover have "sfs_block_alloc s = (Err E_NO_MEM, s)"
    using alloc_ok [OF assms(1)] assms(5) by auto
  ultimately show ?thesis
    using assms(3,4) by (simp add: sfs_bmap_load_nolock_def sfs_bmap_get_nolock_def Let_def)
qed

text \<open>
  C40: A file that fails to grow is damaged: when the disk fills up while \<open>sfs_truncfile\<close> extends a file, the
  blocks it has added stay in the inode and the size does not change, and truncating the file to the size it
  still has (which removing it also does) then violates the assertion on the block count.
\<close>

theorem failed_growth_panics:
  assumes "fs_wf s" and "file_ok s i" and "ftype (din (nodes s i)) \<noteq> SFS_TYPE_DIR"
    and "fsize (din (nodes s i)) = 0" and "avail s = {b}"
  shows "\<exists>t. sfs_truncfile i (int 8192) s = (Err E_NO_MEM, t) \<and> contents t i = contents s i \<and>
    sfs_truncfile i (int 0) t = (Fault, t)"
proof -
  have s: "file_wf s i" "blocks (din (nodes s i)) = 0"
    using assms(2,4) unfolding file_ok_def by simp_all
  obtain v where v: "sfs_bmap_load_nolock i 0 s = (Ok b, v)" "avail v = {}" "fs_wf v" "file_wf v i"
      "blocks (din (nodes v i)) = 1" "fsize (din (nodes v i)) = fsize (din (nodes s i))" "frame i s v"
    using load_last_block [OF assms(1) s assms(5)] by metis
  have "grow_loop i 0 2 s = (Err E_NO_MEM, v)"
    using v(1) load_full_disk [OF v(3,4,5) _ v(2)] by (simp add: numeral_2_eq_2)
  moreover have "ftype (din (nodes v i)) \<noteq> SFS_TYPE_DIR"
    using frameD(8) [OF v(7)] assms(3) by simp
  ultimately show ?thesis
    using assms(3,4) s(2) v(5,6) by (auto simp: sfs_truncfile_def contents_def)
qed

theorem failed_growth_panics_witness:
  "\<exists>t. sfs_truncfile 5 (int 8192) (demo_fs 512 (\<lambda>_. demo_inode 0 0)) = (Err E_NO_MEM, t) \<and>
    contents t 5 = [] \<and> sfs_truncfile 5 (int 0) t = (Fault, t)"
proof -
  have "(512 :: u32) = 2 ^ 9"
    by simp
  then have "bit (512 :: u32) b \<longleftrightarrow> b = 9" for b
    by (simp only: bit_exp_iff possible_bit_word) auto
  then have "avail (demo_fs 512 (\<lambda>_. demo_inode 0 0)) = {9}"
    unfolding demo_avail by auto
  moreover have "fs_wf (demo_fs 512 (\<lambda>_. demo_inode 0 0))" "file_ok (demo_fs 512 (\<lambda>_. demo_inode 0 0)) 5"
    by (rule demo_wf, code_simp) (rule demo_file, rule refl, simp, code_simp, simp)
  ultimately show ?thesis
    using failed_growth_panics [of "demo_fs 512 (\<lambda>_. demo_inode 0 0)" 5 9]
    by (simp add: demo_type contents_def)
qed

text \<open>
  The size limit is above what an inode can map: \<open>SFS_MAX_FILE_SIZE\<close> is 128 megabytes, an inode maps 12
  direct and 1024 indirect blocks, and appending to a file that has them all ends in a panic, not in an error.
\<close>

theorem file_limit_panics:
  assumes "blocks (din (nodes s i)) = file_blocks" and "fsize (din (nodes s i)) = file_blocks * SFS_BLKSIZE"
    and "ftype (din (nodes s i)) \<noteq> SFS_TYPE_DIR" and "data \<noteq> []" and "length data \<le> SFS_MAX_FILE_SIZE"
  shows "file_blocks * SFS_BLKSIZE < SFS_MAX_FILE_SIZE \<and>
    sfs_io_nolock True i data (int (file_blocks * SFS_BLKSIZE)) (length data) s = ((Fault, data, 0), s)"
proof -
  have load: "sfs_bmap_load_nolock i file_blocks s = (Fault, s)"
    using assms(1) by (simp add: sfs_bmap_load_nolock_def sfs_bmap_get_nolock_def Let_def)
  have range: "io_range True i (file_blocks * SFS_BLKSIZE) endpos data s = ((Fault, data, 0), s)"
    if "file_blocks * SFS_BLKSIZE < endpos" for endpos
  proof (cases "endpos div SFS_BLKSIZE - file_blocks")
    case 0
    then have "endpos mod SFS_BLKSIZE \<noteq> 0"
      using that by (auto simp: mod_eq_0_iff_dvd dvd_def)
    with 0 show ?thesis
      unfolding io_range_def Let_def by (simp add: load io_tail_def io_part_def)
  next
    case (Suc n)
    then show ?thesis
      unfolding io_range_def Let_def by (simp add: load io_tail_def)
  qed
  have "int32 (int (file_blocks * SFS_BLKSIZE) + int (length data)) = int (file_blocks * SFS_BLKSIZE + length data)"
    using assms(5) by (simp add: int32_def)
  then show ?thesis
    using assms(2-4) range [of "min (file_blocks * SFS_BLKSIZE + length data) SFS_MAX_FILE_SIZE"]
    by (cases "length data \<le> 129974272") (simp_all add: sfs_io_nolock_def Let_def min_def nat_add_distrib)
qed

theorem file_limit_panics_witness:
  "sfs_io_nolock True 5 [1] (int (file_blocks * SFS_BLKSIZE)) 1
     (demo_fs 0 (\<lambda>_. \<lparr>fsize = file_blocks * SFS_BLKSIZE, ftype = 1, nlinks = 1, blocks = file_blocks, direct = [], indirect = 9\<rparr>))
   = ((Fault, [1], 0),
     (demo_fs 0 (\<lambda>_. \<lparr>fsize = file_blocks * SFS_BLKSIZE, ftype = 1, nlinks = 1, blocks = file_blocks, direct = [], indirect = 9\<rparr>)))"
  using file_limit_panics [of "demo_fs 0 (\<lambda>_. \<lparr>fsize = file_blocks * SFS_BLKSIZE, ftype = 1, nlinks = 1, blocks = file_blocks, direct = [], indirect = 9\<rparr>)" 5 "[1]"]
  by (simp add: demo_fs_def)

end
