(* ===== verification/Sfs_Dir.thy ===== *)
theory Sfs_Dir
  imports Sfs_File
begin

text \<open>
  Directories of the simple file system.  A directory is a file with one entry per block; \<open>dir_map\<close> is the
  finite map from names to inode numbers that its entries represent.  The search finds a name exactly when
  it is in the map, linking adds a name, unlinking removes it, and both leave the other names alone.
\<close>

section \<open>Entries\<close>

definition slot_bytes :: "sfs_fs \<Rightarrow> nat \<Rightarrow> nat \<Rightarrow> u8 list" where
  "slot_bytes s d k = map (content s d) [k * SFS_BLKSIZE..<k * SFS_BLKSIZE + 260]"

definition dentry :: "sfs_fs \<Rightarrow> nat \<Rightarrow> nat \<Rightarrow> sfs_disk_entry" where
  "dentry s d k = \<lparr>e_ino = get32 (slot_bytes s d k) 0,
     e_name = cstring ((drop 4 (slot_bytes s d k))[SFS_MAX_FNAME_LEN := 0])\<rparr>"

definition holds :: "sfs_fs \<Rightarrow> nat \<Rightarrow> nat \<Rightarrow> u8 list \<Rightarrow> bool" where
  "holds s d k name \<longleftrightarrow> e_ino (dentry s d k) \<noteq> 0 \<and> e_name (dentry s d k) = name"

definition dir_map :: "sfs_fs \<Rightarrow> nat \<Rightarrow> u8 list \<Rightarrow> nat option" where
  "dir_map s d name = map_option (\<lambda>k. e_ino (dentry s d k)) (find (\<lambda>k. holds s d k name) [0..<nblocks s d])"

definition dir_wf :: "sfs_fs \<Rightarrow> nat \<Rightarrow> bool" where
  "dir_wf s d \<longleftrightarrow> file_wf s d \<and> ftype (din (nodes s d)) = SFS_TYPE_DIR \<and>
     (\<forall>k < nblocks s d. \<forall>l < nblocks s d. \<forall>name. holds s d k name \<and> holds s d l name \<longrightarrow> k = l)"

lemma dir_wfD:
  assumes "dir_wf s d"
  shows "file_wf s d" "ftype (din (nodes s d)) = SFS_TYPE_DIR"
    "k < nblocks s d \<Longrightarrow> l < nblocks s d \<Longrightarrow> holds s d k name \<Longrightarrow> holds s d l name \<Longrightarrow> k = l"
  using assms unfolding dir_wf_def by blast+

lemma dir_map_None: "dir_map s d name = None \<longleftrightarrow> (\<forall>k < nblocks s d. \<not> holds s d k name)"
  by (auto simp: dir_map_def find_None_iff)

lemma dir_map_Some:
  assumes "dir_wf s d"
  shows "dir_map s d name = Some i \<longleftrightarrow> (\<exists>k < nblocks s d. holds s d k name \<and> e_ino (dentry s d k) = i)"
proof -
  have "(\<exists>k < nblocks s d. holds s d k name \<and> e_ino (dentry s d k) = i) \<Longrightarrow> dir_map s d name = Some i"
  proof (elim exE conjE)
    fix k
    assume k: "k < nblocks s d" "holds s d k name" "e_ino (dentry s d k) = i"
    then obtain l where l: "find (\<lambda>k. holds s d k name) [0..<nblocks s d] = Some l"
      by (cases "find (\<lambda>k. holds s d k name) [0..<nblocks s d]") (auto simp: find_None_iff)
    then have "l < nblocks s d" "holds s d l name"
      by (auto simp: find_Some_iff)
    then have "l = k"
      using dir_wfD(3) [OF assms] k by blast
    with l k(3) show "dir_map s d name = Some i"
      by (simp add: dir_map_def)
  qed
  moreover have "\<exists>k < nblocks s d. holds s d k name \<and> e_ino (dentry s d k) = i" if "dir_map s d name = Some i"
    using that by (auto simp: dir_map_def find_Some_iff)
  ultimately show ?thesis
    by blast
qed

section \<open>Searching\<close>

lemma slot_block:
  assumes "file_wf s d" "k < nblocks s d" "n \<le> SFS_BLKSIZE"
  shows "map (disk s (fmap s d k)) [0..<n] = map (content s d) [k * SFS_BLKSIZE..<k * SFS_BLKSIZE + n]"
proof (rule nth_equalityI)
  fix j
  assume "j < length (map (disk s (fmap s d k)) [0..<n])"
  then have j: "j < n"
    by simp
  with assms(3) have b: "j < SFS_BLKSIZE"
    by simp
  have "k * SFS_BLKSIZE + j < nblocks s d * SFS_BLKSIZE"
    using mult_le_mono1 [of "k + 1" "nblocks s d" SFS_BLKSIZE] assms(2) b by simp
  then show "map (disk s (fmap s d k)) [0..<n] ! j = map (content s d) [k * SFS_BLKSIZE..<k * SFS_BLKSIZE + n] ! j"
    using j b by (simp add: content_def)
qed simp

lemma read_slot:
  assumes "fs_wf s" "dir_wf s d" "k < nblocks s d"
  shows "sfs_dirent_read_nolock d k s = (Ok (dentry s d k), s)"
proof -
  note wf = dir_wfD [OF assms(2)]
  note b = file_wfD(7) [OF wf(1) assms(3)]
  have "sfs_rbuf 260 (fmap s d k) 0 s = Ok (slot_bytes s d k)"
    using rbuf_ok [OF assms(1), of "fmap s d k" 0 260] b slot_block [OF wf(1) assms(3), of 260]
    by (simp add: slot_bytes_def)
  then show ?thesis
    using load_old [OF assms(1) wf(1) assms(3)] inuse_iff [OF assms(1), of "fmap s d k"] b wf(2) assms(3)
    by (simp add: sfs_dirent_read_nolock_def dentry_def)
qed

lemma search_loop_ok:
  assumes "fs_wf s" "dir_wf s d" "set ks \<subseteq> {..<nblocks s d}"
  shows "search_loop d name ks v s =
    (case find (\<lambda>k. holds s d k name) ks of
       Some k \<Rightarrow> ((Ok (k, e_ino (dentry s d k)), last (v # filter (\<lambda>k. e_ino (dentry s d k) = 0) (takeWhile (\<lambda>k. \<not> holds s d k name) ks))), s)
     | None \<Rightarrow> ((Err E_NOENT, last (v # filter (\<lambda>k. e_ino (dentry s d k) = 0) ks)), s))"
  using assms(3)
proof (induction ks arbitrary: v)
  case (Cons k ks)
  then show ?case
    using read_slot [OF assms(1,2), of k] by (auto simp: holds_def split: option.splits)
qed simp

text \<open>Link counts, reference counts and flags do not concern the files and directories themselves.\<close>

definition same_data :: "sfs_fs \<Rightarrow> sfs_fs \<Rightarrow> bool" where
  "same_data s t \<longleftrightarrow> disk t = disk s \<and> freemap t = freemap s \<and> sblocks t = sblocks s \<and>
     unused_blocks t = unused_blocks s \<and> d_blocks t = d_blocks s \<and> bad t = bad s \<and>
     (\<forall>j. \<exists>n. din (nodes t j) = (din (nodes s j))\<lparr>nlinks := n\<rparr>)"

lemma same_data_nodes:
  assumes "same_data s t"
  shows "fsize (din (nodes t j)) = fsize (din (nodes s j))" "ftype (din (nodes t j)) = ftype (din (nodes s j))"
    "blocks (din (nodes t j)) = blocks (din (nodes s j))" "direct (din (nodes t j)) = direct (din (nodes s j))"
    "indirect (din (nodes t j)) = indirect (din (nodes s j))"
proof -
  obtain n where "din (nodes t j) = (din (nodes s j))\<lparr>nlinks := n\<rparr>"
    using assms unfolding same_data_def by blast
  then show "fsize (din (nodes t j)) = fsize (din (nodes s j))" "ftype (din (nodes t j)) = ftype (din (nodes s j))"
    "blocks (din (nodes t j)) = blocks (din (nodes s j))" "direct (din (nodes t j)) = direct (din (nodes s j))"
    "indirect (din (nodes t j)) = indirect (din (nodes s j))"
    by simp_all
qed

lemma same_dataD:
  assumes "same_data s t"
  shows "fmap t d = fmap s d" "content t d = content s d" "owned t d = owned s d" "file_wf t d = file_wf s d"
    "file_ok t d = file_ok s d" "contents t d = contents s d" "slot_bytes t d = slot_bytes s d"
    "dentry t d = dentry s d" "holds t d = holds s d" "dir_map t d = dir_map s d" "dir_wf t d = dir_wf s d"
    "fs_wf t = fs_wf s" "avail t = avail s"
proof -
  note n = same_data_nodes [OF assms, of d]
  have g: "disk t = disk s" "freemap t = freemap s" "sblocks t = sblocks s"
      "unused_blocks t = unused_blocks s" "d_blocks t = d_blocks s" "bad t = bad s"
    using assms unfolding same_data_def by simp_all
  show f: "fmap t d = fmap s d"
    by (rule ext) (simp add: fmap_def Let_def n g cong: if_cong)
  show c: "content t d = content s d"
    by (rule ext) (simp add: content_def f n g cong: if_cong)
  show o: "owned t d = owned s d"
    unfolding owned_def f n ..
  show w: "file_wf t d = file_wf s d"
    unfolding file_wf_def Let_def f o n g ..
  show "file_ok t d = file_ok s d" "contents t d = contents s d"
    unfolding file_ok_def contents_def w n c by (rule refl)+
  show b: "slot_bytes t d = slot_bytes s d"
    by (rule ext) (simp add: slot_bytes_def c)
  show e: "dentry t d = dentry s d"
    by (rule ext) (simp add: dentry_def b)
  show h: "holds t d = holds s d"
    by (intro ext) (simp add: holds_def e)
  show "dir_map t d = dir_map s d"
    by (rule ext) (simp add: dir_map_def h e n)
  show "dir_wf t d = dir_wf s d"
    unfolding dir_wf_def h w n ..
  show "fs_wf t = fs_wf s" "avail t = avail s"
    unfolding fs_wf_def g by (rule refl)+
qed

lemma nlinks_id [simp]: "\<exists>n. d = d\<lparr>nlinks := n\<rparr>"
  by (rule exI [of _ "nlinks d"]) simp

lemma same_data_trans: "same_data s t \<Longrightarrow> same_data t u \<Longrightarrow> same_data s u"
  unfolding same_data_def by (metis sfs_disk_inode.surjective sfs_disk_inode.update_convs(3))

lemma same_data_refl [simp]: "same_data s s"
  by (simp add: same_data_def)

lemma same_data_steps [simp]:
  "same_data s (s\<lparr>kmem_left := x\<rparr>)" "same_data s (set_dirty i s)" "same_data s (inc_nlinks i s)"
  "same_data s (dec_nlinks i s)" "same_data s (inode_ref_inc i s)" "same_data s (snd (lookup_sfs_nolock i s))"
  "same_data s (upd_node i (\<lambda>n. n\<lparr>ref_count := f n\<rparr>) s)"
  by (auto simp: same_data_def set_dirty_def inc_nlinks_def dec_nlinks_def inode_ref_inc_def lookup_sfs_nolock_def
      upd_din_def upd_node_def)

lemma kmalloc_state: "\<exists>x. snd (kmalloc_ok s) = s\<lparr>kmem_left := x\<rparr>"
proof (cases "kmem_left s")
  case Nil
  then show ?thesis
    by (intro exI [of _ "[]"]) (simp add: kmalloc_ok_def)
qed (simp add: kmalloc_ok_def, blast)

text \<open>The search: an entry with the name, or a vacant slot that may be one past the last.\<close>

lemma search_ok:
  assumes "fs_wf s" "dir_wf s d" "length name \<le> SFS_MAX_FNAME_LEN"
  obtains (memory) v where "sfs_dirent_search_nolock d name s = ((Err E_NO_MEM, v), snd (kmalloc_ok s))" "\<not> fst (kmalloc_ok s)"
    | (found) k v where "k < nblocks s d" "holds s d k name"
        "sfs_dirent_search_nolock d name s = ((Ok (k, e_ino (dentry s d k)), v), snd (kmalloc_ok s))"
    | (missing) v where "dir_map s d name = None" "v = nblocks s d \<or> v < nblocks s d \<and> e_ino (dentry s d v) = 0"
        "sfs_dirent_search_nolock d name s = ((Err E_NOENT, v), snd (kmalloc_ok s))"
proof (cases "fst (kmalloc_ok s)")
  case False
  then show thesis
    using memory assms(3) by (cases "kmalloc_ok s") (simp add: sfs_dirent_search_nolock_def)
next
  case True
  let ?t = "snd (kmalloc_ok s)"
  have t: "fs_wf ?t" "dir_wf ?t d = dir_wf s d" "nodes ?t = nodes s" "dentry ?t d = dentry s d" "holds ?t d = holds s d"
    using same_dataD(8,9,11) [of s ?t d] same_dataD(12) [of s ?t] kmalloc_state [of s] assms(1) by auto
  have eq: "sfs_dirent_search_nolock d name s = search_loop d name [0..<nblocks s d] (nblocks s d) ?t"
    using True assms(3) t(3) by (cases "kmalloc_ok s") (simp add: sfs_dirent_search_nolock_def)
  have w: "dir_wf ?t d" "set [0..<nblocks s d] \<subseteq> {..<nblocks ?t d}"
    using assms(2) t(2,3) by auto
  have loop: "search_loop d name [0..<nblocks s d] (nblocks s d) ?t =
    (case find (\<lambda>k. holds s d k name) [0..<nblocks s d] of
       Some k \<Rightarrow> ((Ok (k, e_ino (dentry s d k)), last (nblocks s d # filter (\<lambda>k. e_ino (dentry s d k) = 0)
         (takeWhile (\<lambda>k. \<not> holds s d k name) [0..<nblocks s d]))), ?t)
     | None \<Rightarrow> ((Err E_NOENT, last (nblocks s d # filter (\<lambda>k. e_ino (dentry s d k) = 0) [0..<nblocks s d])), ?t))"
    by (rule search_loop_ok [OF t(1) w, unfolded t(4,5)])
  show thesis
  proof (cases "find (\<lambda>k. holds s d k name) [0..<nblocks s d]")
    case None
    let ?v = "last (nblocks s d # filter (\<lambda>k. e_ino (dentry s d k) = 0) [0..<nblocks s d])"
    have "?v \<in> set (nblocks s d # filter (\<lambda>k. e_ino (dentry s d k) = 0) [0..<nblocks s d])"
      by (rule last_in_set) simp
    then have v: "?v = nblocks s d \<or> ?v < nblocks s d \<and> e_ino (dentry s d ?v) = 0"
      by auto
    show thesis
      by (rule missing [OF _ v]) (use None eq loop in \<open>simp_all add: dir_map_def\<close>)
  next
    case (Some k)
    then have "k < nblocks s d" "holds s d k name"
      by (auto simp: find_Some_iff)
    with Some show thesis
      using found eq loop by simp
  qed
qed

section \<open>Writing entries\<close>

lemma slot_patch:
  assumes "length bs = 260" "content t d = patch (content s d) (k * SFS_BLKSIZE) bs"
  shows "slot_bytes t d l = (if l = k then bs else slot_bytes s d l)"
proof (cases "l = k")
  case True
  then show ?thesis
    using assms by (auto simp: slot_bytes_def patch_def intro!: nth_equalityI)
next
  case False
  then consider "l + 1 \<le> k" | "k + 1 \<le> l"
    by linarith
  then have "patch (content s d) (k * SFS_BLKSIZE) bs x = content s d x"
      if "l * SFS_BLKSIZE \<le> x" "x < l * SFS_BLKSIZE + 260" for x
  proof cases
    case 1
    then show ?thesis
      using that mult_le_mono1 [of "l + 1" k SFS_BLKSIZE] by (simp add: patch_def)
  next
    case 2
    then show ?thesis
      using that assms(1) mult_le_mono1 [of "k + 1" l SFS_BLKSIZE] by (simp add: patch_def)
  qed
  with False show ?thesis
    using assms(2) by (simp add: slot_bytes_def)
qed

lemma length_encode_entry: "length name \<le> SFS_MAX_FNAME_LEN \<Longrightarrow> length (encode_entry i name) = 260"
  by (simp add: encode_entry_def)

lemma decode_entry:
  assumes "length name \<le> SFS_MAX_FNAME_LEN" "0 \<notin> set name" "i < 2 ^ 32" "slot_bytes s d k = encode_entry i name"
  shows "dentry s d k = \<lparr>e_ino = i, e_name = name\<rparr>"
proof -
  let ?z = "replicate (SFS_MAX_FNAME_LEN + 1 - length name) (0 :: u8)"
  have "(name @ ?z)[SFS_MAX_FNAME_LEN := 0] = name @ ?z"
    using assms(1) by (intro nth_equalityI) (auto simp: nth_list_update nth_append)
  moreover have "takeWhile (\<lambda>c. c \<noteq> 0) (name @ ?z) = name"
    using assms(1,2) by (cases "SFS_MAX_FNAME_LEN + 1 - length name") (auto simp: takeWhile_append)
  ultimately show ?thesis
    using assms(3,4) get_put32 [OF assms(3)] by (simp add: dentry_def encode_entry_def cstring_def)
qed

lemma decode_zero: "slot_bytes s d k = replicate 260 0 \<Longrightarrow> e_ino (dentry s d k) = 0"
  by (simp add: dentry_def get32_def)

lemma map_eqI: "(\<And>x y. f x = Some y \<longleftrightarrow> g x = Some y) \<Longrightarrow> f = g"
  by (rule ext) (metis not_Some_eq)

lemma put_entry:
  assumes "dir_wf s d" "file_wf t d" "ftype (din (nodes t d)) = SFS_TYPE_DIR"
    and n: "nblocks t d = max (nblocks s d) (k + 1)" "k = nblocks s d \<or> k < nblocks s d \<and> e_ino (dentry s d k) = 0"
    and b: "\<And>l. slot_bytes t d l = (if l = k then encode_entry i name else slot_bytes s d l)"
    and i: "0 < i" "i < 2 ^ 32" "length name \<le> SFS_MAX_FNAME_LEN" "0 \<notin> set name" "dir_map s d name = None"
  shows "dir_wf t d" "dir_map t d = (dir_map s d)(name \<mapsto> i)"
proof -
  have e: "dentry t d l = (if l = k then \<lparr>e_ino = i, e_name = name\<rparr> else dentry s d l)" for l
    using b [of l] b [of k] decode_entry [OF i(3,4,2), of t d k] by (cases "l = k") (simp_all add: dentry_def)
  then have h: "holds t d l x \<longleftrightarrow> (if l = k then x = name else holds s d l x)" for l x
    using i(1) by (auto simp: holds_def)
  have none: "l < nblocks s d \<Longrightarrow> \<not> holds s d l name" for l
    using i(5) by (simp add: dir_map_None)
  have k: "k < nblocks s d \<Longrightarrow> \<not> holds s d k x" for x
    using n(2) by (auto simp: holds_def)
  have lt: "l < nblocks t d \<longleftrightarrow> l = k \<or> l < nblocks s d" for l
    using n by auto
  show wf: "dir_wf t d"
    unfolding dir_wf_def
  proof (intro conjI allI impI)
    fix l m x
    assume "l < nblocks t d" "m < nblocks t d" "holds t d l x \<and> holds t d m x"
    then show "l = m"
      using h none lt dir_wfD(3) [OF assms(1), of l m x] by (metis (no_types))
  qed (use assms(2,3) in simp_all)
  have "dir_map t d x = Some j \<longleftrightarrow> ((dir_map s d)(name \<mapsto> i)) x = Some j" for x j
  proof (cases "x = name")
    case True
    have "(\<exists>l < nblocks t d. holds t d l x \<and> e_ino (dentry t d l) = j) \<longleftrightarrow> j = i"
      using True none by (auto simp: lt h e)
    with True show ?thesis
      unfolding dir_map_Some [OF wf] by auto
  next
    case False
    have "l < nblocks t d \<and> holds t d l x \<and> e_ino (dentry t d l) = j \<longleftrightarrow>
        l < nblocks s d \<and> holds s d l x \<and> e_ino (dentry s d l) = j" for l
      using False k by (cases "l = k") (auto simp: lt h e)
    with False show ?thesis
      unfolding dir_map_Some [OF wf] by (simp add: dir_map_Some [OF assms(1)])
  qed
  then show "dir_map t d = (dir_map s d)(name \<mapsto> i)"
    by (rule map_eqI)
qed

lemma clear_entry:
  assumes "dir_wf s d" "file_wf t d" "ftype (din (nodes t d)) = SFS_TYPE_DIR"
    and n: "nblocks t d = nblocks s d" "k < nblocks s d" "holds s d k name"
    and b: "\<And>l. slot_bytes t d l = (if l = k then replicate 260 0 else slot_bytes s d l)"
  shows "dir_wf t d" "dir_map t d = (dir_map s d)(name := None)"
proof -
  have e: "l \<noteq> k \<Longrightarrow> dentry t d l = dentry s d l" for l
    using b [of l] by (simp add: dentry_def)
  have h: "holds t d l x \<longleftrightarrow> l \<noteq> k \<and> holds s d l x" for l x
    using e [of l] decode_zero [of t d k] b [of k] by (cases "l = k") (auto simp: holds_def)
  show wf: "dir_wf t d"
    unfolding dir_wf_def n(1)
  proof (intro conjI allI impI)
    fix l m x
    assume "l < nblocks s d" "m < nblocks s d" "holds t d l x \<and> holds t d m x"
    then show "l = m"
      using h dir_wfD(3) [OF assms(1), of l m x] by blast
  qed (use assms(2,3) in simp_all)
  have only: "holds s d k x \<Longrightarrow> x = name" for x
    using n(3) by (simp add: holds_def)
  have "dir_map t d x = Some j \<longleftrightarrow> ((dir_map s d)(name := None)) x = Some j" for x j
  proof (cases "x = name")
    case True
    then have "\<not> (l < nblocks s d \<and> holds t d l x)" for l
      using h dir_wfD(3) [OF assms(1) _ n(2) _ n(3), of l] by blast
    with True show ?thesis
      unfolding dir_map_Some [OF wf] n(1) by auto
  next
    case False
    have "holds t d l x \<and> e_ino (dentry t d l) = j \<longleftrightarrow> holds s d l x \<and> e_ino (dentry s d l) = j" for l
      using False only e [of l] by (cases "l = k") (auto simp: h)
    with False show ?thesis
      unfolding dir_map_Some [OF wf] n(1) by (simp add: dir_map_Some [OF assms(1)])
  qed
  then show "dir_map t d = (dir_map s d)(name := None)"
    by (rule map_eqI)
qed

lemma write_slot:
  assumes "fs_wf s" "file_wf s d" "k \<le> nblocks s d" "k < file_blocks" "length bs = 260"
  obtains (full) t where "sfs_bmap_load_nolock d k s = (Err E_NO_MEM, t)" "fs_wf t" "file_wf t d" "frame d s t"
      "content t d = content s d" "nblocks t d = nblocks s d" "card (avail s) \<le> 1"
    | (stored) b t u where "sfs_bmap_load_nolock d k s = (Ok b, t)" "sfs_wbuf bs b 0 t = (Ok (), u)" "fs_wf u"
      "file_wf u d" "frame d s u" "nblocks u d = max (nblocks s d) (k + 1)"
      "\<And>l. slot_bytes u d l = (if l = k then bs else slot_bytes s d l)"
proof -
  obtain r t where l: "sfs_bmap_load_nolock d k s = (r, t)"
    by fastforce
  have t: "fs_wf t" "file_wf t d" "frame d s t" "content t d = content s d"
      "case r of
        Ok b \<Rightarrow> b = fmap t d k \<and> nblocks t d = max (nblocks s d) (k + 1)
      | Err e \<Rightarrow> e = E_NO_MEM \<and> k = nblocks s d \<and> nblocks t d = k \<and> disk_full t d | Fault \<Rightarrow> False"
    using load_ok [OF assms(1-4)] unfolding l load_spec_def by simp_all
  have short: "card (avail s) \<le> 1" if "disk_full t d" "nblocks t d = nblocks s d"
    using full_shortage [OF t(3) assms(1) t(1) assms(2) t(2) that(1)] that(2) by simp
  show thesis
  proof (cases r)
    case (Ok b)
    then have b: "b = fmap t d k" "nblocks t d = max (nblocks s d) (k + 1)"
      using t(5) by simp_all
    then have k: "k < nblocks t d"
      by simp
    let ?u = "t\<lparr>disk := (disk t)(b := patch (disk t b) 0 bs)\<rparr>"
    have w: "sfs_wbuf bs b 0 t = (Ok (), ?u)"
      by (rule wbuf_ok) (use t(1) file_wfD(7) [OF t(2) k] b(1) assms(5) in simp_all)
    have u: "file_wf ?u d" "frame d t ?u" "content ?u d = patch (content t d) (k * SFS_BLKSIZE + 0) bs"
      by (rule write_to_block [OF t(2) k, of 0 bs "patch (disk t b) 0 bs"]; use assms(5) b(1) in simp)+
    show thesis
      by (rule stored [OF _ w _ u(1) frame_trans [OF t(3) u(2)]])
        (use l Ok t(1,4) b(2) slot_patch [OF assms(5), of ?u d s k] u(3) in simp_all)
  qed (use t l full short in auto)
qed

lemma dir_same:
  assumes "dir_wf s d" "file_wf t d" "content t d = content s d" "nblocks t d = nblocks s d"
    "ftype (din (nodes t d)) = ftype (din (nodes s d))"
  shows "dir_wf t d" "dir_map t d = dir_map s d" "dentry t d = dentry s d"
proof -
  show e: "dentry t d = dentry s d"
    by (rule ext) (simp add: dentry_def slot_bytes_def assms(3))
  have h: "holds t d = holds s d"
    by (intro ext) (simp add: holds_def e)
  show "dir_map t d = dir_map s d"
    by (rule ext) (simp add: dir_map_def h e assms(4))
  show "dir_wf t d"
    using assms(1,2,5) unfolding dir_wf_def h assms(4) by simp
qed

section \<open>Linking\<close>

lemma link_ok:
  assumes "fs_wf s" "dir_wf s d" "nblocks s d < file_blocks"
    and k: "k = nblocks s d \<or> k < nblocks s d \<and> e_ino (dentry s d k) = 0"
    and i: "0 < i" "i < 2 ^ 32" "i \<noteq> d" "valid_name name" "0 \<notin> set name" "dir_map s d name = None"
  obtains (full) t where "sfs_dirent_link_nolock d k i name s = (Err E_NO_MEM, t)" "fs_wf t" "frame d s t"
      "dir_wf t d" "dir_map t d = dir_map s d" "card (avail s) \<le> 1"
    | (linked) t u where "sfs_dirent_link_nolock d k i name s = (Ok (), u)" "fs_wf u" "frame d s t" "same_data t u"
      "dir_wf u d" "dir_map u d = (dir_map s d)(name \<mapsto> i)" "nlinks (din (nodes u i)) = (nlinks (din (nodes s i)) + 1) mod 65536"
proof -
  note wf = dir_wfD [OF assms(2)]
  have len: "length name \<le> SFS_MAX_FNAME_LEN"
    using i(4) by (simp add: valid_name_def)
  have kk: "k \<le> nblocks s d" "k < file_blocks"
    using k assms(3) by auto
  show thesis
  proof (rule write_slot [OF assms(1) wf(1) kk length_encode_entry [OF len, of i]])
    fix t
    assume t: "sfs_bmap_load_nolock d k s = (Err E_NO_MEM, t)" "fs_wf t" "file_wf t d" "frame d s t"
      "content t d = content s d" "nblocks t d = nblocks s d" "card (avail s) \<le> 1"
    have "dir_wf t d" "dir_map t d = dir_map s d"
      using dir_same [OF assms(2) t(3,5,6) frameD(8) [OF t(4)]] by simp_all
    then show thesis
      using full t(1,2,4,7) i(4) by (simp add: sfs_dirent_link_nolock_def)
  next
    fix b t u
    assume u: "sfs_bmap_load_nolock d k s = (Ok b, t)" "sfs_wbuf (encode_entry i name) b 0 t = (Ok (), u)" "fs_wf u"
      "file_wf u d" "frame d s u" "nblocks u d = max (nblocks s d) (k + 1)"
      "\<And>l. slot_bytes u d l = (if l = k then encode_entry i name else slot_bytes s d l)"
    note dir = put_entry [OF assms(2) u(4) _ u(6) k u(7) i(1,2) len i(5,6)]
    have ty: "ftype (din (nodes u d)) = SFS_TYPE_DIR"
      using frameD(8) [OF u(5)] wf(2) by simp
    let ?v = "set_dirty d (inc_nlinks i u)"
    have v: "same_data u ?v"
      using same_data_trans same_data_steps by blast
    have "nlinks (din (nodes ?v i)) = (nlinks (din (nodes s i)) + 1) mod 65536"
      using frameD(1) [OF u(5) i(3)] i(3) by (simp add: set_dirty_def inc_nlinks_def upd_din_def upd_node_def)
    then show thesis
      using linked [OF _ _ u(5) v] u(1-3) dir [OF ty] i(4) same_dataD(10,11) [OF v, of d] same_dataD(12) [OF v]
      by (simp add: sfs_dirent_link_nolock_def)
  qed
qed

text \<open>Files that share no block with the directory are not touched.\<close>

definition elsewhere :: "nat \<Rightarrow> sfs_fs \<Rightarrow> sfs_fs \<Rightarrow> bool" where
  "elsewhere d s t \<longleftrightarrow> (\<forall>j. j \<noteq> d \<and> j \<notin> avail s \<and> file_ok s j \<and> owned s d \<inter> owned s j = {} \<longrightarrow>
     file_ok t j \<and> contents t j = contents s j \<and> owned t j = owned s j)"

lemma other_file:
  assumes "same_data s r" "frame d r t" "same_data t u" and j: "j \<noteq> d" "file_ok s j" "owned s d \<inter> owned s j = {}"
  shows "file_ok u j" "contents u j = contents s j" "owned u j = owned s j"
proof -
  have "file_wf r j" "owned r d \<inter> owned r j = {}"
    using j unfolding same_dataD [OF assms(1)] by (simp_all add: file_ok_def)
  then have "file_wf t j" "content t j = content r j" "owned t j = owned r j"
    using frame_other [OF assms(2)] j by blast+
  then show "file_ok u j" "contents u j = contents s j" "owned u j = owned s j"
    using j frameD(1) [OF assms(2), of j] same_data_nodes [OF assms(1), of j]
    unfolding same_dataD [OF assms(3)] by (simp_all add: file_ok_def contents_def same_dataD(2,3) [OF assms(1)])
qed

lemma elsewhereI: "same_data s r \<Longrightarrow> frame d r t \<Longrightarrow> same_data t u \<Longrightarrow> elsewhere d s u"
  unfolding elsewhere_def using other_file by blast

text \<open>
  C24: Linking a file adds its name.  \<open>sfs_link\<close> on a directory with less than the 1036 blocks an inode can map
  succeeds if the name is free, the allocation of memory for the search succeeds and at least two blocks are
  free (one for the entry and one for an indirect block); it then maps the name to the file and counts the
  link.  It reports \<open>E_EXISTS\<close> only for a taken name, and \<open>E_NO_MEM\<close> only if the allocation failed or
  fewer than two blocks are free and the name is.  A failed call leaves the directory as it was, and no
  other file changes.  The device has no bad blocks and at most \<open>2\<^sup>1\<^sup>9\<close> blocks (\<open>fs_wf\<close>).
\<close>

theorem sfs_link_adds_name:
  assumes "fs_wf s" and "dir_wf s d" and "blocks (din (nodes s d)) < file_blocks"
    and "0 < i" and "i < 2 ^ 32" and "i \<noteq> d" and "ftype (din (nodes s i)) \<noteq> SFS_TYPE_DIR"
    and "valid_name name" and "0 \<notin> set name"
  shows "\<exists>r t. sfs_link d name i s = (r, t) \<and> fs_wf t \<and> dir_wf t d \<and> elsewhere d s t \<and>
    (case r of
       Ok _ \<Rightarrow> dir_map s d name = None \<and> dir_map t d = (dir_map s d)(name \<mapsto> i) \<and>
         nlinks (din (nodes t i)) = (nlinks (din (nodes s i)) + 1) mod 65536
     | Err e \<Rightarrow> dir_map t d = dir_map s d \<and> nlinks (din (nodes t i)) = nlinks (din (nodes s i)) \<and>
         (e = E_EXISTS \<and> dir_map s d name \<noteq> None \<or>
          e = E_NO_MEM \<and> (\<not> fst (kmalloc_ok s) \<or> dir_map s d name = None \<and> card (avail s) \<le> 1))
     | Fault \<Rightarrow> False)"
proof -
  let ?s = "snd (kmalloc_ok s)"
  have same: "same_data s ?s" "nodes ?s = nodes s"
    using kmalloc_state [of s] by auto
  have wf: "fs_wf ?s" "dir_wf ?s d" "elsewhere d s ?s" "dir_map ?s d = dir_map s d" "dentry ?s d = dentry s d"
    using same_dataD(8,10,11) [OF same(1), of d] same_dataD(12) [OF same(1)] assms(1,2)
      elsewhereI [OF same(1) frame_refl same_data_refl] by simp_all
  have len: "length name \<le> SFS_MAX_FNAME_LEN"
    using assms(8) by (simp add: valid_name_def)
  have ty: "ftype (din (nodes s d)) = SFS_TYPE_DIR"
    using dir_wfD(2) [OF assms(2)] .
  have av: "avail ?s = avail s"
    using same_dataD(13) [OF same(1)] by simp
  show ?thesis
  proof (rule search_ok [OF assms(1,2) len])
    fix v
    assume "sfs_dirent_search_nolock d name s = ((Err E_NO_MEM, v), ?s)" "\<not> fst (kmalloc_ok s)"
    then show ?thesis
      using wf same(2) assms(7,8) ty by (simp add: sfs_link_def)
  next
    fix k v
    assume k: "k < nblocks s d" "holds s d k name"
      "sfs_dirent_search_nolock d name s = ((Ok (k, e_ino (dentry s d k)), v), ?s)"
    then have "dir_map s d name \<noteq> None"
      by (auto simp: dir_map_None)
    with k show ?thesis
      using wf same(2) assms(7,8) ty by (simp add: sfs_link_def)
  next
    fix v
    assume v: "dir_map s d name = None" "v = nblocks s d \<or> v < nblocks s d \<and> e_ino (dentry s d v) = 0"
      "sfs_dirent_search_nolock d name s = ((Err E_NOENT, v), ?s)"
    have eq: "sfs_link d name i s = sfs_dirent_link_nolock d v i name ?s"
      using v(3) assms(7,8) ty by (simp add: sfs_link_def)
    have nb: "nblocks ?s d < file_blocks" "v = nblocks ?s d \<or> v < nblocks ?s d \<and> e_ino (dentry ?s d v) = 0"
        "dir_map ?s d name = None"
      using assms(3) v(1,2) same(2) wf(4,5) by simp_all
    show ?thesis
    proof (rule link_ok [OF wf(1,2) nb(1,2) assms(4-6,8,9) nb(3)])
      fix t
      assume t: "sfs_dirent_link_nolock d v i name ?s = (Err E_NO_MEM, t)" "fs_wf t" "frame d ?s t"
        "dir_wf t d" "dir_map t d = dir_map ?s d" "card (avail ?s) \<le> 1"
      then show ?thesis
        using v(1) av eq elsewhereI [OF same(1) t(3) same_data_refl] frameD(1) [OF t(3) assms(6)] same(2) wf(4) by simp
    next
      fix t u
      assume u: "sfs_dirent_link_nolock d v i name ?s = (Ok (), u)" "fs_wf u" "frame d ?s t" "same_data t u"
        "dir_wf u d" "dir_map u d = (dir_map ?s d)(name \<mapsto> i)"
        "nlinks (din (nodes u i)) = (nlinks (din (nodes ?s i)) + 1) mod 65536"
      then show ?thesis
        using eq elsewhereI [OF same(1) u(3,4)] v(1) same(2) wf(4) by simp
    qed
  qed
qed

section \<open>Unlinking\<close>

lemma unlink_ok:
  assumes "fs_wf s" "dir_wf s d" "k < nblocks s d" "holds s d k name" "i \<noteq> d" "nlinks (din (nodes s i)) \<noteq> 0"
  obtains t u where "sfs_dirent_unlink_nolock d k i s = (Ok (), u)" "fs_wf u" "frame d s t" "same_data t u" "dir_wf u d"
    "dir_map u d = (dir_map s d)(name := None)" "nlinks (din (nodes u i)) = nlinks (din (nodes s i)) - 1"
    "ref_count (nodes u i) = ref_count (nodes s i)"
proof -
  note wf = dir_wfD [OF assms(2)]
  note old = load_old [OF assms(1) wf(1) assms(3)] get_old [OF assms(1) wf(1) assms(3), of False]
  have bound: "k \<le> nblocks s d" "k < file_blocks" "length (replicate 260 0 :: u8 list) = 260"
    using assms(3) file_wfD(2) [OF wf(1)] by simp_all
  obtain u where u: "sfs_wbuf (replicate 260 0) (fmap s d k) 0 s = (Ok (), u)" "fs_wf u"
      "file_wf u d" "frame d s u" "nblocks u d = nblocks s d"
      "\<And>l. slot_bytes u d l = (if l = k then replicate 260 0 else slot_bytes s d l)"
    by (rule write_slot [OF assms(1) wf(1) bound]) (use old(1) assms(3) in \<open>auto simp: max_def\<close>)
  have node: "nodes u i = nodes s i"
    using frameD(1) [OF u(4) assms(5)] .
  have ty: "ftype (din (nodes u d)) = SFS_TYPE_DIR"
    using frameD(8) [OF u(4)] wf(2) by simp
  let ?v = "set_dirty d (dec_nlinks i u)"
  have v: "same_data u ?v"
    using same_data_trans same_data_steps by blast
  have "nlinks (din (nodes ?v i)) = nlinks (din (nodes s i)) - 1" "ref_count (nodes ?v i) = ref_count (nodes s i)"
    using node assms(5) by (simp_all add: set_dirty_def dec_nlinks_def upd_din_def upd_node_def)
  then show thesis
    using that [OF _ _ u(4) v] u(1,2) clear_entry [OF assms(2) u(3) ty u(5) assms(3,4) u(6)] old(2) assms(6)
      file_wfD(7) [OF wf(1) assms(3)] same_dataD(10,11) [OF v, of d] same_dataD(12) [OF v]
    by (simp add: sfs_dirent_unlink_nolock_def)
qed

lemma load_cached:
  assumes "i \<in> set (inode_list s)"
  obtains t where "sfs_load_inode i s = (Ok i, t)" "same_data s t" "\<And>j. din (nodes t j) = din (nodes s j)"
    "ref_count (nodes t i) = ref_count (nodes s i) + 1" "inode_list t = inode_list s"
proof -
  let ?t = "snd (lookup_sfs_nolock i s)"
  have "sfs_load_inode i s = (Ok i, ?t)"
    using assms by (simp add: sfs_load_inode_def lookup_sfs_nolock_def)
  moreover have "din (nodes ?t j) = din (nodes s j)" for j
    by (simp add: lookup_sfs_nolock_def upd_node_def)
  moreover have "ref_count (nodes ?t i) = ref_count (nodes s i) + 1" "inode_list ?t = inode_list s"
    using assms by (simp_all add: lookup_sfs_nolock_def upd_node_def)
  ultimately show thesis
    by (intro that [of ?t]) simp_all
qed

lemma drop_open:
  assumes "1 < ref_count (nodes s i)"
  shows "drop_node (Some i) (Ok x, s) = (Ok x, upd_node i (\<lambda>n. n\<lparr>ref_count := ref_count n - 1\<rparr>) s)"
  using assms by (simp add: drop_node_def inode_ref_dec_def Let_def upd_node_def)

text \<open>
  C27: Removing the name of an open file takes the name out of the directory and one off the link count; the file
  itself stays, with its bytes, until it is closed, and every other name and file is untouched.  The file shares no block with the
  directory, the inode is in the cache, the memory for the search can be allocated, and the device has no
  bad blocks (\<open>fs_wf\<close>).
\<close>

theorem sfs_unlink_open_file:
  assumes "fs_wf s" and "dir_wf s d" and "fst (kmalloc_ok s)" and "plain_name name"
    and "dir_map s d name = Some i" and "i \<noteq> d" and "i \<in> set (inode_list s)" and "0 < ref_count (nodes s i)"
    and "file_ok s i" and "owned s d \<inter> owned s i = {}"
    and "ftype (din (nodes s i)) \<noteq> SFS_TYPE_DIR" and "nlinks (din (nodes s i)) \<noteq> 0"
  shows "\<exists>t. sfs_unlink d name s = (Ok (), t) \<and> fs_wf t \<and> dir_wf t d \<and> elsewhere d s t \<and>
    dir_map t d = (dir_map s d)(name := None) \<and> nlinks (din (nodes t i)) = nlinks (din (nodes s i)) - 1 \<and>
    ref_count (nodes t i) = ref_count (nodes s i) \<and> file_ok t i \<and> contents t i = contents s i"
proof -
  let ?s = "snd (kmalloc_ok s)"
  have same: "same_data s ?s" "nodes ?s = nodes s" "inode_list ?s = inode_list s"
    using kmalloc_state [of s] by auto
  have len: "length name \<le> SFS_MAX_FNAME_LEN"
    using assms(4) by (simp add: plain_name_def valid_name_def)
  obtain k v where k: "k < nblocks s d" "holds s d k name"
      "sfs_dirent_search_nolock d name s = ((Ok (k, e_ino (dentry s d k)), v), ?s)"
    by (rule search_ok [OF assms(1,2) len]) (use assms(3,5) in auto)
  then have i: "e_ino (dentry s d k) = i"
    using assms(5) dir_map_Some [OF assms(2), of name "e_ino (dentry s d k)"] by auto
  have "i \<in> set (inode_list ?s)"
    using assms(7) same(3) by simp
  then obtain r where r: "sfs_load_inode i ?s = (Ok i, r)" "same_data ?s r" "\<And>j. din (nodes r j) = din (nodes ?s j)"
      "ref_count (nodes r i) = ref_count (nodes ?s i) + 1" "inode_list r = inode_list ?s"
    by (rule load_cached) blast
  have sr: "same_data s r"
    using same_data_trans [OF same(1) r(2)] .
  have wf: "fs_wf r" "dir_wf r d" "k < nblocks r d" "holds r d k name" "nlinks (din (nodes r i)) \<noteq> 0"
    using assms(1,2,12) k(1,2) same_dataD(9,11) [OF sr, of d] same_dataD(12) [OF sr] r(3) same(2) by simp_all
  obtain t u where u: "sfs_dirent_unlink_nolock d k i r = (Ok (), u)" "fs_wf u" "frame d r t" "same_data t u" "dir_wf u d"
      "dir_map u d = (dir_map r d)(name := None)" "nlinks (din (nodes u i)) = nlinks (din (nodes r i)) - 1"
      "ref_count (nodes u i) = ref_count (nodes r i)"
    using unlink_ok [OF wf(1-4) assms(6) wf(5)] by blast
  let ?w = "upd_node i (\<lambda>n. n\<lparr>ref_count := ref_count n - 1\<rparr>) u"
  have uw: "same_data u ?w"
    by simp
  have ty: "ftype (din (nodes u i)) \<noteq> SFS_TYPE_DIR" "ftype (din (nodes r i)) \<noteq> SFS_TYPE_DIR"
    using assms(6,11) frameD(1) [OF u(3), of i] same_data_nodes(2) [OF u(4), of i] r(3) same(2) by simp_all
  have "sfs_unlink d name s = drop_node (Some i) (Ok (), u)"
    using k(3) i r(1) u(1) ty assms(4) dir_wfD(2) [OF assms(2)] by (simp add: sfs_unlink_def remove_entry_def)
  also have "\<dots> = (Ok (), ?w)"
    by (rule drop_open) (use u(8) r(4) same(2) assms(8) in simp)
  finally have run: "sfs_unlink d name s = (Ok (), ?w)" .
  note tw = same_data_trans [OF u(4) uw]
  have "file_ok ?w i \<and> contents ?w i = contents s i"
    using other_file [OF sr u(3) tw assms(6,9,10)] by simp
  moreover have "nlinks (din (nodes ?w i)) = nlinks (din (nodes s i)) - 1" "ref_count (nodes ?w i) = ref_count (nodes s i)"
    using u(7,8) r(3,4) same(2) by (simp_all add: upd_node_def)
  ultimately show ?thesis
    using run elsewhereI [OF sr u(3) tw] u(2,5,6) same_dataD(10,11) [OF uw, of d] same_dataD(12) [OF uw] same_dataD(10) [OF sr, of d] by simp
qed

section \<open>Creating\<close>

definition empty_inode :: "nat \<Rightarrow> nat \<Rightarrow> sfs_disk_inode" where
  "empty_inode ty n = \<lparr>fsize = 0, ftype = ty, nlinks = n, blocks = 0, direct = replicate SFS_NDIRECT 0, indirect = 0\<rparr>"

lemma empty_file:
  assumes "din (nodes t i) = empty_inode ty n"
  shows "file_ok t i" "contents t i = []" "owned t i = {}"
proof -
  have "fmap t i k = 0" for k
    using assms by (auto simp: fmap_def Let_def empty_inode_def)
  then show "file_ok t i" "contents t i = []" "owned t i = {}"
    using assms by (simp_all add: file_ok_def file_wf_def owned_def contents_def Let_def empty_inode_def)
qed

lemma new_inode_ok:
  assumes wf: "fs_wf s" and ty: "ty \<in> {SFS_TYPE_DIR, SFS_TYPE_FILE, SFS_TYPE_LINK}"
  obtains (none) t where "sfs_new_inode ty s = (Err E_NO_MEM, t)" "fs_wf t" "nodes t = nodes s" "avail t = avail s"
      "sblocks t = sblocks s" "inode_list t = inode_list s" "\<And>b. b \<notin> avail s \<Longrightarrow> disk t b = disk s b"
      "avail s = {} \<or> False \<in> set (kmem_left s)"
    | (new) i t where "sfs_new_inode ty s = (Ok i, t)" "fs_wf t" "i \<in> avail s" "avail t = avail s - {i}"
      "nodes t = (nodes s)(i := \<lparr>din = empty_inode ty 0, dirty = False, reclaim_count = 1, ref_count = 1\<rparr>)"
      "sblocks t = sblocks s" "inode_list t = i # inode_list s" "\<And>b. b \<notin> avail s \<Longrightarrow> disk t b = disk s b"
  using wf
proof (cases rule: block_alloc_cases)
  case none
  then show thesis
    using wf by (intro that(1) [of s]) (simp_all add: sfs_new_inode_def)
next
  case (some i u)
  note u = alloc_stepD [OF some(3)]
  have i: "0 < i" "i < sblocks s" "i \<notin> avail u"
    using avail_range [OF wf some(2)] some(4) by auto
  have undo: thesis if v: "fs_wf v" "avail v = avail u" "nodes v = nodes u" "sblocks v = sblocks u" "inode_list v = inode_list u"
      "\<And>b. b \<noteq> i \<Longrightarrow> disk v b = disk u b"
      "sfs_new_inode ty s = sbind (sfs_block_free i v) (\<lambda>_ s. (Err E_NO_MEM, s))" "False \<in> set (kmem_left s)" for v
  proof -
    obtain t where "sfs_block_free i v = (Ok (), t)" "alloc_step v t" "avail t = insert i (avail v)" "disk t = disk v"
      by (rule free_step [OF v(1) i(1)]) (use i(2,3) v(2,4) u(3) in auto)
    moreover have "disk v b = disk s b" if "b \<notin> avail s" for b
      using v(6) [of b] some(2,5) that by (cases "b = i") auto
    ultimately show thesis
      by (intro none [of t]) (use v(1-5,7,8) some u alloc_stepD [of v t] in auto)
  qed
  define x where "x = kmem_left (snd (kmalloc_ok u))"
  have x: "snd (kmalloc_ok u) = u\<lparr>kmem_left := x\<rparr>"
    using kmalloc_state [of u] unfolding x_def by auto
  let ?d = "empty_inode ty 0"
  let ?w = "u\<lparr>kmem_left := x, disk := (disk u)(i := patch (disk u i) 0 (encode_inode ?d))\<rparr>"
  have len: "length (encode_inode ?d) = 64"
    by (simp add: encode_inode_def empty_inode_def length_concat sum_list_replicate)
  have w: "sfs_wbuf (encode_inode ?d) i 0 (u\<lparr>kmem_left := x\<rparr>) = (Ok (), ?w)"
    using wbuf_ok [of "u\<lparr>kmem_left := x\<rparr>" i 0 "encode_inode ?d"] u(1,3) i len by simp
  define y where "y = kmem_left (snd (kmalloc_ok ?w))"
  have y: "snd (kmalloc_ok ?w) = ?w\<lparr>kmem_left := y\<rparr>"
    using kmalloc_state [of ?w] unfolding y_def by auto
  have d: "\<lparr>fsize = 0, ftype = ty, nlinks = 0, blocks = 0, direct = replicate SFS_NDIRECT 0, indirect = 0\<rparr> = ?d"
    by (simp add: empty_inode_def)
  have run: "sfs_new_inode ty s =
    (if fst (kmalloc_ok u)
     then if fst (kmalloc_ok ?w)
          then (Ok i, sfs_set_links i (upd_node i (\<lambda>_. \<lparr>din = ?d, dirty = False, reclaim_count = 1, ref_count = 1\<rparr>) (?w\<lparr>kmem_left := y\<rparr>)))
          else sbind (sfs_block_free i (?w\<lparr>kmem_left := y\<rparr>)) (\<lambda>_ s. (Err E_NO_MEM, s))
     else sbind (sfs_block_free i (u\<lparr>kmem_left := x\<rparr>)) (\<lambda>_ s. (Err E_NO_MEM, s)))"
  proof -
    have "sfs_get_ops (ftype ?d) = Ok ()"
      using ty by (auto simp: sfs_get_ops_def empty_inode_def)
    then show ?thesis
      using x y w unfolding sfs_new_inode_def d Let_def sfs_create_inode_def some(1)
      by (cases "kmalloc_ok u"; cases "kmalloc_ok ?w") auto
  qed
  have mem: "False \<in> set (kmem_left s)" if "\<not> (fst (kmalloc_ok u) \<and> fst (kmalloc_ok ?w))"
    using that u(5) unfolding x_def by (cases "kmem_left u") (auto simp: kmalloc_ok_def split: list.splits)
  show thesis
  proof (cases "fst (kmalloc_ok u) \<and> fst (kmalloc_ok ?w)")
    case True
    show thesis
      by (rule new [OF _ _ some(2)], use True run in simp)
        (use u some in \<open>auto simp: sfs_set_links_def upd_node_def\<close>)
  next
    case False
    show thesis
      by (rule undo [of "if fst (kmalloc_ok u) then ?w\<lparr>kmem_left := y\<rparr> else u\<lparr>kmem_left := x\<rparr>"])
        (use False run u(1) mem in simp_all)
  qed
qed

text \<open>A step that uses free blocks only.\<close>

definition keeps :: "sfs_fs \<Rightarrow> sfs_fs \<Rightarrow> bool" where
  "keeps s t \<longleftrightarrow> sblocks t = sblocks s \<and> avail t \<subseteq> avail s \<and> (\<forall>b. b \<notin> avail s \<longrightarrow> disk t b = disk s b \<and> nodes t b = nodes s b)"

lemma keeps_file:
  assumes "keeps s t" "j \<notin> avail s" "file_wf s j"
  shows "file_wf t j" "content t j = content s j" "owned t j = owned s j" "nodes t j = nodes s j"
proof -
  have n: "nodes t j = nodes s j" "sblocks t = sblocks s"
    using assms(1,2) by (simp_all add: keeps_def)
  have "b \<notin> avail t \<and> disk t b = disk s b" if "b \<in> owned s j" for b
    using assms(1) that file_wfD(9) [OF assms(3)] unfolding keeps_def by blast
  then show "file_wf t j" "content t j = content s j" "owned t j = owned s j" "nodes t j = nodes s j"
    using kept_file [OF assms(3) n] n by simp_all
qed

lemma keeps_dir:
  assumes "keeps s t" "d \<notin> avail s" "dir_wf s d"
  shows "dir_wf t d" "dir_map t d = dir_map s d" "dentry t d = dentry s d" "nodes t d = nodes s d"
proof -
  note k = keeps_file [OF assms(1,2) dir_wfD(1) [OF assms(3)]]
  show "dir_wf t d" "dir_map t d = dir_map s d" "dentry t d = dentry s d" "nodes t d = nodes s d"
    using dir_same [OF assms(3) k(1,2)] k(4) by simp_all
qed

lemma elsewhere_keeps:
  assumes "same_data s r" "keeps r t" "d \<notin> avail s" "file_wf s d" "elsewhere d t u"
  shows "elsewhere d s u"
  unfolding elsewhere_def
proof (intro allI impI)
  fix j
  assume j: "j \<noteq> d \<and> j \<notin> avail s \<and> file_ok s j \<and> owned s d \<inter> owned s j = {}"
  note r = same_dataD [OF assms(1)] same_data_nodes [OF assms(1)]
  have d: "owned t d = owned s d"
    using keeps_file(3) [OF assms(2), of d] assms(3,4) r by simp
  have "j \<notin> avail r" "file_wf r j"
    using j r by (simp_all add: file_ok_def)
  note t = keeps_file [OF assms(2) this]
  have "file_ok t j" "contents t j = contents s j" "owned t j = owned s j"
    using j t r by (simp_all add: file_ok_def contents_def)
  moreover have "j \<notin> avail t"
    using j assms(2) r(13) by (auto simp: keeps_def)
  ultimately show "file_ok u j \<and> contents u j = contents s j \<and> owned u j = owned s j"
    using assms(5) j d unfolding elsewhere_def by simp
qed

lemma elsewhere_free:
  assumes "elsewhere d s t" "i \<in> avail s" and u: "\<And>j. j \<noteq> i \<Longrightarrow> nodes u j = nodes t j" "disk u = disk t"
    "avail u = insert i (avail t)" "sblocks u = sblocks t"
  shows "elsewhere d s u"
  unfolding elsewhere_def
proof (intro allI impI)
  fix j
  assume j: "j \<noteq> d \<and> j \<notin> avail s \<and> file_ok s j \<and> owned s d \<inter> owned s j = {}"
  then have t: "file_ok t j" "contents t j = contents s j" "owned t j = owned s j"
    using assms(1) unfolding elsewhere_def by blast+
  have n: "nodes u j = nodes t j"
    using u(1) j assms(2) by metis
  have "file_wf s j"
    using j by (simp add: file_ok_def)
  then have "i \<notin> owned t j"
    using file_wfD(9) assms(2) t(3) by blast
  moreover have w: "file_wf t j"
    using t(1) by (simp add: file_ok_def)
  ultimately have "b \<notin> avail u \<and> disk u b = disk t b" if "b \<in> owned t j" for b
    using that u(2,3) file_wfD(9) [OF w] by auto
  note kept_file [OF w n u(4) this]
  then show "file_ok u j \<and> contents u j = contents s j \<and> owned u j = owned s j"
    using t n by (simp add: file_ok_def contents_def)
qed

lemma drop_new:
  assumes "fs_wf s" "nodes s i = \<lparr>din = empty_inode ty 0, dirty = False, reclaim_count = 1, ref_count = 1\<rparr>"
    and i: "ty \<noteq> SFS_TYPE_DIR" "0 < i" "i < sblocks s" "i \<notin> avail s"
  obtains t where "drop_node (Some i) (Err e, s) = (Err e, t)" "fs_wf t" "\<And>j. j \<noteq> i \<Longrightarrow> nodes t j = nodes s j"
    "disk t = disk s" "avail t = insert i (avail s)" "sblocks t = sblocks s"
proof -
  let ?r = "upd_node i (\<lambda>n. n\<lparr>reclaim_count := reclaim_count n - 1\<rparr>) (upd_node i (\<lambda>n. n\<lparr>ref_count := ref_count n - 1\<rparr>) s)"
  have r: "din (nodes ?r i) = empty_inode ty 0" "dirty (nodes ?r i) = False" "fs_wf ?r" "sblocks ?r = sblocks s"
      "avail ?r = avail s" "disk ?r = disk s" "\<And>j. j \<noteq> i \<Longrightarrow> nodes ?r j = nodes s j"
    using assms(1,2) by (simp_all add: upd_node_def)
  obtain t where t: "sfs_block_free i ?r = (Ok (), t)" "alloc_step ?r t" "avail t = insert i (avail ?r)" "disk t = disk ?r"
    by (rule free_step [OF r(3) i(2)]) (use i(3,4) r(4,5) in auto)
  have "sfs_truncfile i 0 ?r = (Ok (), ?r)"
    using r(1) i(1) by (simp add: sfs_truncfile_def empty_inode_def)
  then have "drop_node (Some i) (Err e, s) = (Err e, sfs_remove_links i t)"
    using t(1) r(1,2) alloc_stepD(2) [OF t(2)] assms(2)
    by (simp add: drop_node_def inode_ref_dec_def sfs_reclaim_def Let_def empty_inode_def)
  then show thesis
    by (rule that) (use t r alloc_stepD [OF t(2)] in \<open>simp_all add: sfs_remove_links_def\<close>)
qed

text \<open>The part of \<open>sfs_create\<close> after the search: a new inode and its entry.\<close>

lemma create_node:
  assumes "fs_wf s" "dir_wf s d" "nblocks s d < file_blocks" "d \<notin> avail s"
    and k: "k = nblocks s d \<or> k < nblocks s d \<and> e_ino (dentry s d k) = 0"
    and name: "valid_name name" "0 \<notin> set name" "dir_map s d name = None"
  obtains (none) t where "sbind (sfs_new_inode SFS_TYPE_FILE s) (\<lambda>node s.
        case sfs_dirent_link_nolock d k node name s of
          (Ok _, s) \<Rightarrow> (Ok node, s) | (Err e, s) \<Rightarrow> drop_node (Some node) (Err e, s) | (Fault, s) \<Rightarrow> (Fault, s)) = (Err E_NO_MEM, t)"
      "fs_wf t" "dir_wf t d" "elsewhere d s t" "dir_map t d = dir_map s d"
      "card (avail s) \<le> 2 \<or> False \<in> set (kmem_left s)"
    | (new) i t where "sbind (sfs_new_inode SFS_TYPE_FILE s) (\<lambda>node s.
        case sfs_dirent_link_nolock d k node name s of
          (Ok _, s) \<Rightarrow> (Ok node, s) | (Err e, s) \<Rightarrow> drop_node (Some node) (Err e, s) | (Fault, s) \<Rightarrow> (Fault, s)) = (Ok i, t)"
      "fs_wf t" "dir_wf t d" "elsewhere d s t" "i \<in> avail s" "dir_map t d = (dir_map s d)(name \<mapsto> i)"
      "din (nodes t i) = empty_inode SFS_TYPE_FILE 1"
proof (rule new_inode_ok [OF assms(1), of SFS_TYPE_FILE])
  show "SFS_TYPE_FILE \<in> {SFS_TYPE_DIR, SFS_TYPE_FILE, SFS_TYPE_LINK}"
    by simp
next
  fix t
  assume t: "sfs_new_inode SFS_TYPE_FILE s = (Err E_NO_MEM, t)" "fs_wf t" "nodes t = nodes s" "avail t = avail s"
    "sblocks t = sblocks s" "\<And>b. b \<notin> avail s \<Longrightarrow> disk t b = disk s b" "avail s = {} \<or> False \<in> set (kmem_left s)"
  then have "keeps s t"
    by (simp add: keeps_def)
  note keeps_dir [OF this assms(4,2)]
    elsewhere_keeps [OF same_data_refl this assms(4) dir_wfD(1) [OF assms(2)] elsewhereI [OF same_data_refl frame_refl same_data_refl]]
  then show thesis
    using none [of t] t(1,2,7) by auto
next
  fix i t
  assume t: "sfs_new_inode SFS_TYPE_FILE s = (Ok i, t)" "fs_wf t" "i \<in> avail s" "avail t = avail s - {i}"
    "nodes t = (nodes s)(i := \<lparr>din = empty_inode SFS_TYPE_FILE 0, dirty = False, reclaim_count = 1, ref_count = 1\<rparr>)"
    "sblocks t = sblocks s" "\<And>b. b \<notin> avail s \<Longrightarrow> disk t b = disk s b"
  have keeps: "keeps s t"
    using t(3-7) by (auto simp: keeps_def)
  note dir = keeps_dir [OF keeps assms(4,2)]
  note via = elsewhere_keeps [OF same_data_refl keeps assms(4) dir_wfD(1) [OF assms(2)]]
  have i: "0 < i" "i < 2 ^ 32" "i < sblocks s" "i \<noteq> d" "i \<notin> avail t"
    using avail_range [OF assms(1) t(3)] t(3,4) assms(4) by auto
  have own: "i \<notin> owned t d"
    using file_wfD(9) [OF dir_wfD(1) [OF assms(2)]] t(3) keeps_file(3) [OF keeps assms(4) dir_wfD(1) [OF assms(2)]] by auto
  show thesis
  proof (rule link_ok [OF t(2) dir(1), of k i name])
    fix u
    assume u: "sfs_dirent_link_nolock d k i name t = (Err E_NO_MEM, u)" "fs_wf u" "frame d t u" "dir_wf u d"
      "dir_map u d = dir_map t d" "card (avail t) \<le> 1"
    have two: "card (avail s) \<le> 2"
      using u(6) t(3,4) card_Diff_singleton [OF t(3)] by simp
    have "i < sblocks u" "i \<notin> avail u"
        "nodes u i = \<lparr>din = empty_inode SFS_TYPE_FILE 0, dirty = False, reclaim_count = 1, ref_count = 1\<rparr>"
      using frameD(1) [OF u(3) i(4)] frameD(5) [OF u(3)] frameD(2) [OF u(3), of i] i own t(5,6) by simp_all
    then obtain w where w: "drop_node (Some i) (Err E_NO_MEM :: nat outcome, u) = (Err E_NO_MEM, w)" "fs_wf w"
        "\<And>j. j \<noteq> i \<Longrightarrow> nodes w j = nodes u j" "disk w = disk u" "avail w = insert i (avail u)" "sblocks w = sblocks u"
      using drop_new [OF u(2), of i SFS_TYPE_FILE] i(1) by auto
    have "i \<notin> owned u d"
      using frameD(3) [OF u(3)] own i(5) by auto
    then have "b \<notin> avail w \<and> disk w b = disk u b" if "b \<in> owned u d" for b
      using that w(4,5) file_wfD(9) [OF dir_wfD(1) [OF u(4)]] by auto
    note wd = kept_file [OF dir_wfD(1) [OF u(4)] w(3) [OF i(4) [symmetric]] w(6) this]
    have "elsewhere d s w"
      by (rule elsewhere_free [OF via [OF elsewhereI [OF same_data_refl u(3) same_data_refl]] t(3) w(3-6)])
    then show thesis
      using two none [of w] t(1) u(1,5) w(1,2) dir(2) dir_same [OF u(4) wd(1,2)] w(3) [OF i(4) [symmetric]] by simp
  next
    fix u v
    assume v: "sfs_dirent_link_nolock d k i name t = (Ok (), v)" "fs_wf v" "frame d t u" "same_data u v" "dir_wf v d"
      "dir_map v d = (dir_map t d)(name \<mapsto> i)" "nlinks (din (nodes v i)) = (nlinks (din (nodes t i)) + 1) mod 65536"
    have "din (nodes u i) = empty_inode SFS_TYPE_FILE 0"
      using frameD(1) [OF v(3) i(4)] t(5) by simp
    then have "din (nodes v i) = empty_inode SFS_TYPE_FILE 1"
      using v(4,7) t(5) by (auto simp: same_data_def empty_inode_def dest!: spec [of _ i])
    then show thesis
      using new [of i v] t(1,3) v(1,2,5,6) dir(2) via [OF elsewhereI [OF same_data_refl v(3,4)]] by simp
  qed (use assms(3) k name i dir in simp_all)
qed

text \<open>
  C22: Creating a file.  \<open>sfs_create\<close> in a directory with less than the 1036 blocks an inode can map succeeds if
  the name is free, no allocation of memory fails and at least three blocks are free (for the inode, the
  entry and an indirect block).  It then takes a free block for the inode, the new file is empty and has one
  link, and the directory gains exactly its name.  \<open>E_EXISTS\<close> is reported only for a taken name, and
  \<open>E_NO_MEM\<close> only if an allocation of memory failed or fewer than three blocks are free and the name is.  A
  failed call leaves the directory as it was, and no other file changes in either case.  The device has no
  bad blocks and at most \<open>2\<^sup>1\<^sup>9\<close> blocks (\<open>fs_wf\<close>).
\<close>

theorem sfs_create_adds_file:
  assumes "fs_wf s" and "dir_wf s d" and "blocks (din (nodes s d)) < file_blocks" and "d \<notin> avail s"
    and "plain_name name" and "0 \<notin> set name"
  shows "\<exists>r t. sfs_create d name s = (r, t) \<and> fs_wf t \<and> dir_wf t d \<and> elsewhere d s t \<and>
    (case r of
       Ok i \<Rightarrow> dir_map s d name = None \<and> dir_map t d = (dir_map s d)(name \<mapsto> i) \<and> i \<in> avail s \<and>
         file_ok t i \<and> contents t i = [] \<and> nlinks (din (nodes t i)) = 1
     | Err e \<Rightarrow> dir_map t d = dir_map s d \<and>
         (e = E_EXISTS \<and> dir_map s d name \<noteq> None \<or>
          e = E_NO_MEM \<and> (False \<in> set (kmem_left s) \<or> dir_map s d name = None \<and> card (avail s) \<le> 2))
     | Fault \<Rightarrow> False)"
proof -
  let ?s = "snd (kmalloc_ok s)"
  have same: "same_data s ?s" "nodes ?s = nodes s"
    using kmalloc_state [of s] by auto
  have wf: "fs_wf ?s" "dir_wf ?s d" "elsewhere d s ?s" "dir_map ?s d = dir_map s d" "dentry ?s d = dentry s d" "d \<notin> avail ?s"
    using same_dataD(8,10,11) [OF same(1), of d] same_dataD(12,13) [OF same(1)] assms(1,2,4)
      elsewhereI [OF same(1) frame_refl same_data_refl] by simp_all
  have name: "valid_name name" "length name \<le> SFS_MAX_FNAME_LEN"
    using assms(5) by (simp_all add: plain_name_def valid_name_def)
  have ty: "ftype (din (nodes s d)) = SFS_TYPE_DIR"
    using dir_wfD(2) [OF assms(2)] .
  show ?thesis
  proof (rule search_ok [OF assms(1,2) name(2)])
    fix v
    assume v: "sfs_dirent_search_nolock d name s = ((Err E_NO_MEM, v), ?s)" "\<not> fst (kmalloc_ok s)"
    have "False \<in> set (kmem_left s)"
      using v(2) by (auto simp: kmalloc_ok_def split: list.splits)
    then show ?thesis
      using v(1) wf assms(5) ty by (simp add: sfs_create_def)
  next
    fix k v
    assume k: "k < nblocks s d" "holds s d k name"
      "sfs_dirent_search_nolock d name s = ((Ok (k, e_ino (dentry s d k)), v), ?s)"
    then have "dir_map s d name \<noteq> None"
      by (auto simp: dir_map_None)
    with k show ?thesis
      using wf assms(5) ty by (simp add: sfs_create_def)
  next
    fix v
    assume v: "dir_map s d name = None" "v = nblocks s d \<or> v < nblocks s d \<and> e_ino (dentry s d v) = 0"
      "sfs_dirent_search_nolock d name s = ((Err E_NOENT, v), ?s)"
    have nb: "nblocks ?s d < file_blocks" "v = nblocks ?s d \<or> v < nblocks ?s d \<and> e_ino (dentry ?s d v) = 0"
        "dir_map ?s d name = None"
      using assms(3) v(1,2) same(2) wf(4,5) by simp_all
    have run: "plain_name name" "ftype (din (nodes s d)) = SFS_TYPE_DIR" "avail ?s = avail s"
      using assms(5) ty same_dataD(13) [OF same(1)] by simp_all
    have left: "set (kmem_left ?s) \<subseteq> set (kmem_left s)"
      by (auto simp: kmalloc_ok_def split: list.splits)
    have via: "elsewhere d ?s t \<Longrightarrow> elsewhere d s t" for t
      by (rule elsewhere_keeps [OF same(1) _ assms(4) dir_wfD(1) [OF assms(2)]]) (simp_all add: keeps_def)
    show ?thesis
      by (rule create_node [OF wf(1,2) nb(1) wf(6) nb(2) name(1) assms(6) nb(3)])
        (use run v(1,3) wf(4) via empty_file left in \<open>auto simp: sfs_create_def empty_inode_def\<close>)
  qed
qed

section \<open>A concrete directory\<close>

text \<open>Directory 2 has one entry, the empty file 5 with the name \<open>a\<close>; the blocks 9 to 12 are free.\<close>

definition dir_fs :: sfs_fs where
  "dir_fs = (demo_fs 0x1E00 (\<lambda>i. if i = 2 then (demo_inode 0 7)\<lparr>ftype := SFS_TYPE_DIR\<rparr> else demo_inode 0 0))
     \<lparr>disk := (\<lambda>b k. if b = 7 \<and> k < 260 then encode_entry 5 [97] ! k else 0)\<rparr>"

lemma dir_fs_nodes:
  "din (nodes dir_fs 2) = (demo_inode 0 7)\<lparr>ftype := SFS_TYPE_DIR\<rparr>" "i \<noteq> 2 \<Longrightarrow> din (nodes dir_fs i) = demo_inode 0 0"
  "avail dir_fs = {b. b < 32 \<and> bit (0x1E00 :: u32) b}" "sblocks dir_fs = 32" "fst (kmalloc_ok dir_fs)"
  "ref_count (nodes dir_fs i) = 1" "inode_list dir_fs = [5]"
  using demo_avail [of "0x1E00" "\<lambda>i. if i = 2 then (demo_inode 0 7)\<lparr>ftype := SFS_TYPE_DIR\<rparr> else demo_inode 0 0"]
  by (simp_all add: dir_fs_def demo_fs_def kmalloc_ok_def)

lemma dir_fs_free: "card (avail dir_fs) = 4" "kmem_left dir_fs = []" "2 \<notin> avail dir_fs"
proof -
  have "avail dir_fs = set (filter (bit (0x1E00 :: u32)) [0..<32])"
    unfolding dir_fs_nodes(3) by auto
  also have "\<dots> = {9, 10, 11, 12}"
    by code_simp
  finally show "card (avail dir_fs) = 4" "2 \<notin> avail dir_fs"
    by simp_all
qed (simp add: dir_fs_def demo_fs_def)

lemma dir_fs_wf: "fs_wf dir_fs"
proof -
  have "\<not> bit (0x1E00 :: u32) 0"
    by code_simp
  then show ?thesis
    unfolding dir_fs_def by (simp add: demo_wf)
qed

lemma dir_fs_dir: "dir_wf dir_fs 2" "dir_map dir_fs 2 = [[97] \<mapsto> 5]" "owned dir_fs 2 = {7}"
proof -
  have n: "nblocks dir_fs 2 = 1" "ftype (din (nodes dir_fs 2)) = SFS_TYPE_DIR"
    by (simp_all add: dir_fs_nodes demo_inode_def)
  have f: "fmap dir_fs 2 k = (if k = 0 then 7 else 0)" for k
    by (simp add: fmap_def Let_def dir_fs_nodes demo_inode_def nth_Cons')
  show o: "owned dir_fs 2 = {7}"
    unfolding owned_def n f by (auto simp: dir_fs_nodes demo_inode_def)
  have "\<not> bit (0x1E00 :: u32) 7"
    by code_simp
  then have wf: "file_wf dir_fs 2"
    unfolding file_wf_def Let_def o f by (simp add: dir_fs_nodes) (simp add: demo_inode_def inj_on_def)
  have "slot_bytes dir_fs 2 0 = map (\<lambda>k. encode_entry 5 [97] ! k) [0..<260]"
    by (simp add: slot_bytes_def content_def n f) (simp add: dir_fs_def)
  also have "\<dots> = encode_entry 5 [97]"
    using map_nth [of "encode_entry 5 [97]"] length_encode_entry [of "[97]" 5] by simp
  finally have e: "dentry dir_fs 2 0 = \<lparr>e_ino = 5, e_name = [97]\<rparr>"
    by (intro decode_entry) simp_all
  show d: "dir_wf dir_fs 2"
    unfolding dir_wf_def n using wf by simp
  show "dir_map dir_fs 2 = [[97] \<mapsto> 5]"
    by (rule map_eqI) (auto simp: dir_map_Some [OF d] n holds_def e)
qed

lemma dir_fs_names: "plain_name [97]" "plain_name [98]" "valid_name [98]"
  by (simp_all add: plain_name_def valid_name_def dot_def dotdot_def slash_def)

theorem sfs_link_adds_name_witness:
  "\<exists>t. sfs_link 2 [98] 5 dir_fs = (Ok (), t) \<and> dir_wf t 2 \<and> dir_map t 2 = [[97] \<mapsto> 5, [98] \<mapsto> 5]"
  using sfs_link_adds_name [OF dir_fs_wf dir_fs_dir(1), of 5 "[98]"] dir_fs_names dir_fs_free(1)
  by (auto simp: dir_fs_nodes(1,2,4-7) dir_fs_dir demo_inode_def split: outcome.splits) (metis outcome.exhaust old.unit.exhaust)

theorem sfs_unlink_open_file_witness:
  "\<exists>t. sfs_unlink 2 [97] dir_fs = (Ok (), t) \<and> dir_wf t 2 \<and> dir_map t 2 = (\<lambda>_. None) \<and> contents t 5 = []"
proof -
  have f: "din (nodes dir_fs 5) = empty_inode SFS_TYPE_FILE 1"
    by (simp add: dir_fs_nodes demo_inode_def empty_inode_def) (simp add: numeral_eq_Suc)
  show ?thesis
    using sfs_unlink_open_file [OF dir_fs_wf dir_fs_dir(1) dir_fs_nodes(5) dir_fs_names(1), of 5] empty_file [OF f]
    by (auto simp: dir_fs_nodes dir_fs_dir f empty_inode_def)
qed

theorem sfs_create_adds_file_witness:
  "\<exists>i t. sfs_create 2 [98] dir_fs = (Ok i, t) \<and> dir_wf t 2 \<and> dir_map t 2 = [[97] \<mapsto> 5, [98] \<mapsto> i] \<and> contents t i = []"
  using sfs_create_adds_file [OF dir_fs_wf dir_fs_dir(1), of "[98]"] dir_fs_names(2) dir_fs_free
  by (auto simp: dir_fs_nodes(1,2,4-7) dir_fs_dir demo_inode_def split: outcome.splits) (metis outcome.exhaust)

end
