(* ===== verification/Net_Proto.thy ===== *)
theory Net_Proto
  imports Prelude
begin

text \<open>
  The Ethernet/ARP/IPv4/UDP/TCP codec, \<open>src/kern/net/net_proto.c\<close> and \<open>net_proto.h\<close>.

  A packed C structure is a record together with an encoder and a decoder of its bytes; multi-byte
  fields are stored little-endian as the i386 stores them, so a field in network order is a field
  that holds \<open>htons\<close> or \<open>net_htonl\<close> of its value.  A pointer/length pair is a byte list, a pointer
  that may be \<open>NULL\<close> an option.  The parsers read the frame through \<open>rdn\<close>, which faults outside of
  the buffer.
\<close>

section \<open>Byte order\<close>

definition htons :: "u16 \<Rightarrow> u16" where
  "htons v = (push_bit 8 v) OR (drop_bit 8 v)"

definition ntohs :: "u16 \<Rightarrow> u16" where
  "ntohs v = htons v"

definition net_htonl :: "u32 \<Rightarrow> u32" where
  "net_htonl v = push_bit 24 (v AND 0x000000FF) OR push_bit 8 (v AND 0x0000FF00) OR
                 drop_bit 8 (v AND 0x00FF0000) OR drop_bit 24 (v AND 0xFF000000)"

definition net_ntohl :: "u32 \<Rightarrow> u32" where
  "net_ntohl v = net_htonl v"

definition le16_bytes :: "u16 \<Rightarrow> u8 list" where
  "le16_bytes v = [ucast v, ucast (drop_bit 8 v)]"

definition le16_of :: "u8 \<Rightarrow> u8 \<Rightarrow> u16" where
  "le16_of b0 b1 = ucast b0 OR push_bit 8 (ucast b1)"

definition le32_bytes :: "u32 \<Rightarrow> u8 list" where
  "le32_bytes v = [ucast v, ucast (drop_bit 8 v), ucast (drop_bit 16 v), ucast (drop_bit 24 v)]"

definition le32_of :: "u8 \<Rightarrow> u8 \<Rightarrow> u8 \<Rightarrow> u8 \<Rightarrow> u32" where
  "le32_of b0 b1 b2 b3 =
     ucast b0 OR push_bit 8 (ucast b1) OR push_bit 16 (ucast b2) OR push_bit 24 (ucast b3)"

section \<open>Packed headers\<close>

record net_eth_header =
  eth_destination :: "u8 list"
  eth_source :: "u8 list"
  ethertype :: u16

record net_ipv4_header =
  version_ihl :: u8
  tos :: u8
  total_length :: u16
  identification :: u16
  fragment_offset :: u16
  ttl :: u8
  protocol :: u8
  ip_checksum :: u16
  ip_source :: u32
  ip_destination :: u32

record net_udp_header =
  udp_source_port :: u16
  udp_destination_port :: u16
  udp_length :: u16
  udp_checksum :: u16

record net_tcp_header =
  tcp_source_port :: u16
  tcp_destination_port :: u16
  sequence :: u32
  acknowledgement :: u32
  data_offset :: u8
  tcp_flags :: u8
  tcp_window :: u16
  tcp_checksum :: u16
  urgent :: u16

record net_arp_packet =
  hardware_type :: u16
  protocol_type :: u16
  hardware_length :: u8
  protocol_length :: u8
  operation :: u16
  sender_mac :: "u8 list"
  sender_ip :: u32
  target_mac :: "u8 list"
  target_ip :: u32

definition eth_bytes :: "net_eth_header \<Rightarrow> u8 list" where
  "eth_bytes h = eth_destination h @ eth_source h @ le16_bytes (ethertype h)"

definition eth_of :: "u8 list \<Rightarrow> net_eth_header" where
  "eth_of bs = \<lparr> eth_destination = take 6 bs, eth_source = take 6 (drop 6 bs),
                 ethertype = le16_of (bs ! 12) (bs ! 13) \<rparr>"

definition ipv4_bytes :: "net_ipv4_header \<Rightarrow> u8 list" where
  "ipv4_bytes h = [version_ihl h, tos h] @ le16_bytes (total_length h) @
     le16_bytes (identification h) @ le16_bytes (fragment_offset h) @ [ttl h, protocol h] @
     le16_bytes (ip_checksum h) @ le32_bytes (ip_source h) @ le32_bytes (ip_destination h)"

definition ipv4_of :: "u8 list \<Rightarrow> net_ipv4_header" where
  "ipv4_of bs = \<lparr> version_ihl = bs ! 0, tos = bs ! 1,
     total_length = le16_of (bs ! 2) (bs ! 3), identification = le16_of (bs ! 4) (bs ! 5),
     fragment_offset = le16_of (bs ! 6) (bs ! 7), ttl = bs ! 8, protocol = bs ! 9,
     ip_checksum = le16_of (bs ! 10) (bs ! 11),
     ip_source = le32_of (bs ! 12) (bs ! 13) (bs ! 14) (bs ! 15),
     ip_destination = le32_of (bs ! 16) (bs ! 17) (bs ! 18) (bs ! 19) \<rparr>"

definition udp_bytes :: "net_udp_header \<Rightarrow> u8 list" where
  "udp_bytes h = le16_bytes (udp_source_port h) @ le16_bytes (udp_destination_port h) @
     le16_bytes (udp_length h) @ le16_bytes (udp_checksum h)"

definition udp_of :: "u8 list \<Rightarrow> net_udp_header" where
  "udp_of bs = \<lparr> udp_source_port = le16_of (bs ! 0) (bs ! 1),
     udp_destination_port = le16_of (bs ! 2) (bs ! 3), udp_length = le16_of (bs ! 4) (bs ! 5),
     udp_checksum = le16_of (bs ! 6) (bs ! 7) \<rparr>"

definition tcp_bytes :: "net_tcp_header \<Rightarrow> u8 list" where
  "tcp_bytes h = le16_bytes (tcp_source_port h) @ le16_bytes (tcp_destination_port h) @
     le32_bytes (sequence h) @ le32_bytes (acknowledgement h) @ [data_offset h, tcp_flags h] @
     le16_bytes (tcp_window h) @ le16_bytes (tcp_checksum h) @ le16_bytes (urgent h)"

definition tcp_of :: "u8 list \<Rightarrow> net_tcp_header" where
  "tcp_of bs = \<lparr> tcp_source_port = le16_of (bs ! 0) (bs ! 1),
     tcp_destination_port = le16_of (bs ! 2) (bs ! 3),
     sequence = le32_of (bs ! 4) (bs ! 5) (bs ! 6) (bs ! 7),
     acknowledgement = le32_of (bs ! 8) (bs ! 9) (bs ! 10) (bs ! 11),
     data_offset = bs ! 12, tcp_flags = bs ! 13, tcp_window = le16_of (bs ! 14) (bs ! 15),
     tcp_checksum = le16_of (bs ! 16) (bs ! 17), urgent = le16_of (bs ! 18) (bs ! 19) \<rparr>"

definition arp_bytes :: "net_arp_packet \<Rightarrow> u8 list" where
  "arp_bytes p = le16_bytes (hardware_type p) @ le16_bytes (protocol_type p) @
     [hardware_length p, protocol_length p] @ le16_bytes (operation p) @ sender_mac p @
     le32_bytes (sender_ip p) @ target_mac p @ le32_bytes (target_ip p)"

definition arp_of :: "u8 list \<Rightarrow> net_arp_packet" where
  "arp_of bs = \<lparr> hardware_type = le16_of (bs ! 0) (bs ! 1),
     protocol_type = le16_of (bs ! 2) (bs ! 3), hardware_length = bs ! 4,
     protocol_length = bs ! 5, operation = le16_of (bs ! 6) (bs ! 7),
     sender_mac = take 6 (drop 8 bs),
     sender_ip = le32_of (bs ! 14) (bs ! 15) (bs ! 16) (bs ! 17),
     target_mac = take 6 (drop 18 bs),
     target_ip = le32_of (bs ! 24) (bs ! 25) (bs ! 26) (bs ! 27) \<rparr>"

section \<open>Checksums\<close>

fun net_checksum_sum :: "u8 list \<Rightarrow> u32 \<Rightarrow> u32" where
  "net_checksum_sum (b0 # b1 # data) s =
     net_checksum_sum data (s + (push_bit 8 (ucast b0) OR ucast b1))"
| "net_checksum_sum [b0] s = s + push_bit 8 (ucast b0)"
| "net_checksum_sum [] s = s"

text \<open>The folding loop of the three checksum functions.\<close>

function checksum_fold :: "u32 \<Rightarrow> u32" where
  "checksum_fold s =
     (if drop_bit 16 s \<noteq> 0 then checksum_fold ((s AND 0xFFFF) + drop_bit 16 s) else s)"
  by auto

lemma unat_drop_bit_16: "unat (drop_bit 16 (s :: u32)) = unat s div 65536"
  by (simp add: drop_bit_eq_div unat_div_distrib)

lemma unat_fold_step:
  fixes s :: u32
  shows "unat ((s AND 0xFFFF) + drop_bit 16 s) = unat s mod 65536 + unat s div 65536"
proof -
  have a: "s AND 0xFFFF = take_bit 16 s"
    by (simp add: take_bit_eq_mask mask_eq_exp_minus_1)
  have b: "unat (take_bit 16 s) = unat s mod 65536"
    by (simp add: take_bit_eq_mod unat_mod_distrib)
  have "unat s div 65536 < 65536"
    using unat_lt_u32 [of s] by (simp add: less_mult_imp_div_less)
  moreover have "unat s mod 65536 < 65536"
    by simp
  ultimately show ?thesis
    unfolding a by (subst unat_plus_noov) (simp_all only: b unat_drop_bit_16, simp)
qed

lemma drop_bit_16_eq_0: "drop_bit 16 (s :: u32) = 0 \<longleftrightarrow> unat s < 65536"
  by (metis unat_drop_bit_16 div_eq_0_iff unsigned_0 unsigned_eq_0_iff zero_neq_numeral)

lemma fold_step_less:
  "65536 \<le> (n :: nat) \<Longrightarrow> n mod 65536 + n div 65536 < n"
  using div_mult_mod_eq [of n 65536] by linarith

termination checksum_fold
proof (relation "measure unat")
  fix s :: u32
  assume "drop_bit 16 s \<noteq> 0"
  then show "((s AND 0xFFFF) + drop_bit 16 s, s) \<in> measure unat"
    by (simp add: drop_bit_16_eq_0 unat_fold_step fold_step_less)
qed simp

definition net_checksum :: "u8 list \<Rightarrow> u16" where
  "net_checksum data = ucast (NOT (checksum_fold (net_checksum_sum data 0)))"

text \<open>The return expression of \<open>net_udp_checksum\<close> and \<open>net_tcp_checksum\<close>: zero is sent as \<open>0xFFFF\<close>.\<close>

definition checksum_result :: "u32 \<Rightarrow> u16" where
  "checksum_result s = (if ucast (NOT s) = (0 :: u16) then 0xFFFF else ucast (NOT s))"

definition pseudo_header :: "u32 \<Rightarrow> u32 \<Rightarrow> u8 \<Rightarrow> nat \<Rightarrow> u8 list" where
  "pseudo_header source destination proto len =
     le32_bytes source @ le32_bytes destination @
     [0, proto, of_nat (len div 256), of_nat len]"

definition net_udp_checksum :: "u32 \<Rightarrow> u32 \<Rightarrow> net_udp_header \<Rightarrow> u8 list \<Rightarrow> u16" where
  "net_udp_checksum source destination udp payload = (
     let s = net_checksum_sum (pseudo_header source destination 17 (8 + length payload)) 0;
         s = net_checksum_sum (udp_bytes (udp\<lparr>udp_checksum := 0\<rparr>)) s;
         s = net_checksum_sum payload s
     in checksum_result (checksum_fold s))"

text \<open>
  \<open>segment\<close> is the memory the \<open>tcp\<close> pointer addresses: the fixed header, the options the data offset
  announces and whatever follows; \<open>None\<close> models \<open>NULL\<close>.
\<close>

definition net_tcp_checksum ::
    "u32 \<Rightarrow> u32 \<Rightarrow> u8 list option \<Rightarrow> u8 list option \<Rightarrow> nat \<Rightarrow> u16 outcome" where
  "net_tcp_checksum source destination segment payload payload_length = (
     case segment of None \<Rightarrow> Ok 0 | Some tcp \<Rightarrow>
       if payload_length \<noteq> 0 \<and> payload = None then Ok 0
       else obind (rd tcp 12) (\<lambda>data_offset.
         let header_length = unat (drop_bit 4 data_offset) * 4 in
         if header_length < 20 \<or> 60 < header_length then Ok 0
         else obind (rdn tcp 0 header_length) (\<lambda>header_bytes.
           let header_bytes = header_bytes[16 := 0, 17 := 0];
               s = net_checksum_sum
                     (pseudo_header source destination 6 (header_length + payload_length)) 0;
               s = net_checksum_sum header_bytes s
           in obind (case payload of None \<Rightarrow> Ok [] | Some p \<Rightarrow> rdn p 0 payload_length) (\<lambda>data.
             Ok (checksum_result (checksum_fold (net_checksum_sum data s)))))))"

section \<open>Addresses\<close>

definition net_mac_equal :: "u8 list \<Rightarrow> u8 list \<Rightarrow> bool" where
  "net_mac_equal left right = (take 6 left = take 6 right)"

definition net_mac_is_broadcast :: "u8 list \<Rightarrow> bool" where
  "net_mac_is_broadcast address = net_mac_equal address (replicate 6 0xFF)"

definition net_mac_copy :: "u8 list \<Rightarrow> u8 list outcome" where
  "net_mac_copy source = rdn source 0 6"

section \<open>Frames\<close>

text \<open>
  The part of \<open>net_build_udp_frame\<close> and \<open>net_build_tcp_frame\<close> that fills the Ethernet and IPv4
  headers.
\<close>

definition build_eth :: "u8 list \<Rightarrow> u8 list \<Rightarrow> net_eth_header outcome" where
  "build_eth source_mac destination_mac =
     obind (net_mac_copy source_mac) (\<lambda>src.
     obind (net_mac_copy destination_mac) (\<lambda>dst.
     Ok \<lparr> eth_destination = dst, eth_source = src, ethertype = htons 0x0800 \<rparr>))"

definition build_ipv4 :: "u8 \<Rightarrow> nat \<Rightarrow> u16 \<Rightarrow> u8 \<Rightarrow> u32 \<Rightarrow> u32 \<Rightarrow> net_ipv4_header" where
  "build_ipv4 proto ip_length ident time_to_live source_ip destination_ip = (
     let ip = \<lparr> version_ihl = 0x45, tos = 0, total_length = htons (of_nat ip_length),
                identification = htons ident, fragment_offset = 0,
                ttl = (if time_to_live = 0 then 64 else time_to_live), protocol = proto,
                ip_checksum = 0, ip_source = source_ip, ip_destination = destination_ip \<rparr>
     in ip\<lparr> ip_checksum := htons (net_checksum (ipv4_bytes ip)) \<rparr>)"

definition net_build_udp_frame ::
    "u8 list option \<Rightarrow> nat \<Rightarrow> u8 list option \<Rightarrow> u8 list option \<Rightarrow> u32 \<Rightarrow> u32 \<Rightarrow> u16 \<Rightarrow> u16 \<Rightarrow>
     u8 list option \<Rightarrow> u16 \<Rightarrow> u8 \<Rightarrow> (nat \<times> u8 list) outcome" where
  "net_build_udp_frame frame capacity source_mac destination_mac source_ip destination_ip
       source_port destination_port payload ident time_to_live = (
     case (frame, source_mac, destination_mac, payload) of
       (Some buffer, Some smac, Some dmac, Some data) \<Rightarrow>
         let payload_length = length data;
             ip_length = (20 + 8 + payload_length) mod 2 ^ 32;
             frame_length = (14 + ip_length) mod 2 ^ 32 in
         if payload_length = 0 \<or> payload_length > 0xFFFF - 8 \<or> ip_length > 0xFFFF \<or>
            frame_length > capacity
         then Err E_INVAL
         else obind (build_eth smac dmac) (\<lambda>eth.
           let ip = build_ipv4 17 ip_length ident time_to_live source_ip destination_ip;
               udp = \<lparr> udp_source_port = source_port, udp_destination_port = destination_port,
                       udp_length = htons (of_nat (8 + payload_length)), udp_checksum = 0 \<rparr>;
               udp = udp\<lparr> udp_checksum :=
                            htons (net_udp_checksum source_ip destination_ip udp data) \<rparr>;
               bytes = eth_bytes eth @ ipv4_bytes ip @ udp_bytes udp @ data
           in obind (wrn buffer 0 bytes) (\<lambda>buffer. Ok (frame_length, buffer)))
     | _ \<Rightarrow> Err E_INVAL)"

record udp_info =
  ui_source_port :: u16
  ui_destination_port :: u16
  ui_source_ip :: u32
  ui_destination_ip :: u32
  ui_payload :: "u8 list"

text \<open>
  \<open>frame\<close> is the memory at the frame pointer, \<open>len\<close> the number of bytes received and \<open>outputs\<close> says
  that no out-parameter is \<open>NULL\<close>.
\<close>

definition net_parse_udp_frame ::
    "u8 list option \<Rightarrow> nat \<Rightarrow> u32 \<Rightarrow> bool \<Rightarrow> udp_info outcome" where
  "net_parse_udp_frame frame_ptr len local_ip outputs = (
     case frame_ptr of None \<Rightarrow> Err E_INVAL | Some frame \<Rightarrow>
     if len < 14 + 20 + 8 \<or> \<not> outputs then Err E_INVAL
     else obind (rdn frame 0 14) (\<lambda>eth.
     if ntohs (ethertype (eth_of eth)) \<noteq> 0x0800 then Err E_INVAL
     else obind (rdn frame 14 20) (\<lambda>ip_hdr.
     let ip = ipv4_of ip_hdr in
     if drop_bit 4 (version_ihl ip) \<noteq> 4 \<or> version_ihl ip AND 0x0F < 5 \<or> protocol ip \<noteq> 17
     then Err E_INVAL
     else let ip_header_length = unat (version_ihl ip AND 0x0F) * 4 in
     if len < 14 + ip_header_length then Err E_INVAL
     else obind (rdn frame 14 ip_header_length) (\<lambda>ip_full.
     if net_checksum ip_full \<noteq> 0 then Err E_INVAL
     else let ip_length = unat (ntohs (total_length ip)) in
     if ip_length < ip_header_length + 8 \<or> ip_length > len - 14 \<or>
        (local_ip \<noteq> 0 \<and> ip_destination ip \<noteq> local_ip)
     then Err E_NOENT
     else obind (rdn frame (14 + ip_header_length) 8) (\<lambda>udp_hdr.
     let udp = udp_of udp_hdr; udp_len = unat (ntohs (udp_length udp)) in
     if udp_len < 8 \<or> udp_len > ip_length - ip_header_length then Err E_INVAL
     else obind (rdn frame (14 + ip_header_length + 8) (udp_len - 8)) (\<lambda>data.
     let received_checksum = ntohs (udp_checksum udp);
         calculated_checksum = net_udp_checksum (ip_source ip) (ip_destination ip) udp data in
     if received_checksum \<noteq> 0 \<and> received_checksum \<noteq> calculated_checksum then Err E_INVAL
     else Ok \<lparr> ui_source_port = udp_source_port udp,
               ui_destination_port = udp_destination_port udp,
               ui_source_ip = ip_source ip, ui_destination_ip = ip_destination ip,
               ui_payload = data \<rparr>))))))"

definition net_parse_arp_frame ::
    "u8 list option \<Rightarrow> nat \<Rightarrow> bool \<Rightarrow> net_arp_packet outcome" where
  "net_parse_arp_frame frame_ptr len outputs = (
     case frame_ptr of None \<Rightarrow> Err E_INVAL | Some frame \<Rightarrow>
     if \<not> outputs \<or> len < 14 + 28 then Err E_INVAL
     else obind (rdn frame 0 14) (\<lambda>eth.
     if ntohs (ethertype (eth_of eth)) \<noteq> 0x0806 then Err E_INVAL
     else obind (rdn frame 14 28) (\<lambda>bytes.
     let arp = arp_of bytes in
     if ntohs (hardware_type arp) \<noteq> 1 \<or> ntohs (protocol_type arp) \<noteq> 0x0800 \<or>
        hardware_length arp \<noteq> 6 \<or> protocol_length arp \<noteq> 4 \<or>
        (ntohs (operation arp) \<noteq> 1 \<and> ntohs (operation arp) \<noteq> 2)
     then Err E_INVAL
     else Ok arp)))"

definition net_build_tcp_frame ::
    "u8 list option \<Rightarrow> nat \<Rightarrow> u8 list option \<Rightarrow> u8 list option \<Rightarrow> u32 \<Rightarrow> u32 \<Rightarrow> u16 \<Rightarrow> u16 \<Rightarrow>
     u32 \<Rightarrow> u32 \<Rightarrow> u8 \<Rightarrow> u16 \<Rightarrow> u8 list option \<Rightarrow> nat \<Rightarrow> u16 \<Rightarrow> u8 \<Rightarrow> (nat \<times> u8 list) outcome" where
  "net_build_tcp_frame frame capacity source_mac destination_mac source_ip destination_ip
       source_port destination_port seq ack flags window payload payload_length ident
       time_to_live = (
     case (frame, source_mac, destination_mac) of
       (Some buffer, Some smac, Some dmac) \<Rightarrow>
         let ip_length = (20 + 20 + payload_length) mod 2 ^ 32;
             frame_length = (14 + ip_length) mod 2 ^ 32 in
         if (payload_length \<noteq> 0 \<and> payload = None) \<or> payload_length > 0xFFFF - 20 \<or>
            ip_length > 0xFFFF \<or> frame_length > capacity
         then Err E_INVAL
         else obind (build_eth smac dmac) (\<lambda>eth.
           let ip = build_ipv4 6 ip_length ident time_to_live source_ip destination_ip;
               tcp = \<lparr> tcp_source_port = source_port, tcp_destination_port = destination_port,
                       sequence = net_htonl seq, acknowledgement = net_htonl ack,
                       data_offset = push_bit 4 (20 div 4), tcp_flags = flags,
                       tcp_window = window, tcp_checksum = 0, urgent = 0 \<rparr> in
           obind (case payload of None \<Rightarrow> Ok [] | Some p \<Rightarrow> rdn p 0 payload_length) (\<lambda>data.
           obind (net_tcp_checksum source_ip destination_ip (Some (tcp_bytes tcp @ data))
                    payload payload_length) (\<lambda>sum.
           let tcp = tcp\<lparr> tcp_checksum := htons sum \<rparr>;
               bytes = eth_bytes eth @ ipv4_bytes ip @ tcp_bytes tcp @ data
           in obind (wrn buffer 0 bytes) (\<lambda>buffer. Ok (frame_length, buffer)))))
     | _ \<Rightarrow> Err E_INVAL)"

record tcp_info =
  ti_source_port :: u16
  ti_destination_port :: u16
  ti_source_ip :: u32
  ti_destination_ip :: u32
  ti_sequence :: u32
  ti_acknowledgement :: u32
  ti_flags :: u8
  ti_window :: u16
  ti_payload :: "u8 list"

definition net_parse_tcp_frame ::
    "u8 list option \<Rightarrow> nat \<Rightarrow> u32 \<Rightarrow> bool \<Rightarrow> tcp_info outcome" where
  "net_parse_tcp_frame frame_ptr len local_ip outputs = (
     case frame_ptr of None \<Rightarrow> Err E_INVAL | Some frame \<Rightarrow>
     if len < 14 + 20 + 20 \<or> \<not> outputs then Err E_INVAL
     else obind (rdn frame 0 14) (\<lambda>eth.
     if ntohs (ethertype (eth_of eth)) \<noteq> 0x0800 then Err E_INVAL
     else obind (rdn frame 14 20) (\<lambda>ip_hdr.
     let ip = ipv4_of ip_hdr in
     if drop_bit 4 (version_ihl ip) \<noteq> 4 \<or> version_ihl ip AND 0x0F < 5 \<or> protocol ip \<noteq> 6
     then Err E_INVAL
     else let ip_header_length = unat (version_ihl ip AND 0x0F) * 4 in
     if len < 14 + ip_header_length then Err E_INVAL
     else obind (rdn frame 14 ip_header_length) (\<lambda>ip_full.
     if net_checksum ip_full \<noteq> 0 then Err E_INVAL
     else let ip_length = unat (ntohs (total_length ip)) in
     if ip_length < ip_header_length + 20 \<or> ip_length > len - 14 \<or>
        (local_ip \<noteq> 0 \<and> ip_destination ip \<noteq> local_ip)
     then Err E_NOENT
     else obind (rdn frame (14 + ip_header_length) 20) (\<lambda>tcp_hdr.
     let tcp = tcp_of tcp_hdr; tcp_header_length = unat (drop_bit 4 (data_offset tcp)) * 4 in
     if tcp_header_length < 20 \<or> tcp_header_length > ip_length - ip_header_length
     then Err E_INVAL
     else let tcp_length = ip_length - ip_header_length; off = 14 + ip_header_length in
     obind (rdn frame off tcp_length) (\<lambda>segment.
     let data = drop tcp_header_length segment in
     obind (net_tcp_checksum (ip_source ip) (ip_destination ip) (Some segment) (Some data)
              (tcp_length - tcp_header_length)) (\<lambda>calculated_checksum.
     if ntohs (tcp_checksum tcp) \<noteq> calculated_checksum then Err E_INVAL
     else Ok \<lparr> ti_source_port = tcp_source_port tcp,
               ti_destination_port = tcp_destination_port tcp,
               ti_source_ip = ip_source ip, ti_destination_ip = ip_destination ip,
               ti_sequence = net_ntohl (sequence tcp),
               ti_acknowledgement = net_ntohl (acknowledgement tcp),
               ti_flags = tcp_flags tcp, ti_window = ntohs (tcp_window tcp),
               ti_payload = data \<rparr>)))))))"

section \<open>Byte order and layout\<close>

lemma htons_htons [simp]: "htons (htons v) = v"
  by (rule bit_word_eqI) (auto simp: htons_def bit_simps)

lemma ntohs_htons [simp]: "ntohs (htons v) = v"
  by (simp add: ntohs_def)

lemma octet_cases:
  obtains "(n :: nat) < 8" | "8 \<le> n" "n < 16" | "16 \<le> n" "n < 24" | "24 \<le> n"
  by linarith

lemma octet_masks:
  "(0x000000FF :: u32) = mask 8" "(0x0000FF00 :: u32) = push_bit 8 (mask 8)"
  "(0x00FF0000 :: u32) = push_bit 16 (mask 8)" "(0xFF000000 :: u32) = push_bit 24 (mask 8)"
  by (simp_all add: mask_eq_exp_minus_1 push_bit_eq_mult)

lemma le16_of_bytes [simp]: "le16_of (ucast v) (ucast (drop_bit 8 v)) = v"
  by (rule bit_word_eqI) (auto simp: le16_of_def bit_simps)

lemma bit_le32_of:
  "bit (le32_of a b c d) n \<longleftrightarrow>
     (if n < 8 then bit a n else if n < 16 then bit b (n - 8)
      else if n < 24 then bit c (n - 16) else n < 32 \<and> bit d (n - 24))"
  by (cases n rule: octet_cases) (auto simp: le32_of_def bit_simps)

lemma bit_net_htonl:
  "bit (net_htonl v) n \<longleftrightarrow>
     (if n < 8 then bit v (n + 24) else if n < 16 then bit v (n + 8)
      else if n < 24 then bit v (n - 8) else n < 32 \<and> bit v (n - 24))"
  unfolding net_htonl_def octet_masks
  by (cases n rule: octet_cases) (auto simp: bit_simps add.commute)

lemma le32_of_bytes [simp]:
  "le32_of (ucast v) (ucast (drop_bit 8 v)) (ucast (drop_bit 16 v)) (ucast (drop_bit 24 v)) = v"
  by (rule bit_word_eqI) (auto simp: bit_le32_of bit_simps)

lemma net_htonl_net_htonl [simp]: "net_htonl (net_htonl v) = v"
  by (rule bit_word_eqI) (auto simp: bit_net_htonl)

lemma net_ntohl_net_htonl [simp]: "net_ntohl (net_htonl v) = v"
  by (simp add: net_ntohl_def)

text \<open>A packed structure: \<open>enc\<close> lays its fields out in \<open>sz\<close> bytes and \<open>dec\<close> reads them back.\<close>

locale packed_struct =
  fixes enc :: "'a \<Rightarrow> u8 list" and dec :: "u8 list \<Rightarrow> 'a" and valid :: "'a \<Rightarrow> bool" and sz :: nat
  assumes length_enc: "valid x \<Longrightarrow> length (enc x) = sz"
    and dec_enc: "valid x \<Longrightarrow> dec (enc x) = x"
begin

lemma read_at_start: "valid x \<Longrightarrow> rdn (enc x @ post) 0 sz = Ok (enc x)"
  by (simp add: length_enc)

lemma read_at:
  "valid x \<Longrightarrow> off = length pre \<Longrightarrow> rdn (pre @ enc x @ post) off sz = Ok (enc x)"
  by (simp add: length_enc)

lemma enc_inject: "valid x \<Longrightarrow> valid y \<Longrightarrow> enc x = enc y \<longleftrightarrow> x = y"
  by (metis dec_enc)

end

definition eth_valid :: "net_eth_header \<Rightarrow> bool" where
  "eth_valid h \<longleftrightarrow> length (eth_destination h) = 6 \<and> length (eth_source h) = 6"

definition arp_valid :: "net_arp_packet \<Rightarrow> bool" where
  "arp_valid p \<longleftrightarrow> length (sender_mac p) = 6 \<and> length (target_mac p) = 6"

interpretation eth: packed_struct eth_bytes eth_of eth_valid 14
  by unfold_locales
    (auto simp: eth_valid_def eth_bytes_def eth_of_def le16_bytes_def nth_append)

interpretation ipv4: packed_struct ipv4_bytes ipv4_of "\<lambda>_. True" 20
  by unfold_locales (simp_all add: ipv4_bytes_def ipv4_of_def le16_bytes_def le32_bytes_def)

interpretation udp: packed_struct udp_bytes udp_of "\<lambda>_. True" 8
  by unfold_locales (simp_all add: udp_bytes_def udp_of_def le16_bytes_def)

interpretation tcp: packed_struct tcp_bytes tcp_of "\<lambda>_. True" 20
  by unfold_locales (simp_all add: tcp_bytes_def tcp_of_def le16_bytes_def le32_bytes_def)

interpretation arp: packed_struct arp_bytes arp_of arp_valid 28
  by unfold_locales
    (auto simp: arp_valid_def arp_bytes_def arp_of_def le16_bytes_def le32_bytes_def nth_append
       nth_Cons' take_Cons' drop_Cons')

section \<open>The Internet checksum\<close>

text \<open>Reference: the sum of the big-endian 16-bit words, without wrap-around.\<close>

fun csum :: "u8 list \<Rightarrow> nat" where
  "csum (b0 # b1 # data) = 256 * unat b0 + unat b1 + csum data"
| "csum [b0] = 256 * unat b0"
| "csum [] = 0"

lemma csum_le: "csum data \<le> 65535 * length data"
proof (induction data rule: csum.induct)
  case (1 b0 b1 data)
  then show ?case
    using unat_lt_u8 [of b0] unat_lt_u8 [of b1] unfolding csum.simps by (simp, linarith)
next
  case (2 b0)
  then show ?case
    using unat_lt_u8 [of b0] unfolding csum.simps by (simp del: unat_lt_u8)
qed simp

lemma csum_append: "even (length a) \<Longrightarrow> csum (a @ b) = csum a + csum b"
  by (induction a rule: csum.induct) simp_all

lemma be16_word: "unat (push_bit 8 (ucast b0) OR ucast b1 :: u32) = 256 * unat b0 + unat b1"
  for b0 b1 :: u8
proof -
  have "push_bit 8 (ucast b0) OR ucast b1 = (push_bit 8 (ucast b0) + ucast b1 :: u32)"
    by (rule disjunctive_add [symmetric]) (auto simp: bit_simps)
  moreover have "unat (push_bit 8 (ucast b0) :: u32) = 256 * unat b0"
    using unat_lt_u8 [of b0] by (simp add: push_bit_eq_mult unat_word_ariths del: unat_lt_u8)
  ultimately show ?thesis
    using unat_lt_u8 [of b0] unat_lt_u8 [of b1]
    by (simp add: unat_plus_noov del: unat_lt_u8)
qed

lemma net_checksum_sum_csum:
  "unat s + csum data < 2 ^ 32 \<Longrightarrow> unat (net_checksum_sum data s) = unat s + csum data"
proof (induction data s rule: net_checksum_sum.induct)
  case (1 b0 b1 data s)
  then show ?case
    by (simp add: unat_plus_noov be16_word)
next
  case (2 b0 s)
  then show ?case
    using be16_word [of b0 0] by (simp add: unat_plus_noov)
qed simp

declare checksum_fold.simps [simp del]

lemma checksum_fold_lt: "unat (checksum_fold s) < 65536"
  by (induction s rule: checksum_fold.induct)
    (subst checksum_fold.simps, simp add: drop_bit_16_eq_0)

lemma checksum_fold_mod: "unat (checksum_fold s) mod 65535 = unat s mod 65535"
proof (induction s rule: checksum_fold.induct)
  case (1 s)
  have "unat s = (unat s mod 65536 + unat s div 65536) + 65535 * (unat s div 65536)"
    using div_mult_mod_eq [of "unat s" 65536] by linarith
  then have "(unat s mod 65536 + unat s div 65536) mod 65535 = unat s mod 65535"
    by (metis mod_mult_self2)
  with 1 show ?case
    by (subst checksum_fold.simps) (simp add: unat_fold_step)
qed

lemma checksum_fold_zero: "checksum_fold s = 0 \<longleftrightarrow> s = 0"
proof (induction s rule: checksum_fold.induct)
  case (1 s)
  have "unat s mod 65536 + unat s div 65536 = 0 \<longleftrightarrow> s = 0"
    by (metis add_is_0 div_mult_mod_eq mult_zero_left unsigned_eq_0_iff mod_0 div_0)
  then have "(s AND 0xFFFF) + drop_bit 16 s = 0 \<longleftrightarrow> s = 0"
    by (metis unat_fold_step unsigned_eq_0_iff)
  with 1 show ?case
    by (subst checksum_fold.simps) auto
qed

lemma unat_ucast_not:
  "unat (s :: u32) < 65536 \<Longrightarrow> unat (ucast (NOT s) :: u16) = 65535 - unat s"
proof -
  assume lt: "unat s < 65536"
  have "ucast (NOT s) = (NOT (ucast s) :: u16)"
    by (rule bit_word_eqI) (auto simp: bit_simps)
  moreover have "unat (ucast s :: u16) = unat s"
    using lt by (simp add: unsigned_ucast_eq take_bit_nat_eq_self)
  moreover have "unat (NOT w) = 65535 - unat w" for w :: u16
  proof -
    have "NOT w = -1 - w"
      by (simp add: not_eq_complement)
    then have "unat (NOT w) = unat (-1 :: u16) - unat w"
      by (simp only: unat_sub word_order.extremum)
    then show ?thesis
      by (simp add: unsigned_minus_1_eq_mask mask_eq_exp_minus_1)
  qed
  ultimately show ?thesis
    by simp
qed

lemma unat_net_checksum:
  assumes "length data < 65536"
  shows "unat (net_checksum data) \<le> 65535"
    and "(unat (net_checksum data) + csum data) mod 65535 = 0"
    and "unat (net_checksum data) = 65535 \<longleftrightarrow> csum data = 0"
proof -
  let ?s = "net_checksum_sum data 0"
  have lt: "csum data < 2 ^ 32"
    using csum_le [of data] assms by simp
  have s: "unat ?s = csum data"
    using net_checksum_sum_csum [of 0 data] lt by simp
  have u: "unat (net_checksum data) = 65535 - unat (checksum_fold ?s)"
    by (simp add: net_checksum_def unat_ucast_not checksum_fold_lt)
  show "unat (net_checksum data) \<le> 65535"
    using u by simp
  have "(unat (net_checksum data) + unat (checksum_fold ?s)) mod 65535 = 0"
    using u checksum_fold_lt [of ?s] by simp
  then show "(unat (net_checksum data) + csum data) mod 65535 = 0"
    by (metis checksum_fold_mod s mod_add_right_eq)
  have "unat (net_checksum data) = 65535 \<longleftrightarrow> unat (checksum_fold ?s) = 0"
    using u checksum_fold_lt [of ?s] by linarith
  then show "unat (net_checksum data) = 65535 \<longleftrightarrow> csum data = 0"
    by (metis checksum_fold_zero s unsigned_eq_0_iff)
qed

lemma net_checksum_eq_0:
  assumes "length data < 65536"
  shows "net_checksum data = 0 \<longleftrightarrow> csum data \<noteq> 0 \<and> csum data mod 65535 = 0"
proof
  assume "net_checksum data = 0"
  then show "csum data \<noteq> 0 \<and> csum data mod 65535 = 0"
    using unat_net_checksum [OF assms] by force
next
  assume r: "csum data \<noteq> 0 \<and> csum data mod 65535 = 0"
  then have "unat (net_checksum data) mod 65535 = 0"
    using unat_net_checksum(2) [OF assms] by (metis add.right_neutral mod_add_right_eq)
  with r show "net_checksum data = 0"
    using unat_net_checksum(1,3) [OF assms]
    by (metis le_neq_implies_less mod_less unsigned_eq_0_iff)
qed

lemma le16_bytes_htons: "le16_bytes (htons c) = [ucast (drop_bit 8 c), ucast c]"
proof -
  have "ucast (htons c) = (ucast (drop_bit 8 c) :: u8)"
    by (rule bit_word_eqI) (auto simp: htons_def bit_simps)
  moreover have "ucast (drop_bit 8 (htons c)) = (ucast c :: u8)"
    by (rule bit_word_eqI) (auto simp: htons_def bit_simps)
  ultimately show ?thesis
    by (simp add: le16_bytes_def)
qed

lemma csum_le16_htons: "csum (le16_bytes (htons c)) = unat c"
proof -
  have "unat (ucast (drop_bit 8 c) :: u8) = unat c div 256"
    using unat_lt_u16 [of c]
    by (simp add: unsigned_ucast_eq drop_bit_eq_div unat_div_distrib take_bit_nat_eq_self
        less_mult_imp_div_less del: unat_lt_u16)
  moreover have "unat (ucast c :: u8) = unat c mod 256"
    by (simp add: unsigned_ucast_eq take_bit_eq_mod)
  ultimately show ?thesis
    by (simp add: le16_bytes_htons)
qed

text \<open>
  The law that makes the checksum field work: whatever surrounds an aligned 16-bit field, storing
  the checksum computed with the field zeroed makes the checksum of the whole zero.
\<close>

lemma net_checksum_verifies:
  assumes even: "even (length pre)" and len: "length pre + length post + 2 < 65536"
    and c: "c = net_checksum (pre @ [0, 0] @ post)"
  shows "net_checksum (pre @ le16_bytes (htons c) @ post) = 0"
proof -
  let ?z = "pre @ [0, 0] @ post" and ?d = "pre @ le16_bytes (htons c) @ post"
  have "csum ?d = csum ?z + unat c"
    using even csum_le16_htons [of c] by (simp add: csum_append le16_bytes_def)
  moreover have l: "length ?z < 65536"
    using len by simp
  moreover have "(unat c + csum ?z) mod 65535 = 0" "unat c = 65535 \<longleftrightarrow> csum ?z = 0"
    unfolding c by (rule unat_net_checksum [OF l])+
  ultimately have "csum ?d mod 65535 = 0" "csum ?d \<noteq> 0"
    by (simp only: add.commute, cases "csum ?z = 0") simp_all
  then show ?thesis
    using net_checksum_eq_0 [of ?d] len by (simp add: le16_bytes_def)
qed

section \<open>Frames round-trip\<close>

lemmas read_headers =
  eth.read_at_start ipv4.read_at udp.read_at tcp.read_at ipv4.read_at_start udp.read_at_start
  tcp.read_at_start eth.dec_enc ipv4.dec_enc [OF TrueI] udp.dec_enc [OF TrueI]
  tcp.dec_enc [OF TrueI]

lemmas header_lengths [simp] =
  ipv4.length_enc [OF TrueI] udp.length_enc [OF TrueI] tcp.length_enc [OF TrueI]

lemma build_ipv4_fields [simp]:
  "version_ihl (build_ipv4 proto n ident t src dst) = 0x45"
  "protocol (build_ipv4 proto n ident t src dst) = proto"
  "total_length (build_ipv4 proto n ident t src dst) = htons (of_nat n)"
  "ip_source (build_ipv4 proto n ident t src dst) = src"
  "ip_destination (build_ipv4 proto n ident t src dst) = dst"
  by (simp_all add: build_ipv4_def)

lemma build_ipv4_checksum [simp]:
  "net_checksum (ipv4_bytes (build_ipv4 proto n ident t src dst)) = 0"
proof -
  let ?h = "build_ipv4 proto n ident t src dst"
  let ?pre = "[version_ihl ?h, tos ?h] @ le16_bytes (total_length ?h) @
    le16_bytes (identification ?h) @ le16_bytes (fragment_offset ?h) @ [ttl ?h, protocol ?h]"
  let ?post = "le32_bytes (ip_source ?h) @ le32_bytes (ip_destination ?h)"
  let ?c = "net_checksum (?pre @ [0, 0] @ ?post)"
  have "ipv4_bytes ?h = ?pre @ le16_bytes (htons ?c) @ ?post"
    by (simp add: ipv4_bytes_def build_ipv4_def Let_def le16_bytes_def [of 0])
  then show ?thesis
    using net_checksum_verifies [of ?pre ?post ?c]
    by (simp add: le16_bytes_def le32_bytes_def)
qed

lemma build_eth_Ok:
  "build_eth smac dmac = Ok h \<Longrightarrow> eth_valid h \<and> ethertype h = htons 0x0800"
  by (auto simp: build_eth_def net_mac_copy_def eth_valid_def rdn_def outcome_simps
      split: if_splits)

lemma net_udp_checksum_ignores [simp]:
  "net_udp_checksum src dst (u\<lparr>udp_checksum := c\<rparr>) data = net_udp_checksum src dst u data"
  by (simp add: net_udp_checksum_def)

lemma udp_frame_layout:
  assumes "net_build_udp_frame (Some buf) cap (Some smac) (Some dmac) sip dip sp dp (Some data)
             ident t = Ok (n, frame)"
  obtains h where "eth_valid h" "ethertype h = htons 0x0800"
    "0 < length data" "length data \<le> 65507" "n = 42 + length data" "n \<le> cap"
    "frame = eth_bytes h @ ipv4_bytes (build_ipv4 17 (28 + length data) ident t sip dip) @
       udp_bytes \<lparr> udp_source_port = sp, udp_destination_port = dp,
         udp_length = htons (of_nat (8 + length data)),
         udp_checksum = htons (net_udp_checksum sip dip
           \<lparr> udp_source_port = sp, udp_destination_port = dp,
             udp_length = htons (of_nat (8 + length data)), udp_checksum = 0 \<rparr> data) \<rparr> @
       data @ drop n buf"
proof -
  have len: "length data \<le> 65507" "0 < length data"
    using assms by (auto simp: net_build_udp_frame_def Let_def split: if_splits)
  then have m: "(28 + length data) mod 4294967296 = 28 + length data"
    "(42 + length data) mod 4294967296 = 42 + length data"
    by simp_all
  show thesis
    using assms that len
    by (auto simp: net_build_udp_frame_def Let_def outcome_simps wrn_def overwrite_def m
        eth.length_enc add.assoc [symmetric] dest!: build_eth_Ok split: if_splits)
qed

text \<open>
  C7: A UDP frame that \<open>net_build_udp_frame\<close> built is accepted by \<open>net_parse_udp_frame\<close>, at any
  received length that covers it (so with any padding), on the destination host or with the
  wildcard address, and the parser returns the ports, addresses and payload that were sent: both
  checksums verify.
\<close>

theorem udp_frame_roundtrip:
  assumes built: "net_build_udp_frame (Some buf) cap (Some smac) (Some dmac) sip dip sp dp
                    (Some data) ident t = Ok (n, frame)"
    and len: "n \<le> len"
    and local: "local_ip = 0 \<or> local_ip = dip"
  shows "net_parse_udp_frame (Some frame) len local_ip True =
           Ok \<lparr> ui_source_port = sp, ui_destination_port = dp, ui_source_ip = sip,
                ui_destination_ip = dip, ui_payload = data \<rparr>"
  using built
proof (rule udp_frame_layout)
  fix h
  let ?u = "\<lparr> udp_source_port = sp, udp_destination_port = dp,
      udp_length = htons (of_nat (8 + length data)), udp_checksum = 0 \<rparr>"
  let ?udp = "?u\<lparr> udp_checksum := htons (net_udp_checksum sip dip ?u data) \<rparr>"
  let ?ip = "build_ipv4 17 (28 + length data) ident t sip dip"
  assume h: "eth_valid h" "ethertype h = htons 0x0800"
    and d: "0 < length data" "length data \<le> 65507" and n: "n = 42 + length data"
    and frame: "frame = eth_bytes h @ ipv4_bytes ?ip @ udp_bytes
      \<lparr> udp_source_port = sp, udp_destination_port = dp,
        udp_length = htons (of_nat (8 + length data)),
        udp_checksum = htons (net_udp_checksum sip dip ?u data) \<rparr> @ data @ drop n buf"
  have f: "frame = eth_bytes h @ ipv4_bytes ?ip @ udp_bytes ?udp @ data @ drop n buf"
    unfolding frame by simp
  have u: "unat (of_nat (28 + length data) :: u16) = 28 + length data"
    "unat (of_nat (8 + length data) :: u16) = 8 + length data"
    using d by (intro unat_of_nat_small, simp)+
  note r = net_udp_checksum_ignores
    [of sip dip "htons (net_udp_checksum sip dip ?u data)" ?u data,
     simplified net_udp_header.simps]
  have l: "\<not> len < 42 + length data" "\<not> len - 14 < 28 + length data"
    using len n by simp_all
  show ?thesis
    using local d h l
    by (auto simp: net_parse_udp_frame_def f eth.length_enc read_headers Let_def u r
        simp del: of_nat_add)
qed

theorem udp_frame_roundtrip_witness:
  "net_parse_udp_frame
     (Some (snd (case net_build_udp_frame (Some (replicate 50 0)) 50 (Some [1, 2, 3, 4, 5, 6])
        (Some [7, 8, 9, 10, 11, 12]) 0x0F02000A 0x0202000A 0x1234 0x3500 (Some [104, 105, 33]) 7 0
        of Ok r \<Rightarrow> r | _ \<Rightarrow> (0, [])))) 48 0x0202000A True =
     Ok \<lparr> ui_source_port = 0x1234, ui_destination_port = 0x3500, ui_source_ip = 0x0F02000A,
          ui_destination_ip = 0x0202000A, ui_payload = [104, 105, 33] \<rparr>"
proof -
  obtain n frame where b: "net_build_udp_frame (Some (replicate 50 0)) 50 (Some [1, 2, 3, 4, 5, 6])
      (Some [7, 8, 9, 10, 11, 12]) 0x0F02000A 0x0202000A 0x1234 0x3500 (Some [104, 105, 33]) 7 0
      = Ok (n, frame)"
    by (simp add: net_build_udp_frame_def Let_def build_eth_def net_mac_copy_def wrn_def
        eth_bytes_def le16_bytes_def)
  then have "n = 45"
    by (rule udp_frame_layout) simp
  then show ?thesis
    using udp_frame_roundtrip [OF b, of 48 "0x0202000A"] b by simp
qed

lemma net_tcp_checksum_nofault:
  assumes "12 < length segment" and "unat (drop_bit 4 (segment ! 12)) * 4 \<le> length segment"
    and "n \<le> length data" and "\<And>c. f c \<noteq> Fault"
  shows "obind (net_tcp_checksum src dst (Some segment) (Some data) n) f \<noteq> Fault"
  using assms by (auto simp: net_tcp_checksum_def rd_def rdn_def Let_def)

text \<open>
  C13: Memory safety of the three frame parsers: whatever the bytes of a received frame are, no
  parser reads outside of the \<open>len\<close> bytes that were received.
\<close>

theorem net_parse_safe:
  assumes "len \<le> length frame"
  shows "net_parse_udp_frame (Some frame) len local_ip outputs \<noteq> Fault \<and>
         net_parse_tcp_frame (Some frame) len local_ip outputs \<noteq> Fault \<and>
         net_parse_arp_frame (Some frame) len outputs \<noteq> Fault"
proof (intro conjI)
  show "net_parse_udp_frame (Some frame) len local_ip outputs \<noteq> Fault"
    unfolding net_parse_udp_frame_def Let_def option.case
    using assms by (intro nofault; (linarith | clarsimp; linarith))
  show "net_parse_arp_frame (Some frame) len outputs \<noteq> Fault"
    unfolding net_parse_arp_frame_def Let_def option.case
    using assms by (intro nofault; (linarith | clarsimp; linarith))
  show "net_parse_tcp_frame (Some frame) len local_ip outputs \<noteq> Fault"
    unfolding net_parse_tcp_frame_def Let_def option.case
    using assms
    by (intro nofault net_tcp_checksum_nofault; (linarith | clarsimp simp: tcp_of_def; linarith))
qed

theorem net_parse_safe_witness:
  "length (replicate 60 (0xFF :: u8)) = 60 \<and>
   net_parse_tcp_frame (Some (replicate 60 0xFF)) 60 0 True \<noteq> Fault"
  using net_parse_safe [of 60 "replicate 60 0xFF" 0 True] by simp

lemma tcp_bytes_zero_checksum:
  "(tcp_bytes h)[16 := 0, 17 := 0] = tcp_bytes (h\<lparr>tcp_checksum := 0\<rparr>)"
  by (simp add: tcp_bytes_def le16_bytes_def le32_bytes_def)

definition tcp_sum :: "u32 \<Rightarrow> u32 \<Rightarrow> net_tcp_header \<Rightarrow> u8 list \<Rightarrow> u16" where
  "tcp_sum src dst h data = checksum_result (checksum_fold (net_checksum_sum data
     (net_checksum_sum (tcp_bytes (h\<lparr>tcp_checksum := 0\<rparr>))
       (net_checksum_sum (pseudo_header src dst 6 (20 + length data)) 0))))"

lemma tcp_sum_ignores [simp]: "tcp_sum src dst (h\<lparr>tcp_checksum := c\<rparr>) data = tcp_sum src dst h data"
  by (simp add: tcp_sum_def)

lemma net_tcp_checksum_plain:
  assumes "data_offset h = 0x50" and "n \<le> length (case p of None \<Rightarrow> [] | Some q \<Rightarrow> q)"
  shows "net_tcp_checksum src dst (Some (tcp_bytes h @ rest)) p n =
           Ok (tcp_sum src dst h (take n (case p of None \<Rightarrow> [] | Some q \<Rightarrow> q)))"
proof -
  have "(tcp_bytes h @ rest) ! 12 = 0x50"
    using assms(1) by (simp add: tcp_bytes_def le16_bytes_def le32_bytes_def)
  then show ?thesis
    using assms(2)
    by (cases p) (simp_all add: net_tcp_checksum_def rd_def Let_def tcp_bytes_zero_checksum tcp_sum_def)
qed

lemma tcp_frame_layout:
  assumes "net_build_tcp_frame (Some buf) cap (Some smac) (Some dmac) sip dip sp dp seq ack fl win
             payload k ident t = Ok (n, frame)"
  obtains h tcp data where "eth_valid h" "ethertype h = htons 0x0800"
    "data = take k (case payload of None \<Rightarrow> [] | Some q \<Rightarrow> q)" "length data = k" "k \<le> 65495"
    "n = 54 + k" "n \<le> cap"
    "tcp = \<lparr> tcp_source_port = sp, tcp_destination_port = dp, sequence = net_htonl seq,
       acknowledgement = net_htonl ack, data_offset = 0x50, tcp_flags = fl, tcp_window = win,
       tcp_checksum = 0, urgent = 0 \<rparr>"
    "frame = eth_bytes h @ ipv4_bytes (build_ipv4 6 (40 + k) ident t sip dip) @
       tcp_bytes (tcp\<lparr>tcp_checksum := htons (tcp_sum sip dip tcp data)\<rparr>) @ data @ drop n buf"
proof -
  let ?data = "take k (case payload of None \<Rightarrow> [] | Some q \<Rightarrow> q)"
  have len: "k \<le> 65495" "payload = None \<longrightarrow> k = 0"
    using assms by (auto simp: net_build_tcp_frame_def Let_def split: if_splits)
  then have m: "(40 + k) mod 4294967296 = 40 + k" "(54 + k) mod 4294967296 = 54 + k"
    by simp_all
  have le: "k \<le> length (case payload of None \<Rightarrow> [] | Some q \<Rightarrow> q)"
    using assms len
    by (auto simp: net_build_tcp_frame_def Let_def outcome_simps rdn_def split: option.splits if_splits)
  then have rd: "(case payload of None \<Rightarrow> Ok [] | Some p \<Rightarrow> rdn p 0 k) = Ok ?data"
    by (auto split: option.splits)
  show thesis
    using assms len le
    by (auto simp: net_build_tcp_frame_def Let_def outcome_simps wrn_def overwrite_def m rd
        net_tcp_checksum_plain eth.length_enc add.assoc [symmetric] dest!: build_eth_Ok
        split: if_splits intro!: that)
qed

text \<open>
  C11: A TCP segment that \<open>net_build_tcp_frame\<close> built is accepted by \<open>net_parse_tcp_frame\<close> at any
  received length that covers it, on the destination host or with the wildcard address; ports,
  addresses, sequence and acknowledgement numbers, flags and payload come back as they were sent,
  and the window comes back in host order (the builder takes it in network order).
\<close>

theorem tcp_frame_roundtrip:
  assumes built: "net_build_tcp_frame (Some buf) cap (Some smac) (Some dmac) sip dip sp dp seq ack
                    fl win payload k ident t = Ok (n, frame)"
    and len: "n \<le> len"
    and local: "local_ip = 0 \<or> local_ip = dip"
  shows "net_parse_tcp_frame (Some frame) len local_ip True =
           Ok \<lparr> ti_source_port = sp, ti_destination_port = dp, ti_source_ip = sip,
                ti_destination_ip = dip, ti_sequence = seq, ti_acknowledgement = ack,
                ti_flags = fl, ti_window = ntohs win,
                ti_payload = take k (case payload of None \<Rightarrow> [] | Some q \<Rightarrow> q) \<rparr>"
  using built
proof (rule tcp_frame_layout)
  fix h tcp data
  let ?ip = "build_ipv4 6 (40 + k) ident t sip dip"
  let ?tcp = "tcp\<lparr>tcp_checksum := htons (tcp_sum sip dip tcp data)\<rparr>"
  assume h: "eth_valid h" "ethertype h = htons 0x0800"
    and d: "data = take k (case payload of None \<Rightarrow> [] | Some q \<Rightarrow> q)" "length data = k" "k \<le> 65495"
    and n: "n = 54 + k"
    and tcp: "tcp = \<lparr> tcp_source_port = sp, tcp_destination_port = dp, sequence = net_htonl seq,
       acknowledgement = net_htonl ack, data_offset = 0x50, tcp_flags = fl, tcp_window = win,
       tcp_checksum = 0, urgent = 0 \<rparr>"
    and f: "frame = eth_bytes h @ ipv4_bytes ?ip @ tcp_bytes ?tcp @ data @ drop n buf"
  have u: "unat (of_nat (40 + k) :: u16) = 40 + k"
    using d by (intro unat_of_nat_small) simp
  have l: "\<not> len < 54 + k" "\<not> len - 14 < 40 + k"
    using len n by simp_all
  have w: "data_offset tcp = 0x50" "tcp_source_port tcp = sp" "tcp_destination_port tcp = dp"
    "sequence tcp = net_htonl seq" "acknowledgement tcp = net_htonl ack" "tcp_flags tcp = fl"
    "tcp_window tcp = win"
    by (simp_all add: tcp)
  have c: "net_tcp_checksum sip dip (Some (tcp_bytes ?tcp @ data)) (Some data) k =
      Ok (tcp_sum sip dip tcp data)"
    using net_tcp_checksum_plain [of ?tcp k "Some data" sip dip data] d(2) w by simp
  show ?thesis
    unfolding d(1) [symmetric] using local d(2) h l
    by (auto simp: net_parse_tcp_frame_def f eth.length_enc read_headers Let_def u c w
        simp del: of_nat_add)
qed

theorem tcp_frame_roundtrip_witness:
  "\<exists>n frame. net_build_tcp_frame (Some (replicate 60 0)) 60 (Some [1, 2, 3, 4, 5, 6])
      (Some [7, 8, 9, 10, 11, 12]) 0x0F02000A 0x0202000A 0x1234 0x5000 100 200 0x18 0xFFFF
      (Some [104, 105, 33]) 3 7 0 = Ok (n, frame) \<and>
     net_parse_tcp_frame (Some frame) 57 0 True =
       Ok \<lparr> ti_source_port = 0x1234, ti_destination_port = 0x5000, ti_source_ip = 0x0F02000A,
            ti_destination_ip = 0x0202000A, ti_sequence = 100, ti_acknowledgement = 200,
            ti_flags = 0x18, ti_window = ntohs 0xFFFF, ti_payload = [104, 105, 33] \<rparr>"
proof -
  obtain n frame where b: "net_build_tcp_frame (Some (replicate 60 0)) 60 (Some [1, 2, 3, 4, 5, 6])
      (Some [7, 8, 9, 10, 11, 12]) 0x0F02000A 0x0202000A 0x1234 0x5000 100 200 0x18 0xFFFF
      (Some [104, 105, 33]) 3 7 0 = Ok (n, frame)"
    by (simp add: net_build_tcp_frame_def Let_def build_eth_def net_mac_copy_def wrn_def
        net_tcp_checksum_plain eth_bytes_def le16_bytes_def)
  then have "n = 57"
    by (rule tcp_frame_layout) simp
  then show ?thesis
    using tcp_frame_roundtrip [OF b, of 57 0] b by simp
qed

text \<open>
  When \<open>net_build_udp_frame\<close> succeeds: exactly for a non-empty payload of at most 65507 bytes
  whose frame fits the capacity; it then returns the frame length and never writes past the
  capacity of the buffer.
\<close>

theorem net_build_udp_frame_Ok_iff:
  assumes "length smac = 6" and "length dmac = 6" and "cap \<le> length buf"
  shows "(\<exists>frame. net_build_udp_frame (Some buf) cap (Some smac) (Some dmac) sip dip sp dp
            (Some data) ident t = Ok (42 + length data, frame) \<and> length frame = length buf \<and>
            drop cap frame = drop cap buf) \<longleftrightarrow>
         0 < length data \<and> length data \<le> 65507 \<and> 42 + length data \<le> cap"
proof (cases "0 < length data \<and> length data \<le> 65507 \<and> 42 + length data \<le> cap")
  case True
  then have m: "(28 + length data) mod 4294967296 = 28 + length data"
    "(42 + length data) mod 4294967296 = 42 + length data"
    by simp_all
  show ?thesis
    using True assms
    by (auto simp: net_build_udp_frame_def Let_def m build_eth_def net_mac_copy_def wrn_def
        eth.length_enc eth_valid_def overwrite_def)
next
  case False
  then show ?thesis
    by (auto elim!: udp_frame_layout)
qed

theorem net_build_udp_frame_Ok_iff_witness:
  "\<exists>frame. net_build_udp_frame (Some (replicate 64 0)) 60 (Some [1, 2, 3, 4, 5, 6])
     (Some [7, 8, 9, 10, 11, 12]) 1 2 3 4 (Some [9]) 0 0 = Ok (43, frame) \<and>
     length frame = 64 \<and> drop 60 frame = replicate 4 0"
  using net_build_udp_frame_Ok_iff [of "[1, 2, 3, 4, 5, 6]" "[7, 8, 9, 10, 11, 12]" 60
      "replicate 64 0" 1 2 3 4 "[9]" 0 0]
  by simp

end
