(* ===== verification/Pgfault.thy ===== *)
theory Pgfault
  imports Vma_Refinement
begin

text \<open>
  The page fault handler \<open>do_pgfault\<close> and the copies between kernel and user memory of
  \<open>src/kern/mm/vmm.c\<close>: demand-zero pages, restored \<open>PROT_NONE\<close> pages, copy on write and swap-in.
\<close>

section \<open>The handler\<close>

text \<open>The switch on the error code: is the access one that the area allows?\<close>

definition fault_allowed :: "u32 \<Rightarrow> vma_struct \<Rightarrow> bool" where
  "fault_allowed error_code v = (
     let kind = error_code AND 3 in
     if kind = 1 then False
     else if kind = 0 then vm_flags v AND (VM_READ OR VM_EXEC) \<noteq> 0
     else vm_flags v AND VM_WRITE \<noteq> 0)"

definition fault_perm :: "vma_struct \<Rightarrow> u32" where
  "fault_perm v = (if vm_flags v AND VM_WRITE \<noteq> 0 then PTE_U OR PTE_W else PTE_U)"

definition zero_fault :: "nat \<Rightarrow> nat \<Rightarrow> u32 \<Rightarrow> 'a kmem_scheme \<Rightarrow> unit outcome \<times> 'a kmem_scheme" where
  "zero_fault pgdir la perm k =
     sbind (pgdir_alloc_page pgdir la perm k) (\<lambda>p k.
     case p of
       None \<Rightarrow> (Err E_NO_MEM, k)
     | Some page \<Rightarrow> (Ok (), k\<lparr>page_data := (page_data k)(page := (\<lambda>_. 0))\<rparr>))"

definition mprotect_fault ::
    "nat \<times> nat \<Rightarrow> vma_struct \<Rightarrow> 'a kmem_scheme \<Rightarrow> unit outcome \<times> 'a kmem_scheme" where
  "mprotect_fault ptr v k = (
     case pa2page (PTE_ADDR (read_pte ptr k)) k of
       Ok page \<Rightarrow>
         let saved = read_pte ptr k AND PTE_COW;
             pte = page2pa page OR PTE_P OR PTE_U OR saved;
             pte = (if vm_flags v AND VM_WRITE \<noteq> 0 \<and> saved AND PTE_COW = 0 then pte OR PTE_W else pte)
         in (Ok (), write_pte ptr pte k)
     | _ \<Rightarrow> (Fault, k))"

text \<open>\<open>swap_map_swappable\<close> followed by the assignment to \<open>pra_vaddr\<close>, if swapping is on.\<close>

definition track_page :: "nat \<Rightarrow> nat \<Rightarrow> nat \<Rightarrow> 'a kmem_scheme \<Rightarrow> 'a kmem_scheme" where
  "track_page mm la page k = (
     if swap_init_ok k
     then upd_page page (\<lambda>g. g\<lparr>pra_vaddr := of_nat la\<rparr>) (snd (fifo_map_swappable mm la page k))
     else k)"

definition cow_fault ::
    "nat \<Rightarrow> nat \<Rightarrow> nat \<times> nat \<Rightarrow> nat \<Rightarrow> u32 \<Rightarrow> 'a kmem_scheme \<Rightarrow> unit outcome \<times> 'a kmem_scheme" where
  "cow_fault mm pgdir ptr la perm k = (
     case pte2page (read_pte ptr k) k of
       Ok old_page \<Rightarrow>
         if \<not> bit (read_pte ptr k) 9 then (Err E_NO_MEM, k)
         else if page_ref old_page k = 1
         then (Ok (), track_page mm la old_page
                 (write_pte ptr ((read_pte ptr k AND NOT PTE_COW) OR PTE_W) k))
         else sbind (alloc_page k) (\<lambda>p k.
           case p of
             None \<Rightarrow> (Err E_NO_MEM, k)
           | Some new_page \<Rightarrow>
               let k = k\<lparr>page_data := (page_data k)(new_page := page_data k old_page)\<rparr> in
               (case page_insert pgdir new_page la perm k of
                  (Ok _, k) \<Rightarrow> (Ok (), track_page mm la new_page k)
                | (Err _, k) \<Rightarrow> sbind (free_page new_page k) (\<lambda>_ k. (Err E_NO_MEM, k))
                | (Fault, k) \<Rightarrow> (Fault, k)))
     | _ \<Rightarrow> (Fault, k))"

text \<open>
  When \<open>page_insert\<close> fails here the handler returns the 0 that \<open>swap_in\<close> had left in \<open>ret\<close>.
\<close>

definition swap_fault ::
    "nat \<Rightarrow> nat \<Rightarrow> nat \<times> nat \<Rightarrow> nat \<Rightarrow> u32 \<Rightarrow> 'a kmem_scheme \<Rightarrow> unit outcome \<times> 'a kmem_scheme" where
  "swap_fault mm pgdir ptr la perm k = (
     if \<not> swap_init_ok k then (Err E_NO_MEM, k)
     else
       let entry = read_pte ptr k in
       sbind (swap_in mm la k) (\<lambda>page k.
       case page_insert pgdir page la perm k of
         (Ok _, k) \<Rightarrow> (Ok (), track_page mm la page (swap_release_entry entry k))
       | (Err _, k) \<Rightarrow> sbind (free_page page k) (\<lambda>_ k. (Ok (), k))
       | (Fault, k) \<Rightarrow> (Fault, k)))"

text \<open>The dispatch of \<open>do_pgfault\<close>, once the area and the entry are known.\<close>

definition fault_entry ::
    "vma_struct \<Rightarrow> nat \<Rightarrow> nat \<Rightarrow> nat \<times> nat \<Rightarrow> nat \<Rightarrow> 'a kmem_scheme \<Rightarrow> unit outcome \<times> 'a kmem_scheme" where
  "fault_entry v m d ptr la k = (
     if read_pte ptr k = 0 then zero_fault d la (fault_perm v) k
     else if bit (read_pte ptr k) 7 then mprotect_fault ptr v k
     else if bit (read_pte ptr k) 0 then cow_fault m d ptr la (fault_perm v) k
     else swap_fault m d ptr la (fault_perm v) k)"

definition do_pgfault ::
    "u32 \<Rightarrow> nat \<Rightarrow> mm_struct \<times> 'a kmem_scheme \<Rightarrow> unit outcome \<times> mm_struct \<times> 'a kmem_scheme" where
  "do_pgfault error_code addr = (\<lambda>(mm, k).
     case find_vma mm addr of
       (Ok (Some v), mm) \<Rightarrow>
         if vm_start v > addr \<or> \<not> fault_allowed error_code v then (Err E_INVAL, mm, k)
         else
           let la = ROUNDDOWN addr PGSIZE; pgdir = mm_pgdir k (mm_id mm);
               (r, k) = sbind (get_pte pgdir la True k) (\<lambda>p k.
                 case p of
                   None \<Rightarrow> (Err E_NO_MEM, k)
                 | Some ptr \<Rightarrow> fault_entry v (mm_id mm) pgdir ptr la k)
           in (r, mm, k)
     | (Ok None, mm) \<Rightarrow> (Err E_INVAL, mm, k)
     | (_, mm) \<Rightarrow> (Fault, mm, k))"

section \<open>Copies\<close>

text \<open>\<open>umem\<close> is the user memory, \<open>dst\<close> the kernel buffer from the destination pointer on.\<close>

definition read_user :: "(nat \<Rightarrow> u8) \<Rightarrow> nat \<Rightarrow> nat \<Rightarrow> u8 list" where
  "read_user umem src len = map umem [src..<src + len]"

definition write_user :: "(nat \<Rightarrow> u8) \<Rightarrow> nat \<Rightarrow> u8 list \<Rightarrow> nat \<Rightarrow> u8" where
  "write_user umem dst bs =
     (\<lambda>a. if dst \<le> a \<and> a < dst + length bs then bs ! (a - dst) else umem a)"

definition copy_from_user ::
    "(nat \<Rightarrow> u8) \<Rightarrow> nat \<Rightarrow> nat \<Rightarrow> bool \<Rightarrow> mm_struct option \<Rightarrow> u8 list option outcome \<times> mm_struct option" where
  "copy_from_user umem src len writable mm =
     sbind (user_mem_check src len writable mm) (\<lambda>ok mm.
       (Ok (if ok then Some (read_user umem src len) else None), mm))"

definition copy_to_user ::
    "(nat \<Rightarrow> u8) \<Rightarrow> nat \<Rightarrow> u8 list \<Rightarrow> mm_struct option \<Rightarrow> (nat \<Rightarrow> u8) option outcome \<times> mm_struct option" where
  "copy_to_user umem dst bs mm =
     sbind (user_mem_check dst (length bs) True mm) (\<lambda>ok mm.
       (Ok (if ok then Some (write_user umem dst bs) else None), mm))"

lemma user_mem_check_pos: "user_mem_check src part w mm = (Ok True, mm') \<Longrightarrow> part \<noteq> 0"
proof
  assume c: "user_mem_check src part w mm = (Ok True, mm')" and p: "part = 0"
  have "add32 src 0 \<le> src"
    by (simp add: add32_def)
  then show False
    using c p by (auto simp: user_mem_check_def KERN_ACCESS_def USER_ACCESS_def split: option.splits)
qed

text \<open>
  The loop of \<open>copy_string\<close>: \<open>acc\<close> is what has been copied so far; \<open>part\<close> is not zero except when
  \<open>maxn\<close> is.
\<close>

function copy_string_loop ::
    "(nat \<Rightarrow> u8) \<Rightarrow> u8 list \<Rightarrow> nat \<Rightarrow> nat \<Rightarrow> nat \<Rightarrow> mm_struct option \<Rightarrow>
     u8 list option outcome \<times> mm_struct option" where
  "copy_string_loop umem acc src part maxn mm = (
     let part = (if part > maxn then maxn else part) in
     case user_mem_check src part False mm of
       (Ok True, mm) \<Rightarrow>
         let chunk = read_user umem src part; alen = length (takeWhile (\<lambda>c. c \<noteq> 0) chunk) in
         if alen < part then (Ok (Some (acc @ take (alen + 1) chunk)), mm)
         else if part = maxn then (Ok None, mm)
         else copy_string_loop umem (acc @ chunk) (add32 src part) PGSIZE (maxn - part) mm
     | (Ok False, mm) \<Rightarrow> (Ok None, mm)
     | (_, mm) \<Rightarrow> (Fault, mm))"
  by auto
termination
  by (relation "measure (\<lambda>(u, acc, src, part, maxn, mm). maxn)")
    (auto dest!: user_mem_check_pos [OF sym])

declare copy_string_loop.simps [simp del]

definition copy_string ::
    "(nat \<Rightarrow> u8) \<Rightarrow> nat \<Rightarrow> nat \<Rightarrow> mm_struct option \<Rightarrow> u8 list option outcome \<times> mm_struct option" where
  "copy_string umem src maxn mm =
     copy_string_loop umem [] src
       ((ROUNDDOWN (add32 src PGSIZE) PGSIZE + (2 ^ 32 - src)) mod 2 ^ 32) maxn mm"

section \<open>What a handled fault leaves behind\<close>

lemma page_insert_mapped:
  assumes "pde s d (PDX la) = Some q" "page_insert d page la perm s = (r, t)"
  shows "tables_kept s t" "r = Fault \<or> r = Ok () \<and> read_pte (q, PTX la) t = page2pa page OR PTE_P OR perm"
proof -
  let ?s = "page_ref_inc page s"
  define m where "m = (if bit (read_pte (q, PTX la) ?s) 0
                then (case pte2page (read_pte (q, PTX la) ?s) ?s of
                        Ok old \<Rightarrow> if old = page then (Ok (), page_ref_dec page ?s)
                                  else page_remove_pte (q, PTX la) ?s
                      | _ \<Rightarrow> (Fault, ?s))
                else (Ok (), ?s))"
  have ins: "page_insert d page la perm s =
      sbind m (\<lambda>_ s. (Ok (), write_pte (q, PTX la) (page2pa page OR PTE_P OR perm) s))"
    using assms(1) by (simp add: page_insert_def get_pte_def m_def Let_def)
  have "tables_kept ?s (snd m)"
    unfolding m_def by (intro kept_control allI kept)
  then have km: "tables_kept s (snd m)"
    by (rule kept_trans [OF kept_ref(2)])
  have "fst m \<noteq> Err e" for e
    by (auto simp: m_def page_remove_pte_def put_page_def free_pages_def default_free_pages_def Let_def
        split: outcome.splits if_splits)
  then have "fst m = Fault \<or> fst m = Ok ()"
    by (cases "fst m") auto
  moreover obtain r' s' where m: "m = (r', s')"
    by (cases m)
  ultimately show "tables_kept s t"
    "r = Fault \<or> r = Ok () \<and> read_pte (q, PTX la) t = page2pa page OR PTE_P OR perm"
    using assms(2) km kept_trans [OF _ kept_write, of s s']
    by (auto simp: ins read_pte_def write_pte_def)
qed

lemma page2pa_low [simp]: "n < 12 \<Longrightarrow> \<not> bit (page2pa p) n"
  by (simp add: page2pa_def bit_push_bit_iff)

lemma pte_bits [simp]:
  "bit (page2pa p OR PTE_P OR perm) 0"
  "bit (page2pa p OR PTE_P OR perm) (Suc 0) = bit perm (Suc 0)"
  by (simp_all add: bit_or_iff)

lemma track_page_kept: "tables_kept s (track_page mm la p s)"
  by (auto simp: track_page_def intro: kept_trans [OF kept_map_swappable kept_upd] kept)

lemma pt_map_swappable [simp]: "pt (snd (fifo_map_swappable mm a p s)) = pt s"
  by (simp add: fifo_map_swappable_def upd_page_def)

lemma pt_upd_page [simp]: "pt (upd_page p f (s :: 'a kmem_scheme)) = pt s"
  by (simp add: upd_page_def)

lemma pt_track_page [simp]: "pt (track_page mm la p s) = pt s"
  by (simp add: track_page_def)

lemma pt_release [simp]: "pt (swap_release_entry e s) = pt s"
  by (simp add: swap_release_entry_def split: option.split)

text \<open>
  \<open>filled s t page b\<close>: going from \<open>s\<close> to \<open>t\<close> kept the directories and changed the contents of
  \<open>page\<close> only, to \<open>b\<close>.
\<close>

definition filled :: "'a kmem_scheme \<Rightarrow> 'a kmem_scheme \<Rightarrow> nat \<Rightarrow> (nat \<Rightarrow> u8) \<Rightarrow> bool" where
  "filled s t page b \<longleftrightarrow> pde t = pde s \<and> page_data t = (page_data s)(page := b)"

lemma zero_fault_ok:
  assumes q: "pde k d (PDX la) = Some q" and z: "zero_fault d la perm k = (Ok (), k')"
  shows "\<exists>page. filled k k' page (\<lambda>_. 0) \<and> read_pte (q, PTX la) k' = page2pa page OR PTE_P OR perm"
proof -
  obtain page k1 where pa: "pgdir_alloc_page d la perm k = (Ok (Some page), k1)"
    and k': "k' = k1\<lparr>page_data := (page_data k1)(page := (\<lambda>_. 0))\<rparr>"
    using z by (auto simp: zero_fault_def sbind_eq_Ok split: option.splits)
  obtain p s1 where al: "alloc_page k = (Ok (Some p), s1)"
    using pa by (auto simp: pgdir_alloc_page_def sbind_eq_Ok split: option.splits)
  have k1: "tables_kept k s1"
    using kept_alloc [of k 1] al by simp
  obtain r s2 where ins: "page_insert d p la perm s1 = (r, s2)"
    by (cases "page_insert d p la perm s1")
  have q1: "pde s1 d (PDX la) = Some q"
    using k1 q by (simp add: tables_kept_def)
  note m = page_insert_mapped [OF q1 ins]
  let ?s3 = "snd (fifo_map_swappable (the (reclaim_mm s2)) la p s2)"
  have "r = Ok ()" "page = p" "pt k1 = pt s2" "tables_kept s2 k1"
    using pa m(2) al ins kept_trans [OF kept_map_swappable [of s2 _ la p] kept_upd]
    by (auto simp: pgdir_alloc_page_def Let_def kept_refl sbind_eq_Ok
        split: option.splits if_splits bool.splits)
  moreover from this(4) have "tables_kept k k1"
    using k1 m(1) by (blast intro: kept_trans)
  ultimately show ?thesis
    using m(2) by (auto simp: k' filled_def tables_kept_def read_pte_def)
qed

lemma cow_fault_ok:
  assumes q: "pde k d (PDX la) = Some q" and c: "cow_fault mm d (q, PTX la) la perm k = (Ok (), k')"
    and P: "bit (read_pte (q, PTX la) k) 0"
  shows "\<exists>old. pte2page (read_pte (q, PTX la) k) k = Ok old \<and>
    (if page_ref old k = 1
     then tables_kept k k' \<and>
       read_pte (q, PTX la) k' = (read_pte (q, PTX la) k AND NOT PTE_COW) OR PTE_W
     else \<exists>page. filled k k' page (page_data k old) \<and>
       read_pte (q, PTX la) k' = page2pa page OR PTE_P OR perm)"
proof -
  obtain old where old: "pte2page (read_pte (q, PTX la) k) k = Ok old"
    using c by (auto simp: cow_fault_def split: outcome.splits)
  show ?thesis
  proof (cases "page_ref old k = 1")
    case True
    then show ?thesis
      using c old kept_trans [OF kept_write track_page_kept]
      by (auto simp: cow_fault_def read_pte_def write_pte_def split: if_splits)
  next
    case False
    then obtain p s1 where al: "alloc_page k = (Ok (Some p), s1)"
      using c old by (auto simp: cow_fault_def sbind_eq_Ok split: option.splits if_splits)
    define s2 where "s2 = s1\<lparr>page_data := (page_data s1)(p := page_data s1 old)\<rparr>"
    obtain r s3 where ins: "page_insert d p la perm s2 = (r, s3)"
      by (cases "page_insert d p la perm s2")
    have k1: "tables_kept k s1"
      using kept_alloc [of k 1] al by simp
    then have q2: "pde s2 d (PDX la) = Some q"
      using q by (simp add: tables_kept_def s2_def)
    note m = page_insert_mapped [OF q2 ins]
    have "r = Ok ()" "k' = track_page mm la p s3"
      using c old False al ins m(2) by (auto simp: cow_fault_def Let_def s2_def split: if_splits)
    moreover from this(2) have "tables_kept s2 k'"
      using m(1) track_page_kept kept_trans by metis
    ultimately show ?thesis
      using m(2) old False k1 by (auto simp: filled_def tables_kept_def s2_def read_pte_def)
  qed
qed

text \<open>The slot that a swap entry names, and that it is in use in a swap area of legal size.\<close>

definition swap_slot :: "u32 \<Rightarrow> nat" where
  "swap_slot e = unat (drop_bit 8 e)"

definition slot_held :: "u32 \<Rightarrow> 'a kmem_scheme \<Rightarrow> bool" where
  "slot_held e k \<longleftrightarrow> slot_count k \<le> 2 ^ 24 \<and> slot_refs k (swap_slot e) \<noteq> 0"

lemma swap_in_ok:
  assumes "swap_in mm la k = (Ok page, t)" and q: "pde k (mm_pgdir k mm) (PDX la) = Some q"
    and e: "\<not> bit (read_pte (q, PTX la) k) 0"
  shows "\<exists>b. filled k t page b \<and> (slot_held (read_pte (q, PTX la) k) k \<longrightarrow>
    b = disk k (swap_slot (read_pte (q, PTX la) k)))"
proof -
  obtain p s1 where al: "alloc_page k = (Ok (Some p), s1)"
    using assms by (auto simp: swap_in_def sbind_eq_Ok split: option.splits)
  have k1: "tables_kept k s1"
    using kept_alloc [of k 1] al by simp
  then have f: "find_pte (mm_pgdir s1 mm) la s1 = Some (q, PTX la)"
    using q by (simp add: find_pte_def tables_kept_def)
  have "filled s1 t page (disk s1 (swap_slot (read_pte (q, PTX la) s1)))"
    using assms(1) al f
    by (cases "disk_errors s1")
      (auto simp: swap_in_def swapfs_read_def sbind_eq_Ok Let_def filled_def disk_result_def swap_offset_def swap_slot_def
        split: option.splits if_splits outcome.splits)
  moreover have "slot_held (read_pte (q, PTX la) k) k \<longrightarrow>
      disk s1 (swap_slot (read_pte (q, PTX la) s1)) = disk k (swap_slot (read_pte (q, PTX la) k))"
    using slots_alloc [of k 1] al e by (auto simp: slots_kept_def slot_held_def read_pte_def)
  ultimately show ?thesis
    using k1 by (auto simp: filled_def tables_kept_def)
qed

lemma swap_fault_ok:
  assumes q: "pde k d (PDX la) = Some q" and c: "swap_fault mm d (q, PTX la) la perm k = (Ok (), k')"
    and d: "d = mm_pgdir k mm" and e: "\<not> bit (read_pte (q, PTX la) k) 0"
  shows "\<exists>page b. filled k k' page b \<and> read_pte (q, PTX la) k' = page2pa page OR PTE_P OR perm \<and>
    (slot_held (read_pte (q, PTX la) k) k \<longrightarrow> b = disk k (swap_slot (read_pte (q, PTX la) k)))"
proof -
  obtain p s1 where si: "swap_in mm la k = (Ok p, s1)"
    using c by (auto simp: swap_fault_def sbind_eq_Ok split: if_splits)
  then obtain b where f: "filled k s1 p b"
    and b: "slot_held (read_pte (q, PTX la) k) k \<longrightarrow> b = disk k (swap_slot (read_pte (q, PTX la) k))"
    using swap_in_ok q d e by metis
  obtain r s2 where ins: "page_insert d p la perm s1 = (r, s2)"
    by (cases "page_insert d p la perm s1")
  have q1: "pde s1 d (PDX la) = Some q"
    using q f by (simp add: filled_def)
  note m = page_insert_mapped [OF q1 ins]
  have "r = Ok ()" "k' = track_page mm la p (swap_release_entry (read_pte (q, PTX la) k) s2)"
    using c si ins m(2) by (auto simp: swap_fault_def Let_def split: if_splits)
  moreover from this(2) have "tables_kept s1 k'"
    using m(1) track_page_kept kept_swap_slots(2) kept_trans by metis
  ultimately show ?thesis
    using f b m(2) by (auto simp: filled_def tables_kept_def read_pte_def)
qed

lemma get_pte_create:
  assumes "get_pte d la True k = (Ok (Some ptr), k1)"
  shows "\<exists>q. ptr = (q, PTX la) \<and> pde k1 d (PDX la) = Some q \<and> page_data k1 = page_data k \<and>
    mm_pgdir k1 = mm_pgdir k"
proof (cases "pde k d (PDX la)")
  case None
  then show ?thesis
    using assms kept_alloc [of k 1]
    by (auto simp: get_pte_def sbind_eq_Ok tables_kept_def set_page_ref_def upd_page_def Let_def
        split: option.splits)
qed (use assms in \<open>auto simp: get_pte_def\<close>)

text \<open>Which accesses the flags of an area permit, by the bits of the error code.\<close>

definition access_allowed :: "u32 \<Rightarrow> u32 \<Rightarrow> bool" where
  "access_allowed ec fl \<longleftrightarrow>
     (if bit ec 1 then bit fl 1 else \<not> bit ec 0 \<and> (bit fl 0 \<or> bit fl 2))"

lemma and_2_iff: "(w :: u32) AND 2 = 0 \<longleftrightarrow> \<not> bit w 1"
  using and_exp_eq_0_iff_not_bit [of w 1] by simp

lemma and_512_iff: "(w :: u32) AND 0x200 = 0 \<longleftrightarrow> \<not> bit w 9"
  using and_exp_eq_0_iff_not_bit [of w 9] by simp

lemma and_5_iff: "(w :: u32) AND 5 = 0 \<longleftrightarrow> \<not> bit w 0 \<and> \<not> bit w 2"
proof -
  have "w AND 5 = w AND (1 OR 4)"
    by simp
  also have "\<dots> = (w AND 1) OR (w AND 4)"
    by (rule bit.conj_disj_distrib)
  finally show ?thesis
    using and_exp_eq_0_iff_not_bit [of w 0] and_exp_eq_0_iff_not_bit [of w 2]
    by (simp only: or_eq_0_iff) simp
qed

lemma and_3_iff: "(w :: u32) AND 3 = 0 \<longleftrightarrow> \<not> bit w 0 \<and> \<not> bit w 1"
  "w AND 3 = 1 \<longleftrightarrow> bit w 0 \<and> \<not> bit w 1"
proof -
  have 1: "w AND 1 = (if bit w 0 then 1 else 0)" "w AND 2 = (if bit w 1 then 2 else 0)"
    by (rule bit_word_eqI; cases "bit w 0"; auto simp: bit_and_iff bit_1_iff intro: gr0I)
      (rule bit_word_eqI; cases "bit w 1"; auto simp: bit_and_iff bit_2_iff)
  have "w AND 3 = w AND (1 OR 2)"
    by simp
  also have "\<dots> = (if bit w 0 then 1 else 0) OR (if bit w 1 then 2 else 0)"
    by (simp only: bit.conj_disj_distrib 1)
  finally show "w AND 3 = 0 \<longleftrightarrow> \<not> bit w 0 \<and> \<not> bit w 1" "w AND 3 = 1 \<longleftrightarrow> bit w 0 \<and> \<not> bit w 1"
    by (simp_all split: if_split)
qed

lemma fault_allowed_iff: "fault_allowed ec v \<longleftrightarrow> access_allowed ec (vm_flags v)"
  by (auto simp: fault_allowed_def access_allowed_def Let_def and_3_iff and_5_iff and_2_iff)

text \<open>The permission bits of a mapping in an area with the given flags.\<close>

definition user_perm :: "u32 \<Rightarrow> u32" where
  "user_perm fl = (if bit fl 1 then PTE_U OR PTE_W else PTE_U)"

lemma fault_perm_eq: "fault_perm v = user_perm (vm_flags v)"
  by (simp add: fault_perm_def user_perm_def and_2_iff)

lemma user_perm_write: "bit (user_perm fl) (Suc 0) \<longleftrightarrow> bit fl (Suc 0)"
  by (simp add: user_perm_def)

lemma do_pgfault_Ok:
  assumes wf: "mm_wf mm" and ok: "do_pgfault ec addr (mm, k) = (Ok (), mm', k')"
  defines "la \<equiv> ROUNDDOWN addr PGSIZE" and "d \<equiv> mm_pgdir k (mm_id mm)"
  obtains v q k1 where "find (vma_contains addr) (mmap_list mm) = Some v" "access_allowed ec (vm_flags v)"
    "get_pte d la True k = (Ok (Some (q, PTX la)), k1)" "pde k1 d (PDX la) = Some q"
    "page_data k1 = page_data k" "mm_pgdir k1 = mm_pgdir k" "fault_entry v (mm_id mm) d (q, PTX la) la k1 = (Ok (), k')"
proof -
  obtain c where c: "find_vma mm addr = (Ok (find (vma_contains addr) (mmap_list mm)), mm\<lparr>mmap_cache := c\<rparr>)"
    using find_vma_wf [OF wf] by blast
  obtain v where v: "find (vma_contains addr) (mmap_list mm) = Some v"
    using ok c by (cases "find (vma_contains addr) (mmap_list mm)") (auto simp: do_pgfault_def)
  have al: "access_allowed ec (vm_flags v)"
    using ok c v by (auto simp: do_pgfault_def fault_allowed_iff split: if_splits)
  have "sbind (get_pte d la True k) (\<lambda>p k. case p of None \<Rightarrow> (Err E_NO_MEM, k)
      | Some ptr \<Rightarrow> fault_entry v (mm_id mm) d ptr la k) = (Ok (), k')"
    using ok c v unfolding la_def d_def
    by (simp add: do_pgfault_def Let_def cong: option.case_cong split: if_splits prod.splits)
  then obtain ptr k1 where g: "get_pte d la True k = (Ok (Some ptr), k1)"
    and e: "fault_entry v (mm_id mm) d ptr la k1 = (Ok (), k')"
    by (auto simp: sbind_eq_Ok split: option.splits)
  show thesis
    using that v al get_pte_create [OF g] g e by blast
qed

lemma PTE_ADDR_distrib:
  "PTE_ADDR (a OR b) = PTE_ADDR a OR PTE_ADDR b" "PTE_ADDR (a AND b) = PTE_ADDR a AND PTE_ADDR b"
  "PTE_ADDR (PTE_ADDR a) = PTE_ADDR a"
  by (rule bit_word_eqI; auto simp: bit_PTE_ADDR bit_or_iff bit_and_iff)+

lemma PTE_ADDR_flags: "PTE_ADDR 1 = 0" "PTE_ADDR 2 = 0" "PTE_ADDR 4 = 0" "PTE_ADDR 5 = 0" "PTE_ADDR 0x200 = 0"
  by (simp_all add: PTE_ADDR_def)

lemma mprotect_fault_ok:
  assumes "mprotect_fault ptr v k = (Ok (), k')"
  shows "tables_kept k k'" "bit (read_pte ptr k') 0"
    "bit (vm_flags v) 1 \<longrightarrow> bit (read_pte ptr k') 1 \<or> bit (read_pte ptr k') 9"
    "PTE_ADDR (read_pte ptr k') = PTE_ADDR (read_pte ptr k)"
proof -
  define page e where "page = PPN (PTE_ADDR (read_pte ptr k))" and "e = (let saved = read_pte ptr k AND PTE_COW;
      pte = page2pa page OR PTE_P OR PTE_U OR saved
      in if vm_flags v AND VM_WRITE \<noteq> 0 \<and> saved AND PTE_COW = 0 then pte OR PTE_W else pte)"
  have k': "k' = write_pte ptr e k"
    using assms unfolding mprotect_fault_def e_def page_def
    by (auto simp: Let_def pa2page_def split: outcome.splits if_splits)
  have "read_pte ptr k' = e" and kept: "tables_kept k k'"
    by (simp_all add: k' read_pte_def write_pte_def tables_kept_def)
  moreover have "PTE_ADDR e = PTE_ADDR (read_pte ptr k)"
    by (simp add: e_def Let_def page_def page2pa_PPN PTE_ADDR_distrib PTE_ADDR_flags)
  moreover have "bit e 0" "bit (vm_flags v) 1 \<longrightarrow> bit e 1 \<or> bit e 9"
    by (auto simp: e_def Let_def bit_or_iff bit_and_iff and_2_iff and_512_iff)
  ultimately show "tables_kept k k'" "bit (read_pte ptr k') 0"
    "bit (vm_flags v) 1 \<longrightarrow> bit (read_pte ptr k') 1 \<or> bit (read_pte ptr k') 9"
    "PTE_ADDR (read_pte ptr k') = PTE_ADDR (read_pte ptr k)"
    by simp_all
qed

lemma fault_entry_present:
  assumes q: "pde k1 d (PDX la) = Some q" and f: "fault_entry v m d (q, PTX la) la k1 = (Ok (), k')"
    and d: "d = mm_pgdir k1 m"
  shows "pde k' = pde k1 \<and> bit (read_pte (q, PTX la) k') 0 \<and>
    (bit (vm_flags v) 1 \<longrightarrow> bit (read_pte (q, PTX la) k') 1 \<or> bit (read_pte (q, PTX la) k') 9) \<and>
    (page_data k' = page_data k1 \<or> (\<exists>page b. page_data k' = (page_data k1)(page := b) \<and>
       read_pte (q, PTX la) k' = page2pa page OR PTE_P OR user_perm (vm_flags v)))"
proof -
  let ?pte = "read_pte (q, PTX la) k1"
  consider (zero) "zero_fault d la (fault_perm v) k1 = (Ok (), k')"
    | (prot) "mprotect_fault (q, PTX la) v k1 = (Ok (), k')"
    | (cow) "bit ?pte 0" "cow_fault m d (q, PTX la) la (fault_perm v) k1 = (Ok (), k')"
    | (swap) "swap_fault m d (q, PTX la) la (fault_perm v) k1 = (Ok (), k')" "\<not> bit ?pte 0"
    using f by (auto simp: fault_entry_def split: if_splits)
  then show ?thesis
  proof cases
    case zero
    then show ?thesis
      using zero_fault_ok [OF q zero] by (auto simp: filled_def fault_perm_eq user_perm_write)
  next
    case prot
    then show ?thesis
      using mprotect_fault_ok [OF prot] by (simp add: tables_kept_def)
  next
    case cow
    show ?thesis
      using cow_fault_ok [OF q cow(2,1)] cow(1)
      by (auto simp: filled_def fault_perm_eq user_perm_write tables_kept_def bit_or_iff bit_and_iff bit_not_iff
          split: if_splits)
  next
    case swap
    then show ?thesis
      using swap_fault_ok [OF q swap(1) d swap(2)] by (auto simp: filled_def fault_perm_eq user_perm_write)
  qed
qed

text \<open>
  C4: A page fault that \<open>do_pgfault\<close> reports as handled was permitted by the area around the address,
  and leaves a present entry for the faulting page in the tables of the process, so that the
  instruction can make progress.  After a write fault the entry is writable or still marked copy on
  write.  At most one page of physical memory got new contents; the entry then maps exactly this
  page, with the permissions of the area.
\<close>

theorem do_pgfault_resolves:
  assumes "mm_wf mm" and "do_pgfault ec addr (mm, k) = (Ok (), mm', k')"
  shows "\<exists>fl ptr. region (mmap_list mm) addr = Some fl \<and> access_allowed ec fl \<and>
    find_pte (mm_pgdir k (mm_id mm)) (ROUNDDOWN addr PGSIZE) k' = Some ptr \<and>
    bit (read_pte ptr k') 0 \<and>
    (bit ec 1 \<longrightarrow> bit (read_pte ptr k') 1 \<or> bit (read_pte ptr k') 9) \<and>
    (page_data k' = page_data k \<or> (\<exists>page b. page_data k' = (page_data k)(page := b) \<and>
       read_pte ptr k' = page2pa page OR PTE_P OR user_perm fl))"
proof -
  obtain v q k1 where v: "find (vma_contains addr) (mmap_list mm) = Some v" "access_allowed ec (vm_flags v)"
    and q: "pde k1 (mm_pgdir k (mm_id mm)) (PDX (ROUNDDOWN addr PGSIZE)) = Some q"
    and d: "page_data k1 = page_data k" "mm_pgdir k1 = mm_pgdir k"
    and f: "fault_entry v (mm_id mm) (mm_pgdir k (mm_id mm)) (q, PTX (ROUNDDOWN addr PGSIZE))
      (ROUNDDOWN addr PGSIZE) k1 = (Ok (), k')"
    using do_pgfault_Ok [OF assms] by metis
  have "region (mmap_list mm) addr = Some (vm_flags v)"
    using v by (simp add: region_def)
  moreover have "bit ec 1 \<longrightarrow> bit (vm_flags v) 1"
    using v by (simp add: access_allowed_def split: if_splits)
  ultimately show ?thesis
    using fault_entry_present [OF q f] q d v by (auto simp: find_pte_def)
qed

text \<open>
  C3: What a handled fault puts into memory, for an entry that existed, in each of the four kinds of
  fault.  An empty entry is made to map a page that has been filled with zeros: no bytes of a former
  owner are exposed.  A hidden page comes back as it was.  A write to a copy-on-write page that nobody
  else maps makes the entry writable in place; if the page is shared, the entry is made to map a
  page that got the same contents, and no other page is written.  A swapped-out page comes back with
  the contents of its slot, also if the allocation of the page has to swap out others, provided
  that the reference count of the slot is not zero and the swap area is not larger than swap
  entries can address.
\<close>

theorem do_pgfault_contents:
  assumes "mm_wf mm" and "do_pgfault ec addr (mm, k) = (Ok (), mm', k')"
    and "find_pte (mm_pgdir k (mm_id mm)) (ROUNDDOWN addr PGSIZE) k = Some ptr"
  shows "\<exists>fl. region (mmap_list mm) addr = Some fl \<and>
    (let e = read_pte ptr k; e' = read_pte ptr k'; maps = (\<lambda>page. e' = page2pa page OR PTE_P OR user_perm fl) in
     if e = 0 then \<exists>page. maps page \<and> page_data k' = (page_data k)(page := (\<lambda>_. 0))
     else if bit e 7 then PTE_ADDR e' = PTE_ADDR e \<and> page_data k' = page_data k
     else if bit e 0 then \<exists>old. pte2page e k = Ok old \<and>
       (if page_ref old k = 1 then e' = (e AND NOT PTE_COW) OR PTE_W \<and> page_data k' = page_data k
        else \<exists>page. maps page \<and> page_data k' = (page_data k)(page := page_data k old))
     else \<exists>page b. maps page \<and> page_data k' = (page_data k)(page := b) \<and>
       (slot_held e k \<longrightarrow> b = disk k (swap_slot e)))"
proof -
  let ?la = "ROUNDDOWN addr PGSIZE" and ?d = "mm_pgdir k (mm_id mm)"
  obtain v q k1 where v: "find (vma_contains addr) (mmap_list mm) = Some v"
    and g: "get_pte ?d ?la True k = (Ok (Some (q, PTX ?la)), k1)"
    and q: "pde k1 ?d (PDX ?la) = Some q"
    and f: "fault_entry v (mm_id mm) ?d (q, PTX ?la) ?la k1 = (Ok (), k')"
    using do_pgfault_Ok [OF assms(1,2)] by metis
  have k1: "k1 = k" "ptr = (q, PTX ?la)"
    using g assms(3) by (auto simp: get_pte_def find_pte_def)
  note q = q [unfolded k1]
  have r: "region (mmap_list mm) addr = Some (vm_flags v)"
    using v by (simp add: region_def)
  let ?e = "read_pte (q, PTX ?la) k"
  consider (zero) "?e = 0" "zero_fault ?d ?la (fault_perm v) k = (Ok (), k')"
    | (prot) "?e \<noteq> 0" "bit ?e 7" "mprotect_fault (q, PTX ?la) v k = (Ok (), k')"
    | (cow) "?e \<noteq> 0" "\<not> bit ?e 7" "bit ?e 0" "cow_fault (mm_id mm) ?d (q, PTX ?la) ?la (fault_perm v) k = (Ok (), k')"
    | (swap) "?e \<noteq> 0" "\<not> bit ?e 7" "\<not> bit ?e 0" "swap_fault (mm_id mm) ?d (q, PTX ?la) ?la (fault_perm v) k = (Ok (), k')"
    using f by (auto simp: fault_entry_def k1 split: if_splits)
  then show ?thesis
  proof cases
    case zero
    then show ?thesis
      using zero_fault_ok [OF q zero(2)] r by (auto simp: k1 fault_perm_eq filled_def Let_def)
  next
    case prot
    then show ?thesis
      using mprotect_fault_ok [OF prot(3)] r by (simp add: k1 tables_kept_def)
  next
    case cow
    obtain old where "pte2page ?e k = Ok old"
      and "if page_ref old k = 1 then tables_kept k k' \<and> read_pte (q, PTX ?la) k' = (?e AND NOT PTE_COW) OR PTE_W
        else \<exists>page. filled k k' page (page_data k old) \<and> read_pte (q, PTX ?la) k' = page2pa page OR PTE_P OR fault_perm v"
      using cow_fault_ok [OF q cow(4,3)] by blast
    then show ?thesis
      using cow(1,2,3) r by (cases "page_ref old k = 1") (auto simp: k1 fault_perm_eq filled_def tables_kept_def Let_def)
  next
    case swap
    then show ?thesis
      using swap_fault_ok [OF q swap(4) refl swap(3)] r by (auto simp: k1 fault_perm_eq filled_def Let_def)
  qed
qed

text \<open>
  C30: An access that the areas of the process do not permit is refused with \<open>E_INVAL\<close>, and neither
  the page tables nor any page changes.
\<close>

theorem do_pgfault_denied:
  assumes "mm_wf mm" and "\<forall>fl. region (mmap_list mm) addr = Some fl \<longrightarrow> \<not> access_allowed ec fl"
  shows "\<exists>c. do_pgfault ec addr (mm, k) = (Err E_INVAL, mm\<lparr>mmap_cache := c\<rparr>, k)"
proof -
  obtain c where c: "find_vma mm addr = (Ok (find (vma_contains addr) (mmap_list mm)), mm\<lparr>mmap_cache := c\<rparr>)"
    using find_vma_wf [OF assms(1)] by blast
  then show ?thesis
    using assms(2)
    by (cases "find (vma_contains addr) (mmap_list mm)")
      (auto simp: do_pgfault_def fault_allowed_iff region_def)
qed

text \<open>
  A process whose page at \<open>0x200000\<close> is frame 7, shared copy on write with \<open>n\<close> mappings; frame 9 is
  free.
\<close>

definition cow_kmem :: "int \<Rightarrow> kmem" where
  "cow_kmem n = idle_kmem\<lparr>
     pages := (\<lambda>p. if p = 7 then (pages idle_kmem 7)\<lparr>ref := n\<rparr>
                   else if p = 9 then (pages idle_kmem 9)\<lparr>flags := 2, property := 1\<rparr>
                   else pages idle_kmem p),
     free_list := [9], nr_free := 1,
     pde := (\<lambda>d i. if d = 0 \<and> i = 0 then Some 5 else None),
     pt := (\<lambda>q i. if q = 5 \<and> i = 512 then 0x7205 else 0),
     page_data := (\<lambda>p _. of_nat p)\<rparr>"

lemma cow_kmem_entry: "find_pte 0 0x200000 (cow_kmem n) = Some (5, 512)"
  "read_pte (5, 512) (cow_kmem n) = 0x7205" "mm_pgdir (cow_kmem n) m = 0"
  "pte2page 0x7205 (cow_kmem n) = Ok 7"
  by (simp_all add: find_pte_def read_pte_def cow_kmem_def PDX_def PTX_def idle_kmem_def
      pte2page_def pa2page_def PTE_ADDR_def PPN_def)

lemma cow_fault_in_place:
  "do_pgfault 3 0x200010 (heap_mm, cow_kmem 1) =
     (Ok (), heap_mm\<lparr>mmap_cache := Some 0\<rparr>, write_pte (5, 512) 0x7007 (cow_kmem 1))"
proof -
  have "swap_init_ok (write_pte (5, 512) v (cow_kmem 1)) = False" for v
    by (simp add: write_pte_def cow_kmem_def idle_kmem_def)
  moreover have "page_ref 7 (cow_kmem 1) = 1" "pde (cow_kmem 1) 0 0 = Some 5"
    by (simp_all add: page_ref_def cow_kmem_def)
  moreover have "find_vma heap_mm 0x200010 = (Ok (Some (hd (mmap_list heap_mm))), heap_mm\<lparr>mmap_cache := Some 0\<rparr>)"
    by (simp add: find_vma_def heap_mm_def vma_contains_def)
  ultimately show ?thesis
    by (simp add: do_pgfault_def fault_allowed_def ROUNDDOWN_def get_pte_def PDX_def PTX_def
        fault_entry_def cow_fault_def cow_kmem_entry track_page_def heap_mm_def)
qed

theorem do_pgfault_resolves_witness:
  "\<exists>ptr. find_pte 0 0x200000 (write_pte (5, 512) 0x7007 (cow_kmem 1)) = Some ptr \<and>
     bit (read_pte ptr (write_pte (5, 512) 0x7007 (cow_kmem 1))) 0"
  using do_pgfault_resolves [OF heap_mm_wf(1) cow_fault_in_place]
  by (auto simp: cow_kmem_entry heap_mm_def ROUNDDOWN_def)

theorem do_pgfault_denied_witness:
  "\<exists>c. do_pgfault 2 0x300000 (heap_mm, idle_kmem) = (Err E_INVAL, heap_mm\<lparr>mmap_cache := c\<rparr>, idle_kmem)"
  by (rule do_pgfault_denied [OF heap_mm_wf(1)]) (simp add: heap_mm_def vma_contains_def)

lemma cow_fault_copies:
  "\<exists>k'. do_pgfault 3 0x200010 (heap_mm, cow_kmem 2) = (Ok (), heap_mm\<lparr>mmap_cache := Some 0\<rparr>, k')"
proof -
  have "\<exists>k'. cow_fault 0 0 (5, 512) 0x200000 6 (cow_kmem 2) = (Ok (), k')"
    by (simp add: cow_fault_def cow_kmem_entry)
      (simp add: cow_kmem_def idle_kmem_def alloc_pages_def alloc_pages_loop.simps
        default_alloc_pages_def page_ref_def Let_def page_insert_def get_pte_def PDX_def PTX_def
        page_ref_inc_def set_page_ref_def upd_page_def read_pte_def pte2page_def pa2page_def
        PTE_ADDR_def PPN_def page_remove_pte_def put_page_def page_ref_dec_def)
  moreover have "pde (cow_kmem 2) 0 0 = Some 5"
    by (simp add: cow_kmem_def)
  moreover have "find_vma heap_mm 0x200010 = (Ok (Some (hd (mmap_list heap_mm))), heap_mm\<lparr>mmap_cache := Some 0\<rparr>)"
    by (simp add: find_vma_def heap_mm_def vma_contains_def)
  ultimately show ?thesis
    by (auto simp: do_pgfault_def fault_allowed_def fault_perm_def ROUNDDOWN_def get_pte_def PDX_def PTX_def
        fault_entry_def cow_kmem_entry heap_mm_def)
qed

theorem do_pgfault_contents_witness:
  "\<exists>k' page. do_pgfault 3 0x200010 (heap_mm, cow_kmem 2) = (Ok (), heap_mm\<lparr>mmap_cache := Some 0\<rparr>, k') \<and>
     page_data k' = (page_data (cow_kmem 2))(page := page_data (cow_kmem 2) 7) \<and>
     read_pte (5, 512) k' = page2pa page OR PTE_P OR user_perm 3"
proof -
  obtain k' where k': "do_pgfault 3 0x200010 (heap_mm, cow_kmem 2) = (Ok (), heap_mm\<lparr>mmap_cache := Some 0\<rparr>, k')"
    using cow_fault_copies by blast
  have "page_ref 7 (cow_kmem 2) \<noteq> 1" "region (mmap_list heap_mm) 0x200010 = Some 3"
    by (simp_all add: page_ref_def cow_kmem_def heap_mm_def vma_contains_def)
  then show ?thesis
    using do_pgfault_contents [OF heap_mm_wf(1) k', of "(5, 512)"] k'
    by (auto simp: cow_kmem_entry ROUNDDOWN_def bit_numeral_rec Let_def)
qed

section \<open>Strings from user memory\<close>

text \<open>\<open>user_string umem vs src n\<close>: at \<open>src\<close> there is a readable string of \<open>n\<close> characters.\<close>

definition user_string :: "(nat \<Rightarrow> u8) \<Rightarrow> vma_struct list \<Rightarrow> nat \<Rightarrow> nat \<Rightarrow> bool" where
  "user_string umem vs src n \<longleftrightarrow> umem (src + n) = 0 \<and> (\<forall>i<n. umem (src + i) \<noteq> 0) \<and>
     (\<forall>i\<le>n. access_ok False vs (src + i))"

lemma access_ok_user:
  "vmas_wf vs \<Longrightarrow> access_ok w vs a \<Longrightarrow> USERBASE \<le> a \<and> a < USERTOP"
  by (fastforce simp: access_ok_def vmas_wf_def vma_ok_def vma_contains_def)

lemma access_ok_same_page:
  assumes "vmas_wf vs" "access_ok False vs a" "a div PGSIZE = b div PGSIZE"
  shows "access_ok False vs b"
proof -
  obtain v where v: "v \<in> set vs" "vma_contains a v" "vm_flags v AND (VM_READ OR VM_EXEC) \<noteq> 0"
    using assms(2) by (auto simp: access_ok_def)
  have "vm_start v mod PGSIZE = 0" "vm_end v mod PGSIZE = 0"
    using assms(1) v(1) by (auto simp: vmas_wf_def vma_ok_def)
  then obtain x y where xy: "vm_start v = x * PGSIZE" "vm_end v = y * PGSIZE"
    by (metis mod_0_imp_dvd dvdE mult.commute)
  have "x \<le> a div PGSIZE" "a div PGSIZE < y"
    using v(2) by (simp_all add: vma_contains_def xy less_eq_div_iff_mult_less_eq div_less_iff_less_mult)
  then have "vma_contains b v"
    by (simp add: vma_contains_def xy less_eq_div_iff_mult_less_eq div_less_iff_less_mult assms(3))
  then show ?thesis
    using v by (auto simp: access_ok_def)
qed

lemma user_string_chunk:
  assumes wf: "vmas_wf vs" and us: "user_string umem vs src n" "n < maxn"
    and part: "0 < part" "part \<le> PGSIZE" "(src + part) mod PGSIZE = 0"
  defines "p \<equiv> min part maxn"
  shows "0 < p \<and> USERBASE \<le> src \<and> src + p \<le> USERTOP \<and> (\<forall>a. src \<le> a \<and> a < src + p \<longrightarrow> access_ok False vs a)"
proof -
  have all: "access_ok False vs a" if a: "src \<le> a" "a < src + p" for a
  proof (cases "a \<le> src + n")
    case True
    then show ?thesis
      using us(1) a by (auto simp: user_string_def dest: spec [of _ "a - src"])
  next
    case False
    obtain x where x: "src + part = x * PGSIZE"
      using part(3) by (metis mod_0_imp_dvd dvdE mult.commute)
    have "x - 1 \<le> b div PGSIZE \<and> b div PGSIZE < x" if "src \<le> b" "b < src + part" for b
      using that part x by (simp add: less_eq_div_iff_mult_less_eq div_less_iff_less_mult diff_mult_distrib)
    moreover have "a < src + part" "src + n < src + part"
      using a False by (simp_all add: p_def)
    ultimately have "x - 1 \<le> a div PGSIZE \<and> a div PGSIZE < x" "x - 1 \<le> (src + n) div PGSIZE \<and> (src + n) div PGSIZE < x"
      using a(1) by simp_all
    then have "a div PGSIZE = (src + n) div PGSIZE"
      by linarith
    then show ?thesis
      using access_ok_same_page [OF wf, of "src + n" a] us(1) by (auto simp: user_string_def)
  qed
  have "0 < p"
    using us part by (simp add: p_def)
  moreover from this have "USERBASE \<le> src" "src + p - 1 < USERTOP"
    using access_ok_user [OF wf all, of src] access_ok_user [OF wf all, of "src + p - 1"] by simp_all
  ultimately show ?thesis
    using all by auto
qed

lemma read_user_append: "read_user umem src (m + n) = read_user umem src m @ read_user umem (src + m) n"
  using upt_add_eq_append [of src "src + m" n] by (simp add: read_user_def add.assoc)

lemma nul_in_chunk:
  fixes p :: nat and src :: nat and umem :: "nat \<Rightarrow> u8"
  defines "n \<equiv> length (takeWhile (\<lambda>c. c \<noteq> 0) (read_user umem src p))"
  shows "n \<le> p" "\<forall>i<n. umem (src + i) \<noteq> 0" "n < p \<Longrightarrow> umem (src + n) = 0"
    "n < p \<Longrightarrow> take (n + 1) (read_user umem src p) = read_user umem src (n + 1)"
proof -
  have len: "length (read_user umem src p) = p"
    by (simp add: read_user_def)
  have nth: "read_user umem src p ! i = umem (src + i)" if "i < p" for i
    using that by (simp add: read_user_def)
  show le: "n \<le> p"
    using length_takeWhile_le [of "\<lambda>c. c \<noteq> 0" "read_user umem src p"] len by (simp add: n_def)
  have "umem (src + i) \<noteq> 0" if "i < n" for i
  proof -
    let ?t = "takeWhile (\<lambda>c. c \<noteq> 0) (read_user umem src p)"
    have "?t ! i \<in> set ?t"
      using that by (simp add: n_def)
    then have "?t ! i \<noteq> 0"
      by (blast dest: set_takeWhileD)
    then show ?thesis
      using that le nth by (simp add: n_def takeWhile_nth)
  qed
  then show "\<forall>i<n. umem (src + i) \<noteq> 0"
    by blast
  show "n < p \<Longrightarrow> umem (src + n) = 0"
    using nth_length_takeWhile [of "\<lambda>c. c \<noteq> 0" "read_user umem src p"] nth len by (simp add: n_def)
  show "n < p \<Longrightarrow> take (n + 1) (read_user umem src p) = read_user umem src (n + 1)"
    by (simp add: read_user_def take_map)
qed

lemma all_less_split:
  assumes "(m :: nat) \<le> n" "\<forall>i<m. P i"
  shows "(\<forall>i<n. P i) \<longleftrightarrow> (\<forall>i<n - m. P (m + i))"
proof
  assume r: "\<forall>i<n - m. P (m + i)"
  have "P i" if "i < n" for i
  proof (cases "i < m")
    case False
    then show ?thesis
      using r [rule_format, of "i - m"] that by simp
  qed (use assms in blast)
  then show "\<forall>i<n. P i"
    by blast
qed (use assms in auto)

lemma user_string_skip:
  assumes "\<forall>i<m. umem (src + i) \<noteq> 0" "\<forall>i<m. access_ok False vs (src + i)"
  shows "user_string umem vs src n \<longleftrightarrow> m \<le> n \<and> user_string umem vs (src + m) (n - m)"
proof (cases "m \<le> n")
  case True
  then show ?thesis
    using all_less_split [of m n "\<lambda>i. umem (src + i) \<noteq> 0"]
      all_less_split [of m "Suc n" "\<lambda>i. access_ok False vs (src + i)"] assms
    by (simp add: user_string_def add.assoc Suc_diff_le less_Suc_eq_le)
qed (use assms in \<open>auto simp: user_string_def\<close>)

lemma user_string_unique:
  "user_string umem vs src n \<Longrightarrow> user_string umem vs src n' \<Longrightarrow> n = n'"
  by (metis linorder_neqE_nat user_string_def)

lemma copy_string_loop_exact:
  assumes "mm_wf mm" "src < 2 ^ 32" "maxn < 2 ^ 32"
    and "0 < part" "part \<le> PGSIZE" "(src + part) mod PGSIZE = 0"
  shows "(\<exists>n<maxn. user_string umem (mmap_list mm) src n \<and>
      fst (copy_string_loop umem acc src part maxn (Some mm)) =
        Ok (Some (acc @ read_user umem src (n + 1)))) \<or>
    (\<forall>n<maxn. \<not> user_string umem (mmap_list mm) src n) \<and>
      fst (copy_string_loop umem acc src part maxn (Some mm)) = Ok None"
  using assms
proof (induction maxn arbitrary: acc src part mm rule: less_induct)
  case (less maxn)
  let ?p = "min part maxn" and ?vs = "mmap_list mm"
  have V: "vmas_wf ?vs"
    using less.prems(1) by (simp add: mm_wf_def)
  let ?yes = "0 < ?p \<and> USERBASE \<le> src \<and> src + ?p \<le> USERTOP \<and>
    (\<forall>a. src \<le> a \<and> a < src + ?p \<longrightarrow> access_ok False ?vs a)"
  obtain c where c: "user_mem_check src ?p False (Some mm) = (Ok ?yes, Some (mm\<lparr>mmap_cache := c\<rparr>))"
      "mm_wf (mm\<lparr>mmap_cache := c\<rparr>)"
    by (rule user_mem_check_decides [OF less.prems(1,2), of ?p False]) (use less.prems(3) in simp)
  have pm: "(if part > maxn then maxn else part) = ?p"
    by (simp add: min_def)
  note step = copy_string_loop.simps [of umem acc src part maxn "Some mm", unfolded pm Let_def c(1)]
  show ?case
  proof (cases ?yes)
    case False
    then have "\<not> user_string umem ?vs src n" if "n < maxn" for n
      using user_string_chunk [OF V _ that less.prems(4,5,6), of umem] by blast
    moreover have "fst (copy_string_loop umem acc src part maxn (Some mm)) = Ok None"
      using False by (subst step) (simp only: prod.case outcome.case bool.case False fst_conv)
    ultimately show ?thesis
      by blast
  next
    case True
    let ?n = "length (takeWhile (\<lambda>c. c \<noteq> 0) (read_user umem src ?p))"
    note nul = nul_in_chunk [of umem src ?p]
    have ok: "access_ok False ?vs (src + i)" if "i < ?p" for i
      using True that by auto
    have step': "copy_string_loop umem acc src part maxn (Some mm) =
       (if ?n < ?p then (Ok (Some (acc @ take (?n + 1) (read_user umem src ?p))), Some (mm\<lparr>mmap_cache := c\<rparr>))
        else if ?p = maxn then (Ok None, Some (mm\<lparr>mmap_cache := c\<rparr>))
        else copy_string_loop umem (acc @ read_user umem src ?p) (add32 src ?p) PGSIZE (maxn - ?p)
               (Some (mm\<lparr>mmap_cache := c\<rparr>)))"
      by (subst step, subst eqTrueI [OF True]) simp
    consider "?n < ?p" | "?n = ?p" "?p = maxn" | "?n = ?p" "part < maxn"
      using nul(1) by linarith
    then show ?thesis
    proof cases
      case 1
      then have "user_string umem ?vs src ?n" "?n < maxn"
        using nul ok by (auto simp: user_string_def)
      then show ?thesis
        using 1 nul(4) by (intro disjI1 exI [of _ ?n]) (simp add: step')
    next
      case 2
      then have "\<not> user_string umem ?vs src n" if "n < maxn" for n
        using nul(2) that by (auto simp: user_string_def)
      then show ?thesis
        using 2 by (simp add: step')
    next
      case 3
      then have p: "?p = part" "?n = part"
        by auto
      have a32: "add32 src part = src + part" "src + part < 2 ^ 32"
        using True p by (auto simp: add32_def)
      have split: "user_string umem ?vs src n \<longleftrightarrow> part \<le> n \<and> user_string umem ?vs (src + part) (n - part)" for n
        using nul(2) [unfolded p(2)] ok [unfolded p(1)] by (intro user_string_skip) auto
      have rest: "copy_string_loop umem acc src part maxn (Some mm) =
          copy_string_loop umem (acc @ read_user umem src part) (src + part) PGSIZE (maxn - part)
               (Some (mm\<lparr>mmap_cache := c\<rparr>))"
        using 3 p a32 by (simp add: step')
      have "(src + part + PGSIZE) mod PGSIZE = 0"
        using less.prems(6) by (simp add: mod_add_self2)
      note IH = less.IH [OF _ c(2) a32(2), of "maxn - part" PGSIZE "acc @ read_user umem src part"]
      have IH': "(\<exists>n<maxn - part. user_string umem ?vs (src + part) n \<and>
          fst (copy_string_loop umem acc src part maxn (Some mm)) =
            Ok (Some (acc @ read_user umem src part @ read_user umem (src + part) (n + 1)))) \<or>
        (\<forall>n<maxn - part. \<not> user_string umem ?vs (src + part) n) \<and>
          fst (copy_string_loop umem acc src part maxn (Some mm)) = Ok None"
        using IH less.prems 3 rest \<open>(src + part + PGSIZE) mod PGSIZE = 0\<close> by simp
      then show ?thesis
      proof
        assume "\<exists>n<maxn - part. user_string umem ?vs (src + part) n \<and>
          fst (copy_string_loop umem acc src part maxn (Some mm)) =
            Ok (Some (acc @ read_user umem src part @ read_user umem (src + part) (n + 1)))"
        then obtain n where n: "n < maxn - part" "user_string umem ?vs (src + part) n"
          "fst (copy_string_loop umem acc src part maxn (Some mm)) =
            Ok (Some (acc @ read_user umem src part @ read_user umem (src + part) (n + 1)))"
          by blast
        then show ?thesis
          using split [of "part + n"] read_user_append [of umem src part "n + 1"]
          by (intro disjI1 exI [of _ "part + n"]) (simp add: add.assoc)
      next
        assume "(\<forall>n<maxn - part. \<not> user_string umem ?vs (src + part) n) \<and>
          fst (copy_string_loop umem acc src part maxn (Some mm)) = Ok None"
        then show ?thesis
          using split by (auto simp: less_diff_conv2)
      qed
    qed
  qed
qed

lemma page_rest:
  assumes "src < 2 ^ 32"
  defines "part \<equiv> (ROUNDDOWN (add32 src PGSIZE) PGSIZE + (2 ^ 32 - src)) mod 2 ^ 32"
  shows "0 < part" "part \<le> PGSIZE" "(src + part) mod PGSIZE = 0"
proof -
  define q r where qr: "q = src div PGSIZE" "r = src mod PGSIZE"
  have src: "src = q * PGSIZE + r" "r < PGSIZE"
    by (simp_all add: qr div_mult_mod_eq)
  have "q < 1048576"
    using assms(1) by (simp add: qr div_less_iff_less_mult)
  then consider "q < 1048575" | "q = 1048575"
    by linarith
  then have "part = PGSIZE - r"
  proof cases
    case 1
    then have "add32 src PGSIZE = src + PGSIZE"
      using src by (simp add: add32_def)
    moreover have "ROUNDDOWN (src + PGSIZE) PGSIZE = (q + 1) * PGSIZE"
      using src by (simp add: ROUNDDOWN_def)
    ultimately have "part = ((q + 1) * PGSIZE + (2 ^ 32 - src)) mod 2 ^ 32"
      by (simp add: part_def)
    also have "(q + 1) * PGSIZE + (2 ^ 32 - src) = PGSIZE - r + 2 ^ 32"
      using src assms(1) by simp
    finally show ?thesis
      by simp
  next
    case 2
    then have "add32 src PGSIZE = r"
      using src by (simp add: add32_def)
    then show ?thesis
      using 2 src by (simp add: part_def ROUNDDOWN_def)
  qed
  moreover from this have "src + part = (q + 1) * PGSIZE"
    using src by simp
  ultimately show "0 < part" "part \<le> PGSIZE" "(src + part) mod PGSIZE = 0"
    using src(2) by simp_all
qed

text \<open>
  C32: \<open>copy_string\<close> is exact.  It returns a string precisely if a terminated string of fewer than
  \<open>maxn\<close> characters starts at the user address and every byte of it, the terminator included, is
  readable; then the kernel's copy is that string with its terminator.  In every other case it
  says no.  It never reads an address outside the areas of the process, although it checks page by
  page and not byte by byte.
\<close>

theorem copy_string_exact:
  assumes "mm_wf mm" and "src < 2 ^ 32" and "maxn < 2 ^ 32"
  shows "(fst (copy_string umem src maxn (Some mm)) = Ok (Some bs) \<longleftrightarrow>
      (\<exists>n<maxn. user_string umem (mmap_list mm) src n \<and> bs = read_user umem src (n + 1))) \<and>
    (fst (copy_string umem src maxn (Some mm)) = Ok None \<longleftrightarrow>
      (\<forall>n<maxn. \<not> user_string umem (mmap_list mm) src n))"
  using copy_string_loop_exact [OF assms page_rest [OF assms(2)], of umem "[]"]
  by (auto simp: copy_string_def dest: user_string_unique)

definition hello_memory :: "nat \<Rightarrow> u8" where
  "hello_memory a = (if a = 0x200FFE then 104 else if a = 0x200FFF then 105 else 0)"

theorem copy_string_exact_witness:
  "fst (copy_string hello_memory 0x200FFE 256 (Some heap_mm)) = Ok (Some [104, 105, 0])"
  (is "fst ?c = _")
proof -
  have "user_string hello_memory (mmap_list heap_mm) 0x200FFE 2"
    by (auto simp: user_string_def hello_memory_def access_ok_def heap_mm_def vma_contains_def
        less_2_cases_iff)
  moreover have "read_user hello_memory 0x200FFE 3 = [104, 105, 0]"
    by (simp add: read_user_def hello_memory_def upt_rec)
  ultimately show ?thesis
    using copy_string_exact [OF heap_mm_wf(1), of "0x200FFE" 256 hello_memory "[104, 105, 0]"]
    by (auto intro!: exI [of _ 2])
qed

end
