(* ===== verification/Run_Pool.thy ===== *)
theory Run_Pool
  imports Prelude "HOL-Library.Tree_Multiset"
begin

text \<open>
  The skew heap of \<open>src/libs/skew_heap.h\<close> that the stride scheduler keeps its run pool in.

  The code works on nodes linked by \<open>parent\<close>, \<open>left\<close> and \<open>right\<close> pointers.  Its model is a store from
  node numbers to nodes, \<open>None\<close> being \<open>NULL\<close>.  The recursion of \<open>skew_heap_merge\<close> follows pointers, so it is a
  partial function: \<open>None\<close> as its result means that it does not return.  The functional heaps
  \<open>merge_tree\<close> and \<open>remove_tree\<close> say what the pointer operations compute; the scheduler is modelled on
  them.
\<close>

section \<open>Pointer operations\<close>

record skew_heap_entry =
  parent :: "nat option"
  left :: "nat option"
  right :: "nat option"

type_synonym heap = "nat \<Rightarrow> skew_heap_entry"
type_synonym compare_f = "nat \<Rightarrow> nat \<Rightarrow> int"

definition skew_heap_init :: "nat \<Rightarrow> heap \<Rightarrow> heap" where
  "skew_heap_init a h = h(a := \<lparr> parent = None, left = None, right = None \<rparr>)"

definition set_parent :: "nat option \<Rightarrow> nat option \<Rightarrow> heap \<Rightarrow> heap" where
  "set_parent x p h = (case x of None \<Rightarrow> h | Some x \<Rightarrow> h(x := (h x)\<lparr>parent := p\<rparr>))"

partial_function (option) skew_heap_merge ::
    "compare_f \<Rightarrow> nat option \<Rightarrow> nat option \<Rightarrow> heap \<Rightarrow> (nat option \<times> heap) option" where
  "skew_heap_merge cmp ao bo h = (
     case ao of
       None \<Rightarrow> Some (bo, h)
     | Some a \<Rightarrow>
         (case bo of
            None \<Rightarrow> Some (ao, h)
          | Some b \<Rightarrow>
              if cmp a b = -1
              then let r = left (h a) in
                Option.bind (skew_heap_merge cmp (right (h a)) bo h) (\<lambda>(l, h).
                  let h = h(a := (h a)\<lparr>left := l, right := r\<rparr>);
                      h = set_parent l (Some a) h
                  in Some (ao, h))
              else let r = left (h b) in
                Option.bind (skew_heap_merge cmp ao (right (h b)) h) (\<lambda>(l, h).
                  let h = h(b := (h b)\<lparr>left := l, right := r\<rparr>);
                      h = set_parent l (Some b) h
                  in Some (bo, h))))"

definition skew_heap_insert ::
    "compare_f \<Rightarrow> nat option \<Rightarrow> nat \<Rightarrow> heap \<Rightarrow> (nat option \<times> heap) option" where
  "skew_heap_insert cmp a b h = skew_heap_merge cmp a (Some b) (skew_heap_init b h)"

definition skew_heap_remove ::
    "compare_f \<Rightarrow> nat option \<Rightarrow> nat \<Rightarrow> heap \<Rightarrow> (nat option \<times> heap) option" where
  "skew_heap_remove cmp a b h =
     (let p = parent (h b) in
      Option.bind (skew_heap_merge cmp (left (h b)) (right (h b)) h) (\<lambda>(rep, h).
        let h = set_parent rep p h in
        case p of
          Some q \<Rightarrow>
            if left (h q) = Some b then Some (a, h(q := (h q)\<lparr>left := rep\<rparr>))
            else Some (a, h(q := (h q)\<lparr>right := rep\<rparr>))
        | None \<Rightarrow> Some (rep, h)))"

section \<open>Functional heaps\<close>

function merge_tree :: "compare_f \<Rightarrow> nat tree \<Rightarrow> nat tree \<Rightarrow> nat tree" where
  "merge_tree cmp Leaf t = t"
| "merge_tree cmp (Node l a r) Leaf = Node l a r"
| "merge_tree cmp (Node l1 a r1) (Node l2 b r2) = (
     if cmp a b = -1 then Node (merge_tree cmp r1 (Node l2 b r2)) a l1
     else Node (merge_tree cmp (Node l1 a r1) r2) b l2)"
  by pat_completeness auto
termination
  by (relation "measure (\<lambda>(c, t, u). size t + size u)") auto

fun remove_tree :: "compare_f \<Rightarrow> nat \<Rightarrow> nat tree \<Rightarrow> nat tree" where
  "remove_tree cmp b Leaf = Leaf"
| "remove_tree cmp b (Node l a r) = (
     if a = b then merge_tree cmp l r
     else Node (remove_tree cmp b l) a (remove_tree cmp b r))"

definition insert_tree :: "compare_f \<Rightarrow> nat \<Rightarrow> nat tree \<Rightarrow> nat tree" where
  "insert_tree cmp b t = merge_tree cmp t (Node Leaf b Leaf)"

lemma mset_merge_tree [simp]: "mset_tree (merge_tree cmp t u) = mset_tree t + mset_tree u"
  by (induction cmp t u rule: merge_tree.induct) auto

lemma set_merge_tree [simp]: "set_tree (merge_tree cmp t u) = set_tree t \<union> set_tree u"
  by (metis mset_merge_tree set_mset_tree set_mset_union)

lemma size_merge_tree [simp]: "size (merge_tree cmp t u) = size t + size u"
  by (metis mset_merge_tree size_mset_tree size_union)

definition distinct_tree :: "nat tree \<Rightarrow> bool" where
  "distinct_tree t \<longleftrightarrow> distinct (inorder t)"

lemma distinct_tree_simps [simp]:
  "distinct_tree Leaf"
  "distinct_tree (Node l a r) \<longleftrightarrow> distinct_tree l \<and> distinct_tree r \<and> a \<notin> set_tree l \<and> a \<notin> set_tree r \<and>
     set_tree l \<inter> set_tree r = {}"
  by (auto simp: distinct_tree_def)

lemma distinct_merge_tree:
  "distinct_tree t \<Longrightarrow> distinct_tree u \<Longrightarrow> set_tree t \<inter> set_tree u = {} \<Longrightarrow> distinct_tree (merge_tree cmp t u)"
  by (induction cmp t u rule: merge_tree.induct) auto

lemma set_insert_tree [simp]: "set_tree (insert_tree cmp b t) = insert b (set_tree t)"
  and size_insert_tree [simp]: "size (insert_tree cmp b t) = Suc (size t)"
  by (simp_all add: insert_tree_def)

lemma distinct_insert_tree:
  "distinct_tree t \<Longrightarrow> b \<notin> set_tree t \<Longrightarrow> distinct_tree (insert_tree cmp b t)"
  by (simp add: insert_tree_def distinct_merge_tree)

lemma remove_tree_absent: "b \<notin> set_tree t \<Longrightarrow> remove_tree cmp b t = t"
  by (induction t) auto

lemma set_remove_tree:
  "distinct_tree t \<Longrightarrow> set_tree (remove_tree cmp b t) = set_tree t - {b}"
  by (induction t) auto

lemma size_remove_tree:
  "distinct_tree t \<Longrightarrow> b \<in> set_tree t \<Longrightarrow> Suc (size (remove_tree cmp b t)) = size t"
proof (induction t)
  case (Node l a r)
  consider "a = b" | "a \<noteq> b" "b \<in> set_tree l" "b \<notin> set_tree r" | "a \<noteq> b" "b \<notin> set_tree l" "b \<in> set_tree r"
    using Node.prems by auto
  then show ?case
    using Node by cases (simp_all add: remove_tree_absent)
qed simp

lemma distinct_remove_tree: "distinct_tree t \<Longrightarrow> distinct_tree (remove_tree cmp b t)"
  by (induction t) (auto simp: distinct_merge_tree set_remove_tree)

section \<open>The pointer operations compute the functional ones\<close>

fun root :: "nat tree \<Rightarrow> nat option" where
  "root Leaf = None"
| "root (Node l a r) = Some a"

text \<open>
  \<open>linked h t\<close>: the nodes of \<open>t\<close> are linked in the store as the tree says, with correct back pointers.
  The back pointer of the root is not constrained.
\<close>

fun linked :: "heap \<Rightarrow> nat tree \<Rightarrow> bool" where
  "linked h Leaf = True"
| "linked h (Node l a r) \<longleftrightarrow> left (h a) = root l \<and> right (h a) = root r \<and>
     (\<forall>x\<in>set_option (root l). parent (h x) = Some a) \<and> (\<forall>x\<in>set_option (root r). parent (h x) = Some a) \<and>
     linked h l \<and> linked h r"

lemma root_in: "root t = Some x \<Longrightarrow> x \<in> set_tree t"
  by (cases t) auto

lemma linked_cong: "\<forall>x\<in>set_tree t. h' x = h x \<Longrightarrow> linked h' t = linked h t"
proof (induction t)
  case (Node l a r)
  have "\<forall>x\<in>set_option (root l) \<union> set_option (root r). h' x = h x"
    using Node.prems root_in [of l] root_in [of r] by auto
  then show ?case
    using Node by (auto simp: ball_Un)
qed simp

lemma linked_set_parent:
  "distinct_tree t \<Longrightarrow> linked (set_parent (root t) p h) t = linked h t"
proof (cases t)
  case (Node l a r)
  assume d: "distinct_tree t"
  have "linked (h(a := (h a)\<lparr>parent := p\<rparr>)) u = linked h u" if "a \<notin> set_tree u" for u
    using that by (intro linked_cong) auto
  then show ?thesis
    using d Node by (auto simp: set_parent_def dest: root_in)
qed simp

lemma set_parent_other: "x \<notin> set_option r \<Longrightarrow> set_parent r p h x = h x"
  by (cases r) (auto simp: set_parent_def)

lemma set_parent_fields [simp]:
  "left (set_parent r p h x) = left (h x)" "right (set_parent r p h x) = right (h x)"
  "x \<in> set_option r \<Longrightarrow> parent (set_parent r p h x) = p"
  by (auto simp: set_parent_def split: option.split)

lemma relink:
  assumes m1: "linked h1 m" and m2: "distinct_tree m" and m3: "\<forall>x. x \<notin> set_tree m \<longrightarrow> h1 x = h x"
    and c1: "linked h (Node l c r)" and c2: "c \<notin> set_tree m" and c3: "c \<notin> set_tree l"
    and c4: "set_tree l \<inter> set_tree m = {}"
  shows "\<exists>h'. h' = set_parent (root m) (Some c) (h1(c := (h1 c)\<lparr>left := root m, right := root l\<rparr>)) \<and>
      linked h' (Node m c l) \<and> (\<forall>x. x \<notin> insert c (set_tree m) \<longrightarrow> h' x = h x) \<and> parent (h' c) = parent (h c)"
proof -
  define h2 where "h2 = h1(c := (h1 c)\<lparr>left := root m, right := root l\<rparr>)"
  define g where "g = set_parent (root m) (Some c) h2"
  have c': "root m \<noteq> Some c"
    using c2 root_in [of m c] by auto
  have out: "g x = h x" if "x \<notin> insert c (set_tree m)" for x
    using that m3 root_in [of m x] unfolding g_def h2_def by (subst set_parent_other) auto
  have "linked h2 m"
    using m1 c2 linked_cong [of m h2 h1] by (auto simp: h2_def)
  then have gm: "linked g m"
    using linked_set_parent [OF m2] by (simp add: g_def)
  have "x \<notin> insert c (set_tree m)" if "x \<in> set_tree l" for x
    using that c3 c4 by auto
  then have eq: "\<forall>x\<in>set_tree l. g x = h x"
    using out by blast
  then have "\<forall>x\<in>set_option (root l). parent (g x) = Some c"
    using c1 root_in [of l] by auto
  moreover have "linked g l"
    using linked_cong [OF eq] c1 by simp
  moreover have "\<forall>x\<in>set_option (root m). parent (g x) = Some c"
    by (simp add: g_def)
  moreover have "left (g c) = root m" "right (g c) = root l" "parent (g c) = parent (h c)"
    using c' m3 c2 by (simp_all add: g_def h2_def set_parent_other)
  ultimately show ?thesis
    using out gm by (auto simp: g_def [symmetric] h2_def [symmetric])
qed

lemma merge_linked:
  assumes "linked h t" "linked h u" "distinct_tree t" "distinct_tree u" "set_tree t \<inter> set_tree u = {}"
  shows "\<exists>h'. skew_heap_merge cmp (root t) (root u) h = Some (root (merge_tree cmp t u), h') \<and>
    linked h' (merge_tree cmp t u) \<and> (\<forall>x. x \<notin> set_tree t \<union> set_tree u \<longrightarrow> h' x = h x) \<and>
    (\<forall>x\<in>set_option (root (merge_tree cmp t u)). parent (h' x) = parent (h x))"
  using assms
proof (induction cmp t u arbitrary: h rule: merge_tree.induct)
  case (1 cmp t)
  then show ?case
    by (simp add: skew_heap_merge.simps)
next
  case (2 cmp l a r)
  then show ?case
    by (simp add: skew_heap_merge.simps)
next
  case (3 cmp l1 a r1 l2 b r2)
  let ?t = "Node l1 a r1" and ?u = "Node l2 b r2"
  have t: "linked h ?t" "linked h r1" "distinct_tree ?t" "distinct_tree r1" "a \<notin> set_tree l1"
    and u: "linked h ?u" "linked h r2" "distinct_tree ?u" "distinct_tree r2" "b \<notin> set_tree l2"
    using "3.prems" by auto
  have d: "set_tree r1 \<inter> set_tree ?u = {}" "set_tree ?t \<inter> set_tree r2 = {}"
    "set_tree l1 \<inter> (set_tree r1 \<union> set_tree ?u) = {}" "set_tree l2 \<inter> (set_tree ?t \<union> set_tree r2) = {}"
    "a \<notin> set_tree r1 \<union> set_tree ?u" "b \<notin> set_tree ?t \<union> set_tree r2"
    using "3.prems" by auto
  show ?case
  proof (cases "cmp a b = -1")
    case True
    let ?m = "merge_tree cmp r1 ?u"
    obtain h1 where h1: "skew_heap_merge cmp (root r1) (Some b) h = Some (root ?m, h1)"
      "linked h1 ?m" "\<forall>x. x \<notin> set_tree ?m \<longrightarrow> h1 x = h x"
      using "3.IH"(1) [OF True t(2) u(1) t(4) u(3) d(1)] by auto
    obtain h' where h': "h' = set_parent (root ?m) (Some a) (h1(a := (h1 a)\<lparr>left := root ?m, right := root l1\<rparr>))"
      "linked h' (Node ?m a l1)" "\<forall>x. x \<notin> insert a (set_tree ?m) \<longrightarrow> h' x = h x" "parent (h' a) = parent (h a)"
      using relink [OF h1(2) distinct_merge_tree [OF t(4) u(3) d(1)] h1(3) t(1) _ t(5)] d(3,5) by auto
    have "skew_heap_merge cmp (root ?t) (root ?u) h = Some (Some a, h')"
      using True h1(1) t(1) unfolding h'(1) by (subst skew_heap_merge.simps) (simp add: Let_def)
    then show ?thesis
      using True h'(2,3,4) by auto
  next
    case False
    let ?m = "merge_tree cmp ?t r2"
    obtain h1 where h1: "skew_heap_merge cmp (Some a) (root r2) h = Some (root ?m, h1)"
      "linked h1 ?m" "\<forall>x. x \<notin> set_tree ?m \<longrightarrow> h1 x = h x"
      using "3.IH"(2) [OF False t(1) u(2) t(3) u(4) d(2)] by auto
    obtain h' where h': "h' = set_parent (root ?m) (Some b) (h1(b := (h1 b)\<lparr>left := root ?m, right := root l2\<rparr>))"
      "linked h' (Node ?m b l2)" "\<forall>x. x \<notin> insert b (set_tree ?m) \<longrightarrow> h' x = h x" "parent (h' b) = parent (h b)"
      using relink [OF h1(2) distinct_merge_tree [OF t(3) u(4) d(2)] h1(3) u(1) _ u(5)] d(4,6) by auto
    have "skew_heap_merge cmp (root ?t) (root ?u) h = Some (Some b, h')"
      using False h1(1) u(1) unfolding h'(1) by (subst skew_heap_merge.simps) (simp add: Let_def)
    then show ?thesis
      using False h'(2,3,4) by auto
  qed
qed

lemma splice:
  assumes l: "linked h (Node ll b lr)" "distinct_tree (Node ll b lr)"
  obtains h1 where "skew_heap_merge cmp (left (h b)) (right (h b)) h = Some (root (merge_tree cmp ll lr), h1)"
    "linked (set_parent (root (merge_tree cmp ll lr)) p h1) (merge_tree cmp ll lr)"
    "\<forall>x. x \<notin> set_tree ll \<union> set_tree lr \<longrightarrow> set_parent (root (merge_tree cmp ll lr)) p h1 x = h x"
proof -
  let ?m = "merge_tree cmp ll lr"
  obtain h1 where h1: "skew_heap_merge cmp (root ll) (root lr) h = Some (root ?m, h1)" "linked h1 ?m"
    "\<forall>x. x \<notin> set_tree ll \<union> set_tree lr \<longrightarrow> h1 x = h x"
    using merge_linked [of h ll lr cmp] l by auto
  have "distinct_tree ?m"
    using l(2) by (intro distinct_merge_tree) auto
  moreover have "set_parent (root ?m) p h1 x = h x" if "x \<notin> set_tree ll \<union> set_tree lr" for x
    using that h1(3) root_in [of ?m x] by (subst set_parent_other) auto
  ultimately show thesis
    using that [of h1] h1 l(1) linked_set_parent by auto
qed

lemma remove_inner:
  assumes "linked h t" "distinct_tree t" "b \<in> set_tree t" "root t \<noteq> Some b"
  shows "\<exists>h'. skew_heap_remove cmp a b h = Some (a, h') \<and> linked h' (remove_tree cmp b t) \<and>
    (\<forall>x. x \<notin> set_tree t \<longrightarrow> h' x = h x) \<and> (\<forall>x\<in>set_option (root t). parent (h' x) = parent (h x)) \<and>
    root (remove_tree cmp b t) = root t"
  using assms
proof (induction t)
  case (Node l c r)
  have c: "left (h c) = root l" "right (h c) = root r" "linked h l" "linked h r" "distinct_tree l" "distinct_tree r"
    "c \<notin> set_tree l" "c \<notin> set_tree r" "set_tree l \<inter> set_tree r = {}" "c \<noteq> b"
    and par: "\<forall>x\<in>set_option (root l). parent (h x) = Some c" "\<forall>x\<in>set_option (root r). parent (h x) = Some c"
    using Node.prems by auto
  consider (l) "root l = Some b" | (r) "root r = Some b" "b \<notin> set_tree l"
    | (ll) "root l \<noteq> Some b" "b \<in> set_tree l" | (rr) "root r \<noteq> Some b" "b \<in> set_tree r"
    using Node.prems(3) c root_in [of r b] by auto
  then show ?case
  proof cases
    case l
    then obtain x y where node: "l = Node x b y"
      by (cases l) auto
    let ?m = "merge_tree cmp x y"
    obtain h1 where h1: "skew_heap_merge cmp (left (h b)) (right (h b)) h = Some (root ?m, h1)"
      and lg: "linked (set_parent (root ?m) (Some c) h1) ?m"
      and gh: "\<forall>z. z \<notin> set_tree x \<union> set_tree y \<longrightarrow> set_parent (root ?m) (Some c) h1 z = h z"
      by (rule splice [of h x b y cmp "Some c"]) (use c node in auto)
    define g where "g = set_parent (root ?m) (Some c) h1"
    define h' where "h' = g(c := (g c)\<lparr>left := root ?m\<rparr>)"
    have sub: "set_tree ?m \<subseteq> set_tree l" and gc: "g c = h c"
      using gh c node by (auto simp: g_def)
    have "skew_heap_remove cmp a b h = Some (a, h')"
      using h1 par l gc c root_in [of l b] 
      by (auto simp: skew_heap_remove_def Let_def g_def [symmetric] h'_def)
    moreover have em: "\<forall>z\<in>set_tree ?m. h' z = g z"
      using sub c by (auto simp: h'_def)
    moreover have "linked h' ?m"
      using lg [folded g_def] linked_cong [OF em] by blast
    moreover have eq: "\<forall>z\<in>set_tree r. h' z = h z"
      using gh c node by (auto simp: h'_def g_def)
    moreover have "linked h' r"
      using linked_cong [OF eq] c by blast
    moreover have "\<forall>z\<in>set_option (root ?m). parent (h' z) = Some c" "\<forall>z\<in>set_option (root r). parent (h' z) = Some c"
      using sub c root_in [of ?m] root_in [of r] eq par by (auto simp: h'_def g_def)
    moreover have "remove_tree cmp b r = r" "remove_tree cmp b l = ?m"
      using node c by (auto intro: remove_tree_absent)
    moreover have "h' z = h z" if "z \<notin> set_tree (Node l c r)" for z
      using that gh node by (auto simp: h'_def g_def)
    moreover have "left (h' c) = root ?m" "right (h' c) = root r" "parent (h' c) = parent (h c)"
      using gc c by (simp_all add: h'_def)
    ultimately show ?thesis
      using c by auto
  next
    case r
    then obtain x y where node: "r = Node x b y"
      by (cases r) auto
    let ?m = "merge_tree cmp x y"
    obtain h1 where h1: "skew_heap_merge cmp (left (h b)) (right (h b)) h = Some (root ?m, h1)"
      and lg: "linked (set_parent (root ?m) (Some c) h1) ?m"
      and gh: "\<forall>z. z \<notin> set_tree x \<union> set_tree y \<longrightarrow> set_parent (root ?m) (Some c) h1 z = h z"
      by (rule splice [of h x b y cmp "Some c"]) (use c node in auto)
    define g where "g = set_parent (root ?m) (Some c) h1"
    define h' where "h' = g(c := (g c)\<lparr>right := root ?m\<rparr>)"
    have sub: "set_tree ?m \<subseteq> set_tree r" and gc: "g c = h c"
      using gh c node by (auto simp: g_def)
    have "skew_heap_remove cmp a b h = Some (a, h')"
      using h1 par r gc c root_in [of l b] r(2) 
      by (auto simp: skew_heap_remove_def Let_def g_def [symmetric] h'_def)
    moreover have em: "\<forall>z\<in>set_tree ?m. h' z = g z"
      using sub c by (auto simp: h'_def)
    moreover have "linked h' ?m"
      using lg [folded g_def] linked_cong [OF em] by blast
    moreover have eq: "\<forall>z\<in>set_tree l. h' z = h z"
      using gh c node by (auto simp: h'_def g_def)
    moreover have "linked h' l"
      using linked_cong [OF eq] c by blast
    moreover have "\<forall>z\<in>set_option (root ?m). parent (h' z) = Some c" "\<forall>z\<in>set_option (root l). parent (h' z) = Some c"
      using sub c root_in [of ?m] root_in [of l] eq par by (auto simp: h'_def g_def)
    moreover have "remove_tree cmp b l = l" "remove_tree cmp b r = ?m"
      using node c by (auto intro: remove_tree_absent)
    moreover have "h' z = h z" if "z \<notin> set_tree (Node l c r)" for z
      using that gh node by (auto simp: h'_def g_def)
    moreover have "left (h' c) = root l" "right (h' c) = root ?m" "parent (h' c) = parent (h c)"
      using gc c by (simp_all add: h'_def)
    ultimately show ?thesis
      using c by auto
  next
    case ll
    then obtain h' where h': "skew_heap_remove cmp a b h = Some (a, h')" "linked h' (remove_tree cmp b l)"
      "\<forall>x. x \<notin> set_tree l \<longrightarrow> h' x = h x" "\<forall>x\<in>set_option (root l). parent (h' x) = parent (h x)"
      "root (remove_tree cmp b l) = root l"
      using Node.IH(1) c by blast
    have eq: "\<forall>x\<in>set_tree r. h' x = h x"
      using h'(3) c(9) by auto
    have "remove_tree cmp b r = r"
      using ll(2) c(9) by (auto intro: remove_tree_absent)
    moreover have "linked h' r" "h' c = h c" "\<forall>x\<in>set_option (root r). h' x = h x"
      using linked_cong [OF eq] c eq root_in [of r] h'(3) by auto
    ultimately show ?thesis
      using h' c par by auto
  next
    case rr
    then obtain h' where h': "skew_heap_remove cmp a b h = Some (a, h')" "linked h' (remove_tree cmp b r)"
      "\<forall>x. x \<notin> set_tree r \<longrightarrow> h' x = h x" "\<forall>x\<in>set_option (root r). parent (h' x) = parent (h x)"
      "root (remove_tree cmp b r) = root r"
      using Node.IH(2) c by blast
    have eq: "\<forall>x\<in>set_tree l. h' x = h x"
      using h'(3) c(9) by auto
    have "remove_tree cmp b l = l"
      using rr(2) c(9) by (auto intro: remove_tree_absent)
    moreover have "linked h' l" "h' c = h c" "\<forall>x\<in>set_option (root l). h' x = h x"
      using linked_cong [OF eq] c eq root_in [of l] h'(3) by auto
    ultimately show ?thesis
      using h' c par by auto
  qed
qed simp

lemma remove_root:
  assumes "linked h (Node l b r)" "distinct_tree (Node l b r)" "parent (h b) = None"
  shows "\<exists>h'. skew_heap_remove cmp a b h = Some (root (merge_tree cmp l r), h') \<and>
    linked h' (merge_tree cmp l r) \<and> (\<forall>x. x \<notin> set_tree l \<union> set_tree r \<longrightarrow> h' x = h x) \<and>
    (\<forall>x\<in>set_option (root (merge_tree cmp l r)). parent (h' x) = None)"
proof -
  obtain h1 where h1: "skew_heap_merge cmp (left (h b)) (right (h b)) h = Some (root (merge_tree cmp l r), h1)"
    "linked (set_parent (root (merge_tree cmp l r)) None h1) (merge_tree cmp l r)"
    "\<forall>x. x \<notin> set_tree l \<union> set_tree r \<longrightarrow> set_parent (root (merge_tree cmp l r)) None h1 x = h x"
    by (rule splice [OF assms(1,2), of cmp None])
  then show ?thesis
    using assms(3) by (simp add: skew_heap_remove_def)
qed

text \<open>
  C33: \<open>skew_heap_insert\<close> on linked nodes returns, and the nodes then represent the functional heap with
  the new node: left, right and parent pointers are consistent, no node is lost or duplicated, and
  no other node is written.
\<close>

theorem skew_heap_insert_refines:
  assumes "linked h t" and "distinct_tree t" and "b \<notin> set_tree t"
    and "\<forall>x\<in>set_option (root t). parent (h x) = None"
  shows "\<exists>h'. skew_heap_insert cmp (root t) b h = Some (root (insert_tree cmp b t), h') \<and>
    linked h' (insert_tree cmp b t) \<and> mset_tree (insert_tree cmp b t) = add_mset b (mset_tree t) \<and>
    (\<forall>x\<in>set_option (root (insert_tree cmp b t)). parent (h' x) = None) \<and>
    (\<forall>x. x \<notin> insert b (set_tree t) \<longrightarrow> h' x = h x)"
proof -
  let ?h = "skew_heap_init b h" and ?b = "Node Leaf b Leaf"
  have "linked ?h t" "linked ?h ?b"
    using assms(1,3) linked_cong [of t ?h h] by (auto simp: skew_heap_init_def)
  then obtain h' where h': "skew_heap_merge cmp (root t) (Some b) ?h = Some (root (merge_tree cmp t ?b), h')"
    "linked h' (merge_tree cmp t ?b)" "\<forall>x. x \<notin> insert b (set_tree t) \<longrightarrow> h' x = ?h x"
    "\<forall>x\<in>set_option (root (merge_tree cmp t ?b)). parent (h' x) = parent (?h x)"
    using merge_linked [of ?h t ?b cmp] assms(2,3) by auto
  have "root (merge_tree cmp t ?b) = Some x \<Longrightarrow> x = b \<or> root t = Some x" for x
    by (cases t) (auto split: if_splits)
  then have "\<forall>x\<in>set_option (root (merge_tree cmp t ?b)). parent (?h x) = None"
    using assms(4) by (auto simp: skew_heap_init_def)
  then show ?thesis
    using h' by (auto simp: skew_heap_insert_def insert_tree_def skew_heap_init_def)
qed

text \<open>
  C34: \<open>skew_heap_remove\<close> takes a node out of anywhere in the heap, through the parent pointer: it
  returns, the remaining nodes represent the functional heap without it, with consistent pointers,
  and no node outside of the heap is written.
\<close>

theorem skew_heap_remove_refines:
  assumes "linked h t" and "distinct_tree t" and "b \<in> set_tree t"
    and "\<forall>x\<in>set_option (root t). parent (h x) = None"
  shows "\<exists>h'. skew_heap_remove cmp (root t) b h = Some (root (remove_tree cmp b t), h') \<and>
    linked h' (remove_tree cmp b t) \<and> set_tree (remove_tree cmp b t) = set_tree t - {b} \<and>
    (\<forall>x\<in>set_option (root (remove_tree cmp b t)). parent (h' x) = None) \<and>
    (\<forall>x. x \<notin> set_tree t \<longrightarrow> h' x = h x)"
proof (cases "root t = Some b")
  case True
  then obtain l r where t: "t = Node l b r"
    by (cases t) auto
  then show ?thesis
    using remove_root [of h l b r cmp "Some b"] assms by auto
next
  case False
  then show ?thesis
    using remove_inner [OF assms(1-3), of cmp "root t"] assms(2,4) by (auto simp: set_remove_tree)
qed

text \<open>Three nodes, node 1 at the root with the child 2; node 3 is new.\<close>

definition small_heap :: heap where
  "small_heap = (\<lambda>x. if x = 1 then \<lparr> parent = None, left = Some 2, right = None \<rparr>
                     else \<lparr> parent = (if x = 2 then Some 1 else None), left = None, right = None \<rparr>)"

definition small_tree :: "nat tree" where
  "small_tree = Node (Node Leaf 2 Leaf) 1 Leaf"

lemma small_heap_linked: "linked small_heap small_tree" "distinct_tree small_tree"
  "\<forall>x\<in>set_option (root small_tree). parent (small_heap x) = None"
  by (simp_all add: small_heap_def small_tree_def)

theorem skew_heap_insert_refines_witness:
  "\<exists>h'. skew_heap_insert (\<lambda>a b. if a < b then -1 else 1) (Some 1) 3 small_heap = Some (Some 1, h') \<and>
     left (h' 1) = Some 3 \<and> right (h' 1) = Some 2"
  using skew_heap_insert_refines [OF small_heap_linked(1,2) _ small_heap_linked(3), of 3 "\<lambda>a b. if a < b then -1 else 1"]
  by (auto simp: small_tree_def insert_tree_def)

theorem skew_heap_remove_refines_witness:
  "\<exists>h'. skew_heap_remove (\<lambda>a b. if a < b then -1 else 1) (Some 1) 2 small_heap = Some (Some 1, h') \<and>
     left (h' 1) = None"
  using skew_heap_remove_refines [OF small_heap_linked(1,2) _ small_heap_linked(3), of 2 "\<lambda>a b. if a < b then -1 else 1"]
  by (auto simp: small_tree_def)

section \<open>The contract of a run pool\<close>

locale run_pool =
  fixes ins :: "nat \<Rightarrow> 'p \<Rightarrow> 'p" and rem :: "nat \<Rightarrow> 'p \<Rightarrow> 'p"
    and members :: "'p \<Rightarrow> nat set" and inv :: "'p \<Rightarrow> bool" and count :: "'p \<Rightarrow> nat"
  assumes ins_ok: "inv t \<Longrightarrow> b \<notin> members t \<Longrightarrow>
      inv (ins b t) \<and> members (ins b t) = insert b (members t) \<and> count (ins b t) = Suc (count t)"
    and rem_ok: "inv t \<Longrightarrow> b \<in> members t \<Longrightarrow>
      inv (rem b t) \<and> members (rem b t) = members t - {b} \<and> Suc (count (rem b t)) = count t"
    and count_card: "inv t \<Longrightarrow> finite (members t) \<and> count t = card (members t)"
begin

lemma rem_ins:
  assumes "inv t" "b \<notin> members t"
  shows "members (rem b (ins b t)) = members t \<and> count (rem b (ins b t)) = count t"
proof -
  note i = ins_ok [OF assms]
  then have "members (rem b (ins b t)) = insert b (members t) - {b}" "Suc (count (rem b (ins b t))) = Suc (count t)"
    using rem_ok [of "ins b t" b] by simp_all
  then show ?thesis
    using assms(2) by simp
qed

lemma count_rem: "inv t \<Longrightarrow> b \<in> members t \<Longrightarrow> count (rem b t) = count t - 1 \<and> 0 < count t"
  using rem_ok [of t b] by (metis diff_Suc_1 zero_less_Suc)

lemma count_pos: "inv t \<Longrightarrow> 0 < count t \<longleftrightarrow> members t \<noteq> {}"
  using count_card [of t] by (simp add: card_gt_0_iff)

end

interpretation stride_pool: run_pool "insert_tree cmp" "remove_tree cmp" set_tree distinct_tree size for cmp
proof
  fix t :: "nat tree" and b :: nat
  assume d: "distinct_tree t"
  show "distinct_tree (insert_tree cmp b t) \<and> set_tree (insert_tree cmp b t) = insert b (set_tree t) \<and>
      size (insert_tree cmp b t) = Suc (size t)" if "b \<notin> set_tree t"
    using d that by (simp add: distinct_insert_tree)
  show "distinct_tree (remove_tree cmp b t) \<and> set_tree (remove_tree cmp b t) = set_tree t - {b} \<and>
      Suc (size (remove_tree cmp b t)) = size t" if "b \<in> set_tree t"
    using d that by (simp add: distinct_remove_tree set_remove_tree size_remove_tree)
  show "finite (set_tree t) \<and> size t = card (set_tree t)"
    using d distinct_card [of "inorder t"] by (simp add: distinct_tree_def)
qed
end
