(* ===== verification/Sched.thy ===== *)
theory Sched
  imports Run_Pool
begin

text \<open>
  The SMP stride scheduler of \<open>src/kern/schedule/sched.c\<close> and \<open>default_sched.c\<close>, with the two halves of a
  context switch from \<open>src/kern/process/proc.c\<close>.

  A process is a number; \<open>procs\<close> holds the scheduling fields of its \<open>proc_struct\<close>.  A run queue is the number
  of its CPU, and \<open>pool\<close> its run pool.  The spin locks are not modelled, and neither are the statistics
  and the interrupts sent to other CPUs.  The CPU that executes an operation is an argument of it.

  An operation that takes a lock several times is the composition of its critical sections
  (\<open>wakeup_mark\<close> and \<open>sched_enqueue_proc\<close>, \<open>schedule_locked\<close> and \<open>proc_run\<close>, \<open>switch_retire\<close> and the
  wake-ups, \<open>timer_take\<close> and the wake-ups).  Two step relations use them: \<open>sched_section\<close> interleaves the
  sections in any order and is what the invariant of the run queues is proved for; \<open>sched_step\<close> has
  uninterrupted operations and is used to exhibit an execution.
\<close>

section \<open>State\<close>

datatype proc_state = PROC_UNINIT | PROC_SLEEPING | PROC_RUNNABLE | PROC_STOPPED | PROC_ZOMBIE

record proc_struct =
  pid :: int
  state :: proc_state
  wait_state :: u32
  rq :: "nat option"
  on_rq :: bool
  cpu :: nat
  cpu_mask :: u32
  on_cpu :: bool
  time_slice :: int
  lab6_stride :: u32
  lab6_priority :: u32
  need_resched :: bool
  runs :: int
  proc_parent :: "nat option"

record run_queue =
  proc_num :: nat
  max_time_slice :: int
  pool :: "nat tree"

record timer_t =
  expires :: nat
  timer_proc :: nat
  timer_id :: nat

record sched =
  procs :: "nat \<Rightarrow> proc_struct"
  sched_rq :: "nat \<Rightarrow> run_queue"
  sched_ncpu :: nat
  timer_list :: "timer_t list"
  current :: "nat \<Rightarrow> nat option"
  idleproc :: "nat \<Rightarrow> nat option"
  switch_pending :: "nat \<Rightarrow> nat option"

abbreviation SMP_MAX_CPUS :: nat where "SMP_MAX_CPUS \<equiv> 8"
abbreviation WT_INTERRUPTED :: u32 where "WT_INTERRUPTED \<equiv> 0x80000000"
abbreviation WT_CHILD :: u32 where "WT_CHILD \<equiv> 0x80000001"
abbreviation WT_TIMER :: u32 where "WT_TIMER \<equiv> 0x80000002"

definition upd_proc :: "nat \<Rightarrow> (proc_struct \<Rightarrow> proc_struct) \<Rightarrow> sched \<Rightarrow> sched" where
  "upd_proc p f s = s\<lparr>procs := (procs s)(p := f (procs s p))\<rparr>"

definition upd_rq :: "nat \<Rightarrow> (run_queue \<Rightarrow> run_queue) \<Rightarrow> sched \<Rightarrow> sched" where
  "upd_rq q f s = s\<lparr>sched_rq := (sched_rq s)(q := f (sched_rq s q))\<rparr>"

section \<open>The stride scheduling class\<close>

abbreviation BIG_STRIDE :: u32 where "BIG_STRIDE \<equiv> 0x7FFFFFFF"

definition proc_stride_comp_f :: "sched \<Rightarrow> nat \<Rightarrow> nat \<Rightarrow> int" where
  "proc_stride_comp_f s p q = (
     let c = sint (lab6_stride (procs s p) - lab6_stride (procs s q)) in
     if c > 0 then 1 else if c = 0 then 0 else -1)"

text \<open>\<open>None\<close> stands for a negative CPU number, which every process is allowed on.\<close>

definition proc_allowed_on_cpu :: "proc_struct \<Rightarrow> nat option \<Rightarrow> bool" where
  "proc_allowed_on_cpu g c = (case c of None \<Rightarrow> True | Some c \<Rightarrow> c < 32 \<and> bit (cpu_mask g) c)"

definition better :: "sched \<Rightarrow> nat option \<Rightarrow> nat option \<Rightarrow> nat option" where
  "better s candidate best = (
     case candidate of
       None \<Rightarrow> best
     | Some c \<Rightarrow>
         (case best of
            None \<Rightarrow> Some c
          | Some b \<Rightarrow> if proc_stride_comp_f s c b < 0 then Some c else Some b))"

fun stride_find_allowed :: "sched \<Rightarrow> nat option \<Rightarrow> nat tree \<Rightarrow> nat option" where
  "stride_find_allowed s c Leaf = None"
| "stride_find_allowed s c (Node l p r) = (
     let best = (if proc_allowed_on_cpu (procs s p) c then Some p else None);
         best = better s (stride_find_allowed s c l) best
     in better s (stride_find_allowed s c r) best)"

definition stride_init :: "nat \<Rightarrow> sched \<Rightarrow> sched" where
  "stride_init q s = upd_rq q (\<lambda>r. r\<lparr>pool := Leaf, proc_num := 0\<rparr>) s"

definition stride_enqueue :: "nat \<Rightarrow> nat \<Rightarrow> sched \<Rightarrow> sched" where
  "stride_enqueue q p s = (
     let r = sched_rq s q;
         s' = upd_rq q (\<lambda>r. r\<lparr>pool := insert_tree (proc_stride_comp_f s) p (pool r),
                              proc_num := proc_num r + 1\<rparr>) s
     in upd_proc p (\<lambda>g. g\<lparr>time_slice := (if time_slice g = 0 \<or> time_slice g > max_time_slice r
                                          then max_time_slice r else time_slice g),
                          rq := Some q\<rparr>) s')"

definition stride_dequeue :: "nat \<Rightarrow> nat \<Rightarrow> sched \<Rightarrow> sched" where
  "stride_dequeue q p s =
     upd_proc p (\<lambda>g. g\<lparr>rq := None, on_rq := False\<rparr>)
       (upd_rq q (\<lambda>r. r\<lparr>pool := remove_tree (proc_stride_comp_f s) p (pool r),
                        proc_num := proc_num r - 1\<rparr>) s)"

definition stride_pick_next_for_cpu :: "nat \<Rightarrow> nat option \<Rightarrow> sched \<Rightarrow> nat option \<times> sched" where
  "stride_pick_next_for_cpu q c s = (
     case stride_find_allowed s c (pool (sched_rq s q)) of
       None \<Rightarrow> (None, s)
     | Some p \<Rightarrow>
         (Some p, upd_proc p (\<lambda>g. g\<lparr>lab6_stride := lab6_stride g +
             (if lab6_priority g = 0 then BIG_STRIDE else BIG_STRIDE div lab6_priority g)\<rparr>) s))"

definition stride_proc_tick :: "nat \<Rightarrow> sched \<Rightarrow> sched" where
  "stride_proc_tick p s =
     upd_proc p (\<lambda>g.
       let g = (if time_slice g > 0 then g\<lparr>time_slice := time_slice g - 1\<rparr> else g)
       in if time_slice g = 0 then g\<lparr>need_resched := True\<rparr> else g) s"

section \<open>Run queues\<close>

definition sched_is_idle :: "nat \<Rightarrow> sched \<Rightarrow> bool" where
  "sched_is_idle p s \<longleftrightarrow> pid (procs s p) = 0"

definition sched_cpu_allowed :: "nat \<Rightarrow> nat \<Rightarrow> sched \<Rightarrow> bool" where
  "sched_cpu_allowed p c s \<longleftrightarrow> c < 32 \<and> bit (cpu_mask (procs s p)) c"

definition sched_class_enqueue_locked :: "nat \<Rightarrow> nat \<Rightarrow> sched \<Rightarrow> sched" where
  "sched_class_enqueue_locked q p s = (
     if \<not> sched_is_idle p s \<and> rq (procs s p) = None \<and> \<not> on_rq (procs s p)
     then upd_proc p (\<lambda>g. g\<lparr>rq := Some q, on_rq := True, cpu := q\<rparr>) (stride_enqueue q p s)
     else s)"

definition sched_class_dequeue_locked :: "nat \<Rightarrow> nat \<Rightarrow> sched \<Rightarrow> sched" where
  "sched_class_dequeue_locked q p s =
     upd_proc p (\<lambda>g. g\<lparr>rq := None, on_rq := False\<rparr>) (stride_dequeue q p s)"

fun choose_loop :: "nat list \<Rightarrow> nat option \<Rightarrow> nat \<Rightarrow> sched \<Rightarrow> nat option" where
  "choose_loop [] best p s = best"
| "choose_loop (i # is) best p s = (
     if \<not> sched_cpu_allowed p i s then choose_loop is best p s
     else
       let load = proc_num (sched_rq s i);
           better_cpu = (case best of
               None \<Rightarrow> True
             | Some b \<Rightarrow> load < proc_num (sched_rq s b) \<or>
                 (load = proc_num (sched_rq s b) \<and> cpu (procs s p) = i))
       in choose_loop is (if better_cpu then Some i else best) p s)"

definition sched_choose_cpu :: "nat \<Rightarrow> sched \<Rightarrow> nat option" where
  "sched_choose_cpu p s = choose_loop [0..<sched_ncpu s] None p s"

definition sched_enqueue_proc_locked :: "nat \<Rightarrow> sched \<Rightarrow> nat option \<times> sched" where
  "sched_enqueue_proc_locked p s = (
     if sched_ncpu s = 0 \<or> sched_is_idle p s then (None, s)
     else case sched_choose_cpu p s of
       None \<Rightarrow> (None, s)
     | Some c \<Rightarrow>
         if \<not> on_cpu (procs s p) \<and> \<not> on_rq (procs s p) \<and> rq (procs s p) = None \<and>
            state (procs s p) = PROC_RUNNABLE
         then (Some c, sched_class_enqueue_locked c p s)
         else (None, s))"

definition sched_enqueue_proc :: "nat \<Rightarrow> sched \<Rightarrow> sched" where
  "sched_enqueue_proc p s = snd (sched_enqueue_proc_locked p s)"

fun steal_loop :: "nat list \<Rightarrow> nat \<Rightarrow> sched \<Rightarrow> nat option \<times> sched" where
  "steal_loop [] c s = (None, s)"
| "steal_loop (i # is) c s = (
     let victim = (c + i) mod sched_ncpu s in
     if proc_num (sched_rq s victim) \<noteq> 0
     then case stride_pick_next_for_cpu victim (Some c) s of
            (Some p, s) \<Rightarrow> (Some p, upd_proc p (\<lambda>g. g\<lparr>cpu := c\<rparr>) (sched_class_dequeue_locked victim p s))
          | (None, s) \<Rightarrow> steal_loop is c s
     else steal_loop is c s)"

definition sched_steal :: "nat \<Rightarrow> sched \<Rightarrow> nat option \<times> sched" where
  "sched_steal c s = steal_loop [1..<sched_ncpu s] c s"

definition sched_init :: "nat \<Rightarrow> sched \<Rightarrow> sched" where
  "sched_init online s = (
     let n = (if online < 1 then 1 else online);
         n = (if n > SMP_MAX_CPUS then SMP_MAX_CPUS else n)
     in fold (\<lambda>i s. stride_init i (upd_rq i (\<lambda>r. r\<lparr>max_time_slice := 5\<rparr>) s)) [0..<n]
          (s\<lparr>sched_ncpu := n, timer_list := []\<rparr>))"

definition sched_cpu_load :: "nat \<Rightarrow> sched \<Rightarrow> nat" where
  "sched_cpu_load c s = (if c < sched_ncpu s then proc_num (sched_rq s c) else 0)"

definition sched_setaffinity_locked :: "nat \<Rightarrow> u32 \<Rightarrow> sched \<Rightarrow> sched" where
  "sched_setaffinity_locked p m s = (
     let s = upd_proc p (\<lambda>g. g\<lparr>cpu_mask := m\<rparr>) s;
         s = (case rq (procs s p) of
                Some q \<Rightarrow>
                  if on_rq (procs s p) \<and> \<not> sched_cpu_allowed p q s
                  then let s = sched_class_dequeue_locked q p s in
                    if state (procs s p) = PROC_RUNNABLE \<and> \<not> on_cpu (procs s p)
                    then snd (sched_enqueue_proc_locked p s) else s
                  else s
              | None \<Rightarrow> s)
     in if on_cpu (procs s p) \<and> \<not> sched_cpu_allowed p (cpu (procs s p)) s
        then upd_proc p (\<lambda>g. g\<lparr>need_resched := True\<rparr>) s else s)"

fun busy_loop :: "nat list \<Rightarrow> (nat \<times> nat) option \<Rightarrow> (nat \<times> nat) option \<Rightarrow> sched \<Rightarrow>
    (nat \<times> nat) option \<times> (nat \<times> nat) option" where
  "busy_loop [] busy target s = (busy, target)"
| "busy_loop (i # is) busy target s = (
     let load = proc_num (sched_rq s i);
         busy = (case busy of None \<Rightarrow> Some (i, load)
                 | Some (b, l) \<Rightarrow> if load > l then Some (i, load) else Some (b, l));
         target = (case target of None \<Rightarrow> Some (i, load)
                   | Some (t, l) \<Rightarrow> if load < l then Some (i, load) else Some (t, l))
     in busy_loop is busy target s)"

definition sched_balance :: "sched \<Rightarrow> sched" where
  "sched_balance s = (
     if sched_ncpu s < 2 then s
     else case busy_loop [0..<sched_ncpu s] None None s of
       (Some (busy, busy_load), Some (target, target_load)) \<Rightarrow>
         if busy \<noteq> target \<and> busy_load > target_load + 1 \<and>
            proc_num (sched_rq s busy) > proc_num (sched_rq s target) + 1
         then (case stride_pick_next_for_cpu busy (Some target) s of
                 (Some p, s) \<Rightarrow>
                   upd_proc p (\<lambda>g. g\<lparr>cpu := target\<rparr>)
                     (sched_class_enqueue_locked target p (sched_class_dequeue_locked busy p s))
               | (None, s) \<Rightarrow> s)
         else s
     | _ \<Rightarrow> s)"

section \<open>Processes\<close>

text \<open>
  \<open>wakeup_proc\<close> takes \<open>proc_lock\<close> twice: \<open>wakeup_mark\<close> is its first critical section, with the local
  variable \<open>enqueue\<close> as result, and \<open>sched_enqueue_proc\<close> the second.
\<close>

definition wakeup_mark :: "nat \<Rightarrow> sched \<Rightarrow> bool \<times> sched" where
  "wakeup_mark p s = (
     let g = procs s p in
     if state g = PROC_STOPPED then (False, s)
     else if state g \<noteq> PROC_RUNNABLE \<and> state g \<noteq> PROC_ZOMBIE
     then (True, upd_proc p (\<lambda>g. g\<lparr>state := PROC_RUNNABLE, wait_state := 0\<rparr>) s)
     else if state g = PROC_RUNNABLE \<and> \<not> on_cpu g \<and> \<not> on_rq g \<and> rq g = None then (True, s)
     else (False, s))"

definition wakeup_proc :: "nat \<Rightarrow> sched \<Rightarrow> sched" where
  "wakeup_proc p s = (
     if sched_is_idle p s then s
     else let (enqueue, s) = wakeup_mark p s in if enqueue then sched_enqueue_proc p s else s)"

definition sched_stop_locked :: "nat \<Rightarrow> sched \<Rightarrow> sched" where
  "sched_stop_locked p s = (
     if sched_is_idle p s then s
     else
       let s = (case rq (procs s p) of
                  Some q \<Rightarrow> if on_rq (procs s p) then sched_class_dequeue_locked q p s else s
                | None \<Rightarrow> s)
       in upd_proc p (\<lambda>g. g\<lparr>state := PROC_STOPPED, wait_state := 0\<rparr>) s)"

text \<open>
  The locked part of \<open>schedule\<close>: the choice of the next process.  The switch itself is \<open>proc_run\<close>, which
  runs after the locks have been released.
\<close>

definition schedule_locked :: "nat \<Rightarrow> sched \<Rightarrow> nat option \<times> sched" where
  "schedule_locked c s = (
     let (next, s) = (case current s c of
           None \<Rightarrow> (None, s)
         | Some prev \<Rightarrow>
             let s = upd_proc prev (\<lambda>g. g\<lparr>need_resched := False\<rparr>) s;
                 g = procs s prev;
                 s = (if state g = PROC_RUNNABLE \<and> \<not> sched_is_idle prev s \<and> sched_cpu_allowed prev c s \<and>
                         rq g = None \<and> \<not> on_rq g
                      then sched_class_enqueue_locked c prev s else s)
             in if proc_num (sched_rq s c) \<noteq> 0
                then case stride_pick_next_for_cpu c (Some c) s of
                       (Some p, s) \<Rightarrow> (Some p, sched_class_dequeue_locked c p s)
                     | (None, s) \<Rightarrow> (None, s)
                else (None, s));
         (next, s) = (case next of None \<Rightarrow> sched_steal c s | Some p \<Rightarrow> (Some p, s));
         next = (case next of None \<Rightarrow> idleproc s c | Some p \<Rightarrow> Some p)
     in case next of
          None \<Rightarrow> (None, s)
        | Some p \<Rightarrow> (Some p, upd_proc p (\<lambda>g. g\<lparr>cpu := c, runs := runs g + 1, on_cpu := True\<rparr>) s))"

definition proc_run :: "nat \<Rightarrow> nat \<Rightarrow> sched \<Rightarrow> sched" where
  "proc_run c p s = (
     if current s c \<noteq> Some p
     then s\<lparr>switch_pending := (switch_pending s)(c := current s c), current := (current s)(c := Some p)\<rparr>
     else s)"

definition schedule :: "nat \<Rightarrow> sched \<Rightarrow> sched" where
  "schedule c s = (
     let prev = current s c; (next, s) = schedule_locked c s
     in case next of Some p \<Rightarrow> if Some p \<noteq> prev then proc_run c p s else s | None \<Rightarrow> s)"

text \<open>
  The first part of \<open>proc_switch_complete\<close>, up to the release of \<open>proc_lock\<close>: the parent to wake, the
  process to queue again, and the new state.
\<close>

definition switch_retire :: "nat \<Rightarrow> sched \<Rightarrow> nat option \<times> nat option \<times> sched" where
  "switch_retire c s = (
     case switch_pending s c of
       None \<Rightarrow> (None, None, s)
     | Some p \<Rightarrow>
         let s = s\<lparr>switch_pending := (switch_pending s)(c := None)\<rparr>;
             s = upd_proc p (\<lambda>g. g\<lparr>on_cpu := False\<rparr>) s;
             g = procs s p;
             requeue = (if state g = PROC_RUNNABLE \<and> rq g = None \<and> \<not> on_rq g then Some p else None);
             parent = (case proc_parent g of
                 Some q \<Rightarrow> if state g = PROC_ZOMBIE \<and> wait_state (procs s q) = WT_CHILD then Some q else None
               | None \<Rightarrow> None)
         in (parent, requeue, s))"

definition proc_switch_complete :: "nat \<Rightarrow> sched \<Rightarrow> sched" where
  "proc_switch_complete c s = (
     let (parent, requeue, s) = switch_retire c s;
         s = (case parent of Some q \<Rightarrow> wakeup_proc q s | None \<Rightarrow> s)
     in case requeue of Some p \<Rightarrow> wakeup_proc p s | None \<Rightarrow> s)"

definition forkret :: "nat \<Rightarrow> sched \<Rightarrow> sched" where
  "forkret c s = (case current s c of Some p \<Rightarrow> upd_proc p (\<lambda>g. g\<lparr>on_cpu := True\<rparr>) s | None \<Rightarrow> s)"

definition sched_tick :: "nat \<Rightarrow> sched \<Rightarrow> sched" where
  "sched_tick c s = (
     if sched_ncpu s = 0 then s
     else case current s c of None \<Rightarrow> s | Some p \<Rightarrow> stride_proc_tick p s)"

section \<open>Timers\<close>

text \<open>The timers are kept in the order of expiry, each with the distance to its predecessor.\<close>

fun insert_timer :: "timer_t \<Rightarrow> timer_t list \<Rightarrow> timer_t list" where
  "insert_timer t [] = [t]"
| "insert_timer t (u # us) = (
     if expires t < expires u then t # u\<lparr>expires := expires u - expires t\<rparr> # us
     else u # insert_timer (t\<lparr>expires := expires t - expires u\<rparr>) us)"

definition add_timer :: "timer_t \<Rightarrow> sched \<Rightarrow> unit outcome \<times> sched" where
  "add_timer t s = (
     if \<not> expires t > 0 \<or> timer_id t \<in> timer_id ` set (timer_list s) then (Fault, s)
     else (Ok (), s\<lparr>timer_list := insert_timer t (timer_list s)\<rparr>))"

fun remove_timer :: "nat \<Rightarrow> timer_t list \<Rightarrow> timer_t list" where
  "remove_timer i [] = []"
| "remove_timer i (t # ts) = (
     if timer_id t = i
     then if expires t \<noteq> 0
          then (case ts of [] \<Rightarrow> [] | u # us \<Rightarrow> u\<lparr>expires := expires u + expires t\<rparr> # us)
          else ts
     else t # remove_timer i ts)"

definition del_timer :: "nat \<Rightarrow> sched \<Rightarrow> sched" where
  "del_timer i s = s\<lparr>timer_list := remove_timer i (timer_list s)\<rparr>"

text \<open>
  The critical section of an iteration of \<open>run_timer_list\<close>: the process of an expired timer.
\<close>

definition timer_take :: "sched \<Rightarrow> nat option \<times> sched" where
  "timer_take s = (
     case timer_list s of
       [] \<Rightarrow> (None, s)
     | t # ts \<Rightarrow>
         let e = (if expires t \<noteq> 0 then expires t - 1 else 0) in
         if e = 0 then (Some (timer_proc t), s\<lparr>timer_list := ts\<rparr>)
         else (None, s\<lparr>timer_list := t\<lparr>expires := e\<rparr> # ts\<rparr>))"

text \<open>
  The loop of \<open>run_timer_list\<close> without interruption; the first argument is the timer list.  An
  iteration is \<open>timer_take\<close>, the assertion and the wake-up (\<open>run_timers_sections\<close> below).
\<close>

fun run_timers :: "timer_t list \<Rightarrow> sched \<Rightarrow> unit outcome \<times> sched" where
  "run_timers [] s = (Ok (), s\<lparr>timer_list := []\<rparr>)"
| "run_timers (t # ts) s = (
     let e = (if expires t \<noteq> 0 then expires t - 1 else 0); w = wait_state (procs s (timer_proc t)) in
     if e = 0
     then if w \<noteq> 0 \<and> w AND WT_INTERRUPTED = 0 then (Fault, s\<lparr>timer_list := ts\<rparr>)
          else run_timers ts (wakeup_proc (timer_proc t) (s\<lparr>timer_list := ts\<rparr>))
     else (Ok (), s\<lparr>timer_list := t\<lparr>expires := e\<rparr> # ts\<rparr>))"

definition run_timer_list :: "nat \<Rightarrow> sched \<Rightarrow> unit outcome \<times> sched" where
  "run_timer_list c s = (
     sbind (run_timers (timer_list s) s) (\<lambda>_ s. (Ok (), sched_tick c s)))"

section \<open>Well-formed run queues\<close>

text \<open>
  Every pool is duplicate free and counted by \<open>proc_num\<close>; the \<open>rq\<close> pointer of a process and its
  membership in a pool agree, so no process is in two pools; no idle process is queued.
\<close>

definition queue_ok :: "sched \<Rightarrow> bool" where
  "queue_ok s \<longleftrightarrow>
     (\<forall>q < sched_ncpu s. distinct_tree (pool (sched_rq s q)) \<and>
        proc_num (sched_rq s q) = size (pool (sched_rq s q))) \<and>
     (\<forall>p q. rq (procs s p) = Some q \<longleftrightarrow> q < sched_ncpu s \<and> p \<in> set_tree (pool (sched_rq s q))) \<and>
     (\<forall>p. on_rq (procs s p) \<longleftrightarrow> rq (procs s p) \<noteq> None) \<and>
     (\<forall>p. rq (procs s p) \<noteq> None \<longrightarrow> pid (procs s p) \<noteq> 0)"

text \<open>Moreover all queued processes are runnable.\<close>

definition queue_wf :: "sched \<Rightarrow> bool" where
  "queue_wf s \<longleftrightarrow> queue_ok s \<and> (\<forall>p. rq (procs s p) \<noteq> None \<longrightarrow> state (procs s p) = PROC_RUNNABLE)"

lemma queue_okD:
  assumes "queue_ok s"
  shows "q < sched_ncpu s \<Longrightarrow> distinct_tree (pool (sched_rq s q))"
    "q < sched_ncpu s \<Longrightarrow> proc_num (sched_rq s q) = size (pool (sched_rq s q))"
    "rq (procs s p) = Some q \<longleftrightarrow> q < sched_ncpu s \<and> p \<in> set_tree (pool (sched_rq s q))"
    "on_rq (procs s p) \<longleftrightarrow> rq (procs s p) \<noteq> None"
    "rq (procs s p) \<noteq> None \<Longrightarrow> pid (procs s p) \<noteq> 0"
  using assms unfolding queue_ok_def by auto

lemma queue_wfD:
  assumes "queue_wf s"
  shows "queue_ok s" "on_rq (procs s p) \<longleftrightarrow> rq (procs s p) \<noteq> None"
    "rq (procs s p) \<noteq> None \<Longrightarrow> pid (procs s p) \<noteq> 0 \<and> state (procs s p) = PROC_RUNNABLE"
  using assms queue_okD(4,5) [of s p] by (auto simp: queue_wf_def)

lemma upd_proc_simps [simp]:
  "procs (upd_proc p f s) = (procs s)(p := f (procs s p))" "sched_rq (upd_proc p f s) = sched_rq s"
  "sched_ncpu (upd_proc p f s) = sched_ncpu s" "timer_list (upd_proc p f s) = timer_list s"
  "current (upd_proc p f s) = current s" "idleproc (upd_proc p f s) = idleproc s"
  "switch_pending (upd_proc p f s) = switch_pending s"
  by (simp_all add: upd_proc_def)

lemma upd_rq_simps [simp]:
  "procs (upd_rq q f s) = procs s" "sched_rq (upd_rq q f s) = (sched_rq s)(q := f (sched_rq s q))"
  "sched_ncpu (upd_rq q f s) = sched_ncpu s" "timer_list (upd_rq q f s) = timer_list s"
  "current (upd_rq q f s) = current s" "idleproc (upd_rq q f s) = idleproc s"
  "switch_pending (upd_rq q f s) = switch_pending s"
  by (simp_all add: upd_rq_def)

text \<open>Two states with the same queues and the same queue-related fields.\<close>

lemma queue_ok_cong:
  assumes "sched_rq t = sched_rq s" "sched_ncpu t = sched_ncpu s"
    "\<forall>p. rq (procs t p) = rq (procs s p) \<and> on_rq (procs t p) = on_rq (procs s p) \<and> pid (procs t p) = pid (procs s p)"
  shows "queue_ok s \<Longrightarrow> queue_ok t"
  using assms unfolding queue_ok_def by simp

lemma queue_wf_cong:
  assumes "sched_rq t = sched_rq s" "sched_ncpu t = sched_ncpu s"
    "\<forall>p. rq (procs t p) = rq (procs s p) \<and> on_rq (procs t p) = on_rq (procs s p) \<and>
       pid (procs t p) = pid (procs s p) \<and>
       (state (procs t p) = state (procs s p) \<or> rq (procs s p) = None)"
  shows "queue_wf s \<Longrightarrow> queue_wf t"
proof -
  assume wf: "queue_wf s"
  have "queue_ok t"
    using assms wf by (intro queue_ok_cong [of t s]) (auto simp: queue_wf_def)
  moreover have "state (procs t p) = PROC_RUNNABLE" if "rq (procs t p) \<noteq> None" for p
    using wf assms(3) that unfolding queue_wf_def by metis
  ultimately show ?thesis
    by (simp add: queue_wf_def)
qed

lemma queue_ok_upd:
  assumes "queue_ok s" "\<forall>g. rq (f g) = rq g \<and> on_rq (f g) = on_rq g \<and> pid (f g) = pid g"
  shows "queue_ok (upd_proc p f s)"
  using assms by (intro queue_ok_cong [OF _ _ _ assms(1)]) auto

lemma enqueue_wf:
  assumes wf: "queue_ok s" and q: "q < sched_ncpu s"
  shows "queue_ok (sched_class_enqueue_locked q p s)"
proof (cases "\<not> sched_is_idle p s \<and> rq (procs s p) = None \<and> \<not> on_rq (procs s p)")
  case True
  let ?t = "sched_class_enqueue_locked q p s"
  have out: "p \<notin> set_tree (pool (sched_rq s r))" if "r < sched_ncpu s" for r
    using queue_okD(3) [OF wf, of p r] True that by auto
  note ins = stride_pool.ins_ok [OF queue_okD(1) [OF wf q] out [OF q], of "proc_stride_comp_f s"]
  have t: "rq (procs ?t p') = (if p' = p then Some q else rq (procs s p'))"
    "on_rq (procs ?t p') = (if p' = p then True else on_rq (procs s p'))"
    "pid (procs ?t p') = pid (procs s p')" "state (procs ?t p') = state (procs s p')"
    "pool (sched_rq ?t r) = (if r = q then insert_tree (proc_stride_comp_f s) p (pool (sched_rq s q)) else pool (sched_rq s r))"
    "proc_num (sched_rq ?t r) = (if r = q then Suc (proc_num (sched_rq s q)) else proc_num (sched_rq s r))"
    "sched_ncpu ?t = sched_ncpu s" for p' r
    using True by (simp_all add: sched_class_enqueue_locked_def stride_enqueue_def Let_def)
  show ?thesis
    unfolding queue_ok_def t using wf q True ins out
    by (auto simp: queue_okD sched_is_idle_def)
qed (use wf in \<open>auto simp: sched_class_enqueue_locked_def\<close>)

lemma dequeue_fields:
  "rq (procs (sched_class_dequeue_locked q p s) p') = (if p' = p then None else rq (procs s p'))"
  "on_rq (procs (sched_class_dequeue_locked q p s) p') = (if p' = p then False else on_rq (procs s p'))"
  "pid (procs (sched_class_dequeue_locked q p s) p') = pid (procs s p')"
  "state (procs (sched_class_dequeue_locked q p s) p') = state (procs s p')"
  "on_cpu (procs (sched_class_dequeue_locked q p s) p') = on_cpu (procs s p')"
  "cpu_mask (procs (sched_class_dequeue_locked q p s) p') = cpu_mask (procs s p')"
  "pool (sched_rq (sched_class_dequeue_locked q p s) r) =
     (if r = q then remove_tree (proc_stride_comp_f s) p (pool (sched_rq s q)) else pool (sched_rq s r))"
  "proc_num (sched_rq (sched_class_dequeue_locked q p s) r) =
     (if r = q then proc_num (sched_rq s q) - 1 else proc_num (sched_rq s r))"
  "sched_ncpu (sched_class_dequeue_locked q p s) = sched_ncpu s"
  by (simp_all add: sched_class_dequeue_locked_def stride_dequeue_def)

lemma dequeue_wf:
  assumes wf: "queue_ok s" and p: "rq (procs s p) = Some q"
  shows "queue_ok (sched_class_dequeue_locked q p s)"
proof -
  have q: "q < sched_ncpu s" "p \<in> set_tree (pool (sched_rq s q))"
    using queue_okD(3) [OF wf, of p q] p by auto
  note rem = stride_pool.rem_ok [OF queue_okD(1) [OF wf q(1)] q(2), of "proc_stride_comp_f s"]
  have num: "proc_num (sched_rq s q) - 1 = size (remove_tree (proc_stride_comp_f s) p (pool (sched_rq s q)))"
    using rem queue_okD(2) [OF wf q(1)] by linarith
  have other: "p \<notin> set_tree (pool (sched_rq s r))" if "r < sched_ncpu s" "r \<noteq> q" for r
    using queue_okD(3) [OF wf, of p r] p that by auto
  show ?thesis
    unfolding queue_ok_def dequeue_fields using wf rem num other
    by (auto simp: queue_okD)
qed

lemma find_allowed:
  "stride_find_allowed s c t = Some p \<Longrightarrow> p \<in> set_tree t \<and> proc_allowed_on_cpu (procs s p) c"
  "stride_find_allowed s c t = None \<longleftrightarrow> (\<forall>p\<in>set_tree t. \<not> proc_allowed_on_cpu (procs s p) c)"
proof -
  show "stride_find_allowed s c t = Some p \<Longrightarrow> p \<in> set_tree t \<and> proc_allowed_on_cpu (procs s p) c"
  proof (induction t arbitrary: p)
    case (Node l a r)
    then show ?case
      by (auto simp: better_def Let_def split: option.splits if_splits)
  qed simp
  show "stride_find_allowed s c t = None \<longleftrightarrow> (\<forall>p\<in>set_tree t. \<not> proc_allowed_on_cpu (procs s p) c)"
    by (induction t) (auto simp: better_def Let_def split: option.splits if_splits)
qed

text \<open>Picking a process from a queue and unlinking it, the body shared by \<open>schedule\<close>, \<open>sched_steal\<close> and \<open>sched_balance\<close>.\<close>

lemma pick_wf:
  assumes wf: "queue_ok s" and q: "q < sched_ncpu s" and pick: "stride_pick_next_for_cpu q c s = (r, t)"
  shows "queue_ok t" "sched_ncpu t = sched_ncpu s"
    "r = Some p \<Longrightarrow> queue_ok (sched_class_dequeue_locked q p t) \<and>
       pid (procs t p) \<noteq> 0 \<and> rq (procs t p) = Some q \<and> proc_allowed_on_cpu (procs t p) c"
proof -
  show 1: "queue_ok t" and 2: "sched_ncpu t = sched_ncpu s"
    using pick wf by (auto simp: stride_pick_next_for_cpu_def split: option.splits intro!: queue_ok_upd)
  assume r: "r = Some p"
  then have "stride_find_allowed s c (pool (sched_rq s q)) = Some p"
    using pick by (auto simp: stride_pick_next_for_cpu_def split: option.splits)
  then have p: "p \<in> set_tree (pool (sched_rq s q))" "proc_allowed_on_cpu (procs s p) c"
    using find_allowed(1) by blast+
  then have "rq (procs s p) = Some q"
    using queue_okD(3) [OF wf, of p q] q by simp
  moreover have same: "rq (procs t p) = rq (procs s p)" "state (procs t p) = state (procs s p)"
      "pid (procs t p) = pid (procs s p)" "cpu_mask (procs t p) = cpu_mask (procs s p)"
    using pick r by (auto simp: stride_pick_next_for_cpu_def split: option.splits)
  ultimately show "queue_ok (sched_class_dequeue_locked q p t) \<and>
       pid (procs t p) \<noteq> 0 \<and> rq (procs t p) = Some q \<and> proc_allowed_on_cpu (procs t p) c"
    using dequeue_wf [OF 1, of p q] queue_okD(5) [OF wf, of p] p(2)
    by (simp add: proc_allowed_on_cpu_def split: option.splits)
qed

lemma choose_in: "choose_loop is best p s = Some i \<Longrightarrow> best = Some i \<or> i \<in> set is \<and> sched_cpu_allowed p i s"
  by (induction "is" arbitrary: best) (auto simp: Let_def split: if_splits option.splits)

lemma choose_cpu: "sched_choose_cpu p s = Some i \<Longrightarrow> i < sched_ncpu s \<and> sched_cpu_allowed p i s"
  unfolding sched_choose_cpu_def by (drule choose_in) auto

lemma enqueue_proc_locked_wf:
  assumes "queue_ok s"
  shows "queue_ok (snd (sched_enqueue_proc_locked p s))"
  using assms choose_cpu [of p s]
  by (auto simp: sched_enqueue_proc_locked_def split: option.split intro!: enqueue_wf)

lemma enqueue_proc_wf: "queue_ok s \<Longrightarrow> queue_ok (sched_enqueue_proc p s)"
  by (simp add: sched_enqueue_proc_def enqueue_proc_locked_wf)

lemma wakeup_proc_eq:
  "wakeup_proc p s = (
     let g = procs s p in
     if sched_is_idle p s then s
     else if state g = PROC_STOPPED then s
     else if state g \<noteq> PROC_RUNNABLE \<and> state g \<noteq> PROC_ZOMBIE
     then sched_enqueue_proc p (upd_proc p (\<lambda>g. g\<lparr>state := PROC_RUNNABLE, wait_state := 0\<rparr>) s)
     else if state g = PROC_RUNNABLE \<and> \<not> on_cpu g \<and> \<not> on_rq g \<and> rq g = None
     then sched_enqueue_proc p s
     else s)"
  by (simp add: wakeup_proc_def wakeup_mark_def Let_def)

lemma mark_wf: "queue_ok s \<Longrightarrow> queue_ok (snd (wakeup_mark p s))"
  by (auto simp: wakeup_mark_def Let_def intro!: queue_ok_upd)

lemma wakeup_wf: "queue_ok s \<Longrightarrow> queue_ok (wakeup_proc p s)"
  by (auto simp: wakeup_proc_eq Let_def intro!: enqueue_proc_wf queue_ok_upd)

lemma ncpu_enqueue [simp]:
  "sched_ncpu (sched_class_enqueue_locked q p s) = sched_ncpu s"
  "sched_ncpu (snd (sched_enqueue_proc_locked p s)) = sched_ncpu s"
  "sched_ncpu (wakeup_proc p s) = sched_ncpu s"
  by (auto simp: sched_class_enqueue_locked_def stride_enqueue_def Let_def sched_enqueue_proc_locked_def
      sched_enqueue_proc_def wakeup_proc_eq split: option.split)

lemma steal_wf:
  assumes "queue_ok s" "0 < sched_ncpu s"
  shows "queue_ok (snd (steal_loop is c s)) \<and> sched_ncpu (snd (steal_loop is c s)) = sched_ncpu s"
  using assms
proof (induction "is" arbitrary: s)
  case (Cons i "is")
  let ?v = "(c + i) mod sched_ncpu s"
  have v: "?v < sched_ncpu s"
    using Cons.prems by simp
  obtain r t where pick: "stride_pick_next_for_cpu ?v (Some c) s = (r, t)"
    by fastforce
  note pw = pick_wf [OF Cons.prems(1) v pick]
  show ?case
  proof (cases r)
    case None
    then show ?thesis
      using Cons.IH [of t] Cons.IH [of s] Cons.prems pw(1,2) pick by (simp add: Let_def)
  next
    case (Some p)
    then show ?thesis
      using Cons.IH [of s] Cons.prems pw(1,2) pw(3) [of p] pick
      by (auto simp: Let_def dequeue_fields intro!: queue_ok_upd)
  qed
qed simp

lemma sched_steal_wf:
  assumes "queue_ok s" "0 < sched_ncpu s"
  shows "queue_ok (snd (sched_steal c s))" "sched_ncpu (snd (sched_steal c s)) = sched_ncpu s"
  using steal_wf [OF assms] by (simp_all add: sched_steal_def)

lemma busy_in:
  "busy_loop is busy target s = (b, t) \<Longrightarrow>
     pred_option (\<lambda>(q, l). l = proc_num (sched_rq s q) \<and> P q) busy \<Longrightarrow>
     pred_option (\<lambda>(q, l). l = proc_num (sched_rq s q) \<and> P q) target \<Longrightarrow>
     \<forall>q\<in>set is. P q \<Longrightarrow>
     pred_option (\<lambda>(q, l). l = proc_num (sched_rq s q) \<and> P q) b \<and>
     pred_option (\<lambda>(q, l). l = proc_num (sched_rq s q) \<and> P q) t"
proof (induction "is" arbitrary: busy target)
  case (Cons i "is")
  show ?case
    by (rule Cons.IH [OF Cons.prems(1) [unfolded busy_loop.simps Let_def]])
      (use Cons.prems(2-4) in \<open>auto split: option.splits\<close>)
qed simp

lemma balance_wf:
  assumes wf: "queue_ok s"
  shows "queue_ok (sched_balance s)" "sched_ncpu (sched_balance s) = sched_ncpu s"
proof -
  have "queue_ok (sched_balance s) \<and> sched_ncpu (sched_balance s) = sched_ncpu s"
  proof (cases "sched_ncpu s < 2")
    case False
    obtain b t where l: "busy_loop [0..<sched_ncpu s] None None s = (b, t)"
      by fastforce
    note bt = busy_in [OF l, of "\<lambda>q. q < sched_ncpu s"]
    show ?thesis
    proof (cases b; cases t)
      fix x y assume [simp]: "b = Some x" "t = Some y"
      obtain q n q' n' where [simp]: "x = (q, n)" "y = (q', n')"
        by fastforce
      obtain r u where pick: "stride_pick_next_for_cpu q (Some q') s = (r, u)"
        by fastforce
      have q: "q < sched_ncpu s" "q' < sched_ncpu s"
        using bt by auto
      note pw = pick_wf [OF wf q(1) pick]
      have "queue_ok (sched_class_enqueue_locked q' p (sched_class_dequeue_locked q p u))" if "r = Some p" for p
        using pw(1,2) pw(3) [OF that] q by (intro enqueue_wf) (simp_all add: dequeue_fields)
      then show ?thesis
        using wf pw(1,2) False l pick
        by (auto simp: sched_balance_def dequeue_fields split: option.split intro!: queue_ok_upd)
    qed (use l wf in \<open>auto simp: sched_balance_def\<close>)
  qed (use wf in \<open>simp add: sched_balance_def\<close>)
  then show "queue_ok (sched_balance s)" "sched_ncpu (sched_balance s) = sched_ncpu s"
    by simp_all
qed

lemma affinity_wf:
  assumes wf: "queue_ok s"
  shows "queue_ok (sched_setaffinity_locked p m s)"
proof -
  let ?s = "upd_proc p (\<lambda>g. g\<lparr>cpu_mask := m\<rparr>) s"
  have s: "queue_ok ?s"
    using wf by (intro queue_ok_upd) auto
  have "queue_ok (sched_class_dequeue_locked q p ?s)" if "rq (procs s p) = Some q" for q
    using that by (intro dequeue_wf [OF s]) simp
  then show ?thesis
    using s unfolding sched_setaffinity_locked_def Let_def
    by (auto split: option.split intro!: queue_ok_upd enqueue_proc_locked_wf)
qed

lemma stop_wf:
  assumes wf: "queue_ok s"
  shows "queue_ok (sched_stop_locked p s)"
  using wf dequeue_wf [OF wf, of p] queue_okD(4) [OF wf, of p]
  by (auto simp: sched_stop_locked_def Let_def dequeue_fields split: option.split intro!: queue_ok_upd)

lemma schedule_pick_wf:
  assumes wf: "queue_ok s" and c: "c < sched_ncpu s"
    and r: "(case stride_pick_next_for_cpu c (Some c) s of
               (Some p, s) \<Rightarrow> (Some p, sched_class_dequeue_locked c p s) | (None, s) \<Rightarrow> (None, s)) = (r, t)"
  shows "queue_ok t \<and> sched_ncpu t = sched_ncpu s"
proof -
  obtain x u where pick: "stride_pick_next_for_cpu c (Some c) s = (x, u)"
    by fastforce
  show ?thesis
    using pick_wf [OF wf c pick] r pick by (cases x) (auto simp: dequeue_fields)
qed

lemma schedule_locked_wf:
  assumes wf: "queue_ok s" and c: "c < sched_ncpu s"
  shows "queue_ok (snd (schedule_locked c s)) \<and> sched_ncpu (snd (schedule_locked c s)) = sched_ncpu s"
proof -
  let ?pick = "\<lambda>s. case stride_pick_next_for_cpu c (Some c) s of
       (Some p, s) \<Rightarrow> (Some p, sched_class_dequeue_locked c p s) | (None, s) \<Rightarrow> (None, s)"
  let ?next = "\<lambda>r (s::sched). let (next, s) = (case r of None \<Rightarrow> sched_steal c s | Some p \<Rightarrow> (Some p, s));
         next = (case next of None \<Rightarrow> idleproc s c | Some p \<Rightarrow> Some p)
     in case next of
          None \<Rightarrow> (None, s)
        | Some p \<Rightarrow> (Some p, upd_proc p (\<lambda>g. g\<lparr>cpu := c, runs := runs g + 1, on_cpu := True\<rparr>) s)"
  let ?good = "\<lambda>t. queue_ok t \<and> sched_ncpu t = sched_ncpu s"
  have last: "?good (snd (?next r t))" if "?good t" for r t
    using that sched_steal_wf [of t c] c
    by (auto simp: Let_def split: option.split prod.split intro!: queue_ok_upd)
  show ?thesis
  proof (cases "current s c")
    case None
    then show ?thesis
      using last [of s None] wf by (simp add: schedule_locked_def)
  next
    case (Some p)
    define u where "u = upd_proc p (\<lambda>g. g\<lparr>need_resched := False\<rparr>) s"
    define v where "v = (if state (procs u p) = PROC_RUNNABLE \<and> \<not> sched_is_idle p u \<and> sched_cpu_allowed p c u \<and>
         rq (procs u p) = None \<and> \<not> on_rq (procs u p) then sched_class_enqueue_locked c p u else u)"
    define w where "w = (if proc_num (sched_rq v c) \<noteq> 0 then ?pick v else (None, v))"
    have "?good u"
      unfolding u_def using wf by (auto intro!: queue_ok_upd)
    then have "?good v"
      unfolding v_def using c by (auto intro!: enqueue_wf)
    then have "?good (snd w)"
      unfolding w_def using schedule_pick_wf [of v c "fst (?pick v)" "snd (?pick v)"] c by simp
    moreover have "schedule_locked c s = ?next (fst w) (snd w)"
      unfolding schedule_locked_def Some option.case Let_def u_def [symmetric] v_def [symmetric]
        w_def [symmetric, unfolded Let_def] by (simp add: case_prod_unfold)
    ultimately show ?thesis
      using last by simp
  qed
qed

lemma schedule_wf: "queue_ok s \<Longrightarrow> c < sched_ncpu s \<Longrightarrow> queue_ok (schedule c s)"
  using schedule_locked_wf [of s c]
  by (auto simp: schedule_def Let_def proc_run_def case_prod_unfold split: option.split
      intro: queue_ok_cong [of _ "snd (schedule_locked c s)"])

lemma run_wf: "queue_ok s \<Longrightarrow> queue_ok (proc_run c p s)"
  by (auto simp: proc_run_def intro: queue_ok_cong [of _ s])

lemma retire_wf:
  assumes "queue_ok s"
  shows "queue_ok (snd (snd (switch_retire c s)))"
proof -
  have "queue_ok (upd_proc p (\<lambda>g. g\<lparr>on_cpu := False\<rparr>) (s\<lparr>switch_pending := f\<rparr>))" for p f
    by (rule queue_ok_upd [OF queue_ok_cong [OF _ _ _ assms]]) auto
  then show ?thesis
    using assms by (auto simp: switch_retire_def Let_def split: option.split)
qed

lemma tick_wf: "queue_ok s \<Longrightarrow> queue_ok (sched_tick c s)"
  by (auto simp: sched_tick_def stride_proc_tick_def Let_def split: option.split if_splits intro!: queue_ok_upd)

lemma queue_ok_timer [simp]: "queue_ok (s\<lparr>timer_list := ts\<rparr>) = queue_ok s"
  by (simp add: queue_ok_def)

lemma take_wf: "queue_ok s \<Longrightarrow> queue_ok (snd (timer_take s))"
  by (auto simp: timer_take_def Let_def split: list.split)

lemma wakeup_timer_list [simp]: "timer_list (wakeup_proc p s) = timer_list s"
  by (auto simp: wakeup_proc_eq Let_def sched_enqueue_proc_def sched_enqueue_proc_locked_def
      sched_class_enqueue_locked_def stride_enqueue_def split: option.split)

text \<open>The loop of \<open>run_timer_list\<close> as its code has it.\<close>

lemma run_timers_sections:
  "run_timers (timer_list s) s = (
     case timer_take s of
       (None, s) \<Rightarrow> (Ok (), s)
     | (Some p, s) \<Rightarrow>
         if wait_state (procs s p) \<noteq> 0 \<and> wait_state (procs s p) AND WT_INTERRUPTED = 0 then (Fault, s)
         else let s = wakeup_proc p s in run_timers (timer_list s) s)"
  by (cases "timer_list s") (simp_all add: timer_take_def Let_def)

section \<open>Reachable states\<close>

text \<open>
  The critical sections of the kernel on the fields of the scheduler, in any order and by any CPU: a
  section may follow any other, so that every interleaving of the operations on several CPUs is a
  sequence of such steps.  Other code assigns the state of a process without regard to the queues
  (\<open>do_exit\<close>, \<open>do_wait\<close>, \<open>do_sleep\<close>, wait queues and futexes for the current process, signals for
  any other).  A process record comes from the allocator: \<open>alloc_proc\<close> is assumed not to get the
  memory of a record that is still queued.
\<close>

inductive sched_section :: "sched \<Rightarrow> sched \<Rightarrow> bool" where
  mark: "sched_section s (snd (wakeup_mark p s))"
| enqueue: "sched_section s (sched_enqueue_proc p s)"
| choose: "c < sched_ncpu s \<Longrightarrow> sched_section s (snd (schedule_locked c s))"
| run: "sched_section s (proc_run c p s)"
| retire: "sched_section s (snd (snd (switch_retire c s)))"
| forkret: "sched_section s (forkret c s)"
| timer: "sched_section s (snd (timer_take s))"
| tick: "sched_section s (sched_tick c s)"
| balance: "sched_section s (sched_balance s)"
| affinity: "sched_section s (sched_setaffinity_locked p m s)"
| stop: "sched_section s (sched_stop_locked p s)"
| set_state: "sched_section s (upd_proc p (\<lambda>g. g\<lparr>state := st, wait_state := w\<rparr>) s)"
| alloc: "rq (procs s p) = None \<Longrightarrow> rq g = None \<Longrightarrow> \<not> on_rq g \<Longrightarrow> sched_section s (upd_proc p (\<lambda>_. g) s)"
| add: "add_timer tm s = (Ok (), t) \<Longrightarrow> sched_section s t"
| del: "sched_section s (del_timer i s)"

lemma new_proc_wf:
  assumes wf: "queue_ok s" and p: "rq (procs s p) = None" and g: "rq g = None" "\<not> on_rq g"
  shows "queue_ok (upd_proc p (\<lambda>_. g) s)"
proof -
  have "p \<notin> set_tree (pool (sched_rq s q))" if "q < sched_ncpu s" for q
    using queue_okD(3) [OF wf, of p q] p that by auto
  then show ?thesis
    using wf g unfolding queue_ok_def by (auto simp: queue_okD)
qed

lemma section_wf: "sched_section s t \<Longrightarrow> queue_ok s \<Longrightarrow> queue_ok t"
proof (induction rule: sched_section.induct)
  case (add tm s t)
  then show ?case by (auto simp: add_timer_def split: if_splits)
next
  case (choose c s)
  then show ?case using schedule_locked_wf by blast
next
  case (alloc s p g)
  then show ?case by (intro new_proc_wf)
qed (auto simp: del_timer_def forkret_def split: option.split intro: mark_wf enqueue_proc_wf run_wf retire_wf
    take_wf tick_wf balance_wf affinity_wf stop_wf intro!: queue_ok_upd)

lemma init_fold:
  "let t = fold (\<lambda>i s. stride_init i (upd_rq i (\<lambda>r. r\<lparr>max_time_slice := 5\<rparr>) s)) is s in
     procs t = procs s \<and> sched_ncpu t = sched_ncpu s \<and>
     (\<forall>q. sched_rq t q = (if q \<in> set is then \<lparr>proc_num = 0, max_time_slice = 5, pool = Leaf\<rparr> else sched_rq s q))"
  by (induction "is" arbitrary: s) (auto simp: stride_init_def Let_def)

lemma init_wf:
  assumes "\<forall>p. rq (procs s p) = None \<and> \<not> on_rq (procs s p)"
  shows "queue_ok (sched_init online s)"
proof -
  let ?f = "\<lambda>i s. stride_init i (upd_rq i (\<lambda>r. r\<lparr>max_time_slice := 5\<rparr>) s)"
  obtain n where n: "sched_init online s = fold ?f [0..<n] (s\<lparr>sched_ncpu := n, timer_list := []\<rparr>)"
    unfolding sched_init_def Let_def by blast
  have "procs (sched_init online s) = procs s" "sched_ncpu (sched_init online s) = n"
    "\<forall>q<n. sched_rq (sched_init online s) q = \<lparr>proc_num = 0, max_time_slice = 5, pool = Leaf\<rparr>"
    using init_fold [of "[0..<n]" "s\<lparr>sched_ncpu := n, timer_list := []\<rparr>"] unfolding n Let_def
    by simp_all
  then show ?thesis
    using assms unfolding queue_ok_def by simp
qed

lemma sections_wf: "sched_section\<^sup>*\<^sup>* s t \<Longrightarrow> queue_ok s \<Longrightarrow> queue_ok t"
  by (induction rule: rtranclp_induct) (auto intro: section_wf)

text \<open>
  C9: Starting from \<open>sched_init\<close> on any number of CPUs, whatever critical sections of wake-ups, schedules,
  context switches, timer interrupts, balancing runs, affinity changes and stops follow in whatever
  interleaving, with state changes of any process and new processes at any time, the run queues stay
  consistent: each pool is duplicate free and counted by \<open>proc_num\<close>, a process is in the pool its
  \<open>rq\<close> points to and in no other, \<open>on_rq\<close> agrees, and no idle process is queued.  New process records
  are assumed to be outside the queues when they are allocated.
\<close>

theorem run_queues_consistent:
  assumes "\<forall>p. rq (procs s p) = None \<and> \<not> on_rq (procs s p)" and "sched_section\<^sup>*\<^sup>* (sched_init online s) t"
  shows "queue_ok t"
  using sections_wf [OF assms(2) init_wf [OF assms(1)]] .

section \<open>Placement\<close>

lemma choose_least:
  "pred_option (\<lambda>b. \<forall>i\<in>A. sched_cpu_allowed p i s \<longrightarrow> proc_num (sched_rq s b) \<le> proc_num (sched_rq s i)) best \<Longrightarrow>
   (best = None \<longrightarrow> (\<forall>i\<in>A. \<not> sched_cpu_allowed p i s)) \<Longrightarrow>
   (case choose_loop is best p s of
      None \<Rightarrow> \<forall>i\<in>A \<union> set is. \<not> sched_cpu_allowed p i s
    | Some b \<Rightarrow> \<forall>i\<in>A \<union> set is. sched_cpu_allowed p i s \<longrightarrow> proc_num (sched_rq s b) \<le> proc_num (sched_rq s i))"
proof (induction "is" arbitrary: A best)
  case Nil
  then show ?case by (cases best) auto
next
  case (Cons i "is")
  have A: "A \<union> set (i # is) = insert i A \<union> set is"
    by auto
  show ?case
    unfolding A choose_loop.simps Let_def
    using Cons.prems
    by (split if_split, intro conjI impI; intro Cons.IH)
      (auto split: option.splits if_splits, meson less_imp_le order_trans)
qed

lemma choose_cpu_least:
  "(case sched_choose_cpu p s of
      None \<Rightarrow> \<forall>i < sched_ncpu s. \<not> sched_cpu_allowed p i s
    | Some b \<Rightarrow> b < sched_ncpu s \<and> sched_cpu_allowed p b s \<and>
        (\<forall>i < sched_ncpu s. sched_cpu_allowed p i s \<longrightarrow> proc_num (sched_rq s b) \<le> proc_num (sched_rq s i)))"
  using choose_least [of "{}" p s None "[0..<sched_ncpu s]"] choose_cpu [of p s]
  by (auto simp: sched_choose_cpu_def split: option.splits)

lemma enqueue_effect:
  assumes "\<not> sched_is_idle p s" "rq (procs s p) = None" "\<not> on_rq (procs s p)"
  shows "rq (procs (sched_class_enqueue_locked q p s) p) = Some q"
    "cpu (procs (sched_class_enqueue_locked q p s) p) = q"
    "state (procs (sched_class_enqueue_locked q p s) p) = state (procs s p)"
    "pool (sched_rq (sched_class_enqueue_locked q p s) q) =
       insert_tree (proc_stride_comp_f s) p (pool (sched_rq s q))"
  using assms by (simp_all add: sched_class_enqueue_locked_def stride_enqueue_def Let_def)

text \<open>
  C35: Waking a sleeping process that is on no CPU and in no queue makes it runnable and puts it into the run
  queue of a CPU its affinity mask allows, one whose load is the least among the allowed CPUs; if no
  online CPU is allowed it stays out of every queue.
\<close>

theorem wakeup_least_loaded:
  assumes "queue_wf s" and "\<not> sched_is_idle p s" and "state (procs s p) \<in> {PROC_UNINIT, PROC_SLEEPING}"
    and "\<not> on_cpu (procs s p)" and "0 < sched_ncpu s"
  shows "state (procs (wakeup_proc p s) p) = PROC_RUNNABLE \<and>
    (case rq (procs (wakeup_proc p s) p) of
       None \<Rightarrow> \<forall>i < sched_ncpu s. \<not> sched_cpu_allowed p i s
     | Some q \<Rightarrow> q < sched_ncpu s \<and> sched_cpu_allowed p q s \<and> cpu (procs (wakeup_proc p s) p) = q \<and>
         p \<in> set_tree (pool (sched_rq (wakeup_proc p s) q)) \<and>
         (\<forall>i < sched_ncpu s. sched_cpu_allowed p i s \<longrightarrow> proc_num (sched_rq s q) \<le> proc_num (sched_rq s i)))"
proof -
  define u where "u = upd_proc p (\<lambda>g. g\<lparr>state := PROC_RUNNABLE, wait_state := 0\<rparr>) s"
  have wf: "queue_ok (wakeup_proc p s)"
    by (rule wakeup_wf [OF queue_wfD(1) [OF assms(1)]])
  have out: "rq (procs s p) = None" "\<not> on_rq (procs s p)"
    using queue_wfD(2,3) [OF assms(1), of p] assms(3) by auto
  have u: "sched_cpu_allowed p i u = sched_cpu_allowed p i s" "sched_rq u = sched_rq s" "sched_ncpu u = sched_ncpu s"
    "\<not> sched_is_idle p u" "rq (procs u p) = None" "\<not> on_rq (procs u p)" "\<not> on_cpu (procs u p)"
    "state (procs u p) = PROC_RUNNABLE" for i
    using assms out by (auto simp: u_def sched_cpu_allowed_def sched_is_idle_def)
  have w: "wakeup_proc p s = (case sched_choose_cpu p u of None \<Rightarrow> u | Some c \<Rightarrow> sched_class_enqueue_locked c p u)"
    using assms u by (auto simp: wakeup_proc_eq Let_def u_def [symmetric] sched_enqueue_proc_def
        sched_enqueue_proc_locked_def split: option.split)
  show ?thesis
  proof (cases "sched_choose_cpu p u")
    case None
    then show ?thesis
      using choose_cpu_least [where p = p and s = u] by (simp add: w u)
  next
    case (Some q)
    note e = enqueue_effect [OF u(4-6), of q]
    have "p \<in> set_tree (pool (sched_rq (wakeup_proc p s) q))"
      using queue_okD(3) [OF wf, of p q] e(1) by (simp add: w Some)
    then show ?thesis
      using choose_cpu_least [where p = p and s = u] Some e by (simp add: w u)
  qed
qed

section \<open>Strides\<close>

text \<open>
  Strides wrap around, and the signed difference orders them as long as they lie in a window of
  \<open>BIG_STRIDE\<close> from some base.
\<close>

definition in_window :: "u32 \<Rightarrow> u32 \<Rightarrow> bool" where
  "in_window m x \<longleftrightarrow> x - m \<le> BIG_STRIDE"

lemma sint_window:
  assumes "in_window m x" "in_window m y"
  shows "sint (x - y) = int (unat (x - m)) - int (unat (y - m))"
proof -
  define a b where "a = x - m" and "b = y - m"
  have xy: "x - y = word_of_int (int (unat a) - int (unat b))"
    by (simp add: a_def b_def)
  have a: "unat a \<le> 0x7FFFFFFF" and b: "unat b \<le> 0x7FFFFFFF"
    using assms unfolding in_window_def a_def [symmetric] b_def [symmetric] word_le_nat_alt by simp_all
  show ?thesis
    unfolding a_def [symmetric] b_def [symmetric] xy sint_sbintrunc'
    using a b by (intro signed_take_bit_int_eq_self) (simp_all del: of_nat_unat int_nat_eq)
qed

lemma comp_window:
  assumes "in_window m (lab6_stride (procs s p))" "in_window m (lab6_stride (procs s q))"
  shows "proc_stride_comp_f s p q < 0 \<longleftrightarrow> lab6_stride (procs s p) - m < lab6_stride (procs s q) - m"
  using sint_window [OF assms] by (auto simp: proc_stride_comp_f_def Let_def word_less_def)

lemma find_least:
  assumes "\<forall>p\<in>set_tree t. in_window m (lab6_stride (procs s p))"
    and "stride_find_allowed s c t = Some p" and "q \<in> set_tree t" and "proc_allowed_on_cpu (procs s q) c"
  shows "lab6_stride (procs s p) - m \<le> lab6_stride (procs s q) - m"
  using assms
proof (induction t arbitrary: p q)
  case (Node l a r)
  let ?f = "\<lambda>p. unat (lab6_stride (procs s p) - m)"
  let ?l = "stride_find_allowed s c l" and ?r = "stride_find_allowed s c r"
  have less: "proc_stride_comp_f s x y < 0 \<longleftrightarrow> ?f x < ?f y" if "x \<in> set_tree (Node l a r)" "y \<in> set_tree (Node l a r)" for x y
    using comp_window [OF bspec [OF Node.prems(1) that(1)] bspec [OF Node.prems(1) that(2)]]
    by (simp only: word_less_nat_alt)
  have l: "x \<in> set_tree l" if "?l = Some x" for x
    using find_allowed(1) [OF that] by simp
  have r: "x \<in> set_tree r" if "?r = Some x" for x
    using find_allowed(1) [OF that] by simp
  have IHl: "?f x \<le> ?f q" if "?l = Some x" "q \<in> set_tree l" for x
    using Node.IH(1) [OF _ that Node.prems(4)] Node.prems(1) by (simp add: word_le_nat_alt)
  have IHr: "?f x \<le> ?f q" if "?r = Some x" "q \<in> set_tree r" for x
    using Node.IH(2) [OF _ that Node.prems(4)] Node.prems(1) by (simp add: word_le_nat_alt)
  have nl: "?l \<noteq> None" if "q \<in> set_tree l"
    using find_allowed(2) [of s c l] that Node.prems(4) by auto
  have nr: "?r \<noteq> None" if "q \<in> set_tree r"
    using find_allowed(2) [of s c r] that Node.prems(4) by auto
  show ?case
    using Node.prems(2-4) less l r IHl IHr nl nr
    unfolding word_le_nat_alt
    by (auto simp: better_def Let_def split: option.splits if_splits; fastforce)
qed simp

lemma window_shift:
  assumes "in_window m y" "x - m \<le> y - m"
  shows "in_window x y"
proof -
  have "y - x = (y - m) - (x - m)"
    by simp
  moreover have "(y - m) - (x - m) \<le> y - m"
    using assms(2) by (rule word_sub_le)
  ultimately show ?thesis
    using assms(1) unfolding in_window_def by simp
qed

lemma word_div_le: "(a :: u32) div b \<le> a"
  by (simp add: word_le_nat_alt unat_div)

text \<open>
  C36: While the strides of a run queue lie within \<open>BIG_STRIDE\<close> of each other, modulo 2^32, the class picks a
  process the CPU may run whenever there is one, and among those one with the least stride in the
  order from the base of the window; when all queued processes are allowed on the CPU the strides
  after the pick lie in the window that starts at the picked stride, so wrap-around never confuses
  the comparison.
\<close>

theorem stride_pick_least:
  assumes win: "\<forall>p\<in>set_tree (pool (sched_rq s q)). in_window m (lab6_stride (procs s p))"
    and some: "\<exists>p\<in>set_tree (pool (sched_rq s q)). proc_allowed_on_cpu (procs s p) c"
  shows "\<exists>p t. stride_pick_next_for_cpu q c s = (Some p, t) \<and>
     p \<in> set_tree (pool (sched_rq s q)) \<and> proc_allowed_on_cpu (procs s p) c \<and>
     (\<forall>p'\<in>set_tree (pool (sched_rq s q)). proc_allowed_on_cpu (procs s p') c \<longrightarrow>
        lab6_stride (procs s p) - m \<le> lab6_stride (procs s p') - m) \<and>
     ((\<forall>p'\<in>set_tree (pool (sched_rq s q)). proc_allowed_on_cpu (procs s p') c) \<longrightarrow>
        (\<forall>p'\<in>set_tree (pool (sched_rq s q)). in_window (lab6_stride (procs s p)) (lab6_stride (procs t p'))))"
proof -
  let ?t = "pool (sched_rq s q)"
  obtain p where p: "stride_find_allowed s c ?t = Some p"
    using find_allowed(2) [of s c ?t] some by auto
  obtain t where t: "stride_pick_next_for_cpu q c s = (Some p, t)"
    and bump: "\<exists>d \<le> BIG_STRIDE. lab6_stride (procs t p) = lab6_stride (procs s p) + d"
    and same: "\<forall>p'. p' \<noteq> p \<longrightarrow> procs t p' = procs s p'"
    by (auto simp: stride_pick_next_for_cpu_def p word_div_le)
  note least = find_least [OF win p]
  have "in_window (lab6_stride (procs s p)) (lab6_stride (procs t p'))"
    if "p' \<in> set_tree ?t" "\<forall>p'\<in>set_tree ?t. proc_allowed_on_cpu (procs s p') c" for p'
  proof (cases "p' = p")
    case True
    then show ?thesis
      using bump by (auto simp: in_window_def)
  next
    case False
    then show ?thesis
      using window_shift [of m "lab6_stride (procs s p')" "lab6_stride (procs s p)"] win least that same by simp
  qed
  then show ?thesis
    using t least find_allowed(1) [OF p] by blast
qed

section \<open>Timers: proofs\<close>

text \<open>The deadlines of a timer list: each timer with the number of ticks until it should fire.\<close>

fun due :: "nat \<Rightarrow> timer_t list \<Rightarrow> (nat \<times> nat) list" where
  "due k [] = []"
| "due k (t # ts) = (timer_id t, k + expires t) # due (k + expires t) ts"

lemma due_ids: "map fst (due k ts) = map timer_id ts"
  by (induction ts arbitrary: k) auto

lemma due_fst: "fst ` set (due k ts) = timer_id ` set ts"
  using due_ids [of k ts] by (metis list.set_map)

lemma due_insert: "set (due k (insert_timer t ts)) = insert (timer_id t, k + expires t) (set (due k ts))"
  by (induction t ts arbitrary: k rule: insert_timer.induct) auto

lemma due_filter: "i \<notin> timer_id ` set ts \<Longrightarrow> filter (\<lambda>(j, d). j \<noteq> i) (due k ts) = due k ts"
  using due_fst [of k ts] by (intro filter_True) force

lemma due_remove:
  "distinct (map timer_id ts) \<Longrightarrow> due k (remove_timer i ts) = filter (\<lambda>(j, d). j \<noteq> i) (due k ts)"
proof (induction i ts arbitrary: k rule: remove_timer.induct)
  case (2 i t ts)
  then show ?case
    by (cases ts) (auto simp: ac_simps due_filter)
qed simp

lemma ids_insert: "timer_id ` set (insert_timer t ts) = insert (timer_id t) (timer_id ` set ts)"
  by (induction t ts rule: insert_timer.induct) auto

lemma ids_run: "run_timers ts s = (Ok (), t) \<Longrightarrow> \<exists>k. map timer_id (timer_list t) = drop k (map timer_id ts)"
proof (induction ts arbitrary: s)
  case (Cons u ts)
  show ?case
  proof (cases "expires u \<le> 1")
    case True
    then obtain k where "map timer_id (timer_list t) = drop k (map timer_id ts)"
      using Cons.prems Cons.IH [of "wakeup_proc (timer_proc u) (s\<lparr>timer_list := ts\<rparr>)"]
      by (auto simp: Let_def split: if_splits)
    then show ?thesis
      by (intro exI [of _ "Suc k"]) simp
  qed (use Cons.prems in \<open>auto simp: Let_def split: if_splits intro: exI [of _ 0]\<close>)
qed auto

text \<open>
  The delta-encoded timer list behaves as a set of deadlines: adding a timer adds its deadline and moves
  no other, deleting one removes its deadline and moves no other, whatever their order in the list.
\<close>

theorem timer_list_deadlines:
  assumes "distinct (map timer_id (timer_list s))"
  shows "(\<forall>tm t. add_timer tm s = (Ok (), t) \<longrightarrow>
      set (due 0 (timer_list t)) = insert (timer_id tm, expires tm) (set (due 0 (timer_list s)))) \<and>
    set (due 0 (timer_list (del_timer i s))) = {(j, d) \<in> set (due 0 (timer_list s)). j \<noteq> i}"
  using assms due_remove [of "timer_list s" 0 i] by (auto simp: add_timer_def del_timer_def due_insert split: if_splits)

lemma due_offset: "due (k + j) ts = map (\<lambda>(i, d). (i, k + d)) (due j ts)"
  by (induction ts arbitrary: j) (auto simp: add.assoc)

lemmas due_offset0 = due_offset [of _ 0, simplified]

text \<open>One tick: the timers that survive it have come closer, and the others have fired.\<close>

lemma run_timers_due:
  "run_timers ts s = (Ok (), t) \<Longrightarrow> (i, d) \<in> set (due 0 (timer_list t)) \<Longrightarrow>
     0 < d \<and> (\<exists>e. (i, e) \<in> set (due 0 ts) \<and> d < e)"
proof (induction ts arbitrary: s)
  case (Cons u ts)
  let ?w = "wakeup_proc (timer_proc u) (s\<lparr>timer_list := ts\<rparr>)"
  show ?case
  proof (cases "expires u \<le> 1")
    case True
    then have r: "run_timers ts ?w = (Ok (), t)"
      using Cons.prems(1) by (auto simp: Let_def split: if_splits)
    have "\<exists>e. (i, e) \<in> set (due (expires u) ts) \<and> d < e" if "(i, e) \<in> set (due 0 ts)" "d < e" for e
      using that unfolding due_offset0 [of "expires u"] by (intro exI [of _ "expires u + e"]) force
    then show ?thesis
      using Cons.IH [OF r Cons.prems(2)] by fastforce
  next
    case False
    then have t: "timer_list t = u\<lparr>expires := expires u - 1\<rparr> # ts"
      using Cons.prems(1) by (auto simp: Let_def split: if_splits)
    have "\<exists>e. (i, e) \<in> set (due (expires u) ts) \<and> d < e \<and> 0 < d"
      if "(i, d) \<in> set (due (expires u - Suc 0) ts)"
      using that False unfolding due_offset0 [of "expires u"] due_offset0 [of "expires u - Suc 0"]
      by force
    then show ?thesis
      using Cons.prems False t by auto
  qed
qed auto

lemma tick_timer_list [simp]: "timer_list (sched_tick c s) = timer_list s"
  by (auto simp: sched_tick_def stride_proc_tick_def split: option.split)

text \<open>Consecutive timer interrupts.\<close>

fun ticks :: "nat \<Rightarrow> nat \<Rightarrow> sched \<Rightarrow> unit outcome \<times> sched" where
  "ticks 0 c s = (Ok (), s)"
| "ticks (Suc n) c s = sbind (run_timer_list c s) (\<lambda>_ s. ticks n c s)"

lemma ticks_due:
  "ticks n c s = (Ok (), t) \<Longrightarrow> (i, d) \<in> set (due 0 (timer_list t)) \<Longrightarrow>
     \<exists>e. (i, e) \<in> set (due 0 (timer_list s)) \<and> d + n \<le> e \<and> (0 < n \<longrightarrow> 0 < d)"
proof (induction n arbitrary: s)
  case (Suc n)
  then obtain u where r: "run_timers (timer_list s) s = (Ok (), u)" "ticks n c (sched_tick c u) = (Ok (), t)"
    by (auto simp: run_timer_list_def outcome_simps)
  then obtain e where e: "(i, e) \<in> set (due 0 (timer_list u))" "d + n \<le> e" "0 < n \<longrightarrow> 0 < d"
    using Suc.IH [OF r(2) Suc.prems(2)] by auto
  obtain e' where "(i, e') \<in> set (due 0 (timer_list s))" "e < e'"
    using run_timers_due [OF r(1) e(1)] by blast
  moreover have "0 < d"
    using e(3) run_timers_due [OF r(1), of i d] r(2) Suc.prems(2) by (cases n) auto
  ultimately show ?case
    using e(2) by (intro exI [of _ e']) simp
qed auto

text \<open>
  \<open>woken A s t\<close>: from \<open>s\<close> to \<open>t\<close> the only changes of the states of processes are that some sleeping
  processes in \<open>A\<close> have become runnable.
\<close>

definition woken :: "nat set \<Rightarrow> sched \<Rightarrow> sched \<Rightarrow> bool" where
  "woken A s t \<longleftrightarrow> (\<forall>p. pid (procs t p) = pid (procs s p) \<and>
     (state (procs t p) = state (procs s p) \<and> wait_state (procs t p) = wait_state (procs s p) \<or>
      p \<in> A \<and> state (procs s p) \<in> {PROC_UNINIT, PROC_SLEEPING} \<and>
        state (procs t p) = PROC_RUNNABLE \<and> wait_state (procs t p) = 0))"

definition awake :: "nat \<Rightarrow> sched \<Rightarrow> bool" where
  "awake p s \<longleftrightarrow> pid (procs s p) = 0 \<or> state (procs s p) \<notin> {PROC_UNINIT, PROC_SLEEPING}"

text \<open>The assertion of \<open>run_timer_list\<close> for the process of a timer.\<close>

definition may_fire :: "nat \<Rightarrow> sched \<Rightarrow> bool" where
  "may_fire p s \<longleftrightarrow> wait_state (procs s p) = 0 \<or> wait_state (procs s p) AND WT_INTERRUPTED \<noteq> 0"

lemma woken_refl: "woken A s s"
  by (simp add: woken_def)

lemma woken_trans:
  assumes "woken A s t" "woken B t u"
  shows "woken (A \<union> B) s u"
  unfolding woken_def
proof
  fix p
  show "pid (procs u p) = pid (procs s p) \<and>
     (state (procs u p) = state (procs s p) \<and> wait_state (procs u p) = wait_state (procs s p) \<or>
      p \<in> A \<union> B \<and> state (procs s p) \<in> {PROC_UNINIT, PROC_SLEEPING} \<and>
        state (procs u p) = PROC_RUNNABLE \<and> wait_state (procs u p) = 0)"
    using assms [unfolded woken_def, rule_format, of p] by auto
qed

lemma woken_awake: "woken A s t \<Longrightarrow> awake p s \<Longrightarrow> awake p t"
  unfolding woken_def awake_def by (metis (no_types, lifting) insertE proc_state.distinct singletonD)

lemma woken_may_fire: "woken A s t \<Longrightarrow> may_fire p s \<Longrightarrow> may_fire p t"
  unfolding woken_def may_fire_def by metis

lemma woken_enqueue: "woken {} s (sched_enqueue_proc p s)"
  by (auto simp: woken_def sched_enqueue_proc_def sched_enqueue_proc_locked_def sched_class_enqueue_locked_def
      stride_enqueue_def Let_def split: option.split)

lemma woken_wakeup: "woken {p} s (wakeup_proc p s)" "awake p (wakeup_proc p s)"
proof -
  let ?u = "upd_proc p (\<lambda>g. g\<lparr>state := PROC_RUNNABLE, wait_state := 0\<rparr>) s"
  have s: "woken {p} s s" "woken {p} s (sched_enqueue_proc p s)"
    using woken_trans [OF woken_refl [of "{p}"] woken_enqueue] by (simp_all add: woken_refl)
  have u: "woken {p} s ?u" if "state (procs s p) \<in> {PROC_UNINIT, PROC_SLEEPING}"
    using that by (simp add: woken_def)
  have eu: "woken {p} s (sched_enqueue_proc p ?u)" if "state (procs s p) \<in> {PROC_UNINIT, PROC_SLEEPING}"
    using woken_trans [OF u [OF that] woken_enqueue] by simp
  have st: "state (procs s p) \<in> {PROC_UNINIT, PROC_SLEEPING}"
    if "state (procs s p) \<noteq> PROC_STOPPED" "state (procs s p) \<noteq> PROC_RUNNABLE" "state (procs s p) \<noteq> PROC_ZOMBIE"
    using that by (cases "state (procs s p)") auto
  show "woken {p} s (wakeup_proc p s)"
    using s eu st unfolding wakeup_proc_eq Let_def by (simp del: insert_iff)
  have "awake p (sched_enqueue_proc p ?u)"
    by (rule woken_awake [OF woken_enqueue]) (simp add: awake_def)
  moreover have "awake p s" if "sched_is_idle p s \<or> state (procs s p) \<in> {PROC_STOPPED, PROC_RUNNABLE, PROC_ZOMBIE}"
    using that by (auto simp: awake_def sched_is_idle_def)
  ultimately show "awake p (wakeup_proc p s)"
    using woken_awake [OF woken_enqueue, of p s p] unfolding wakeup_proc_eq Let_def by auto
qed

lemma woken_timer_list [simp]: "woken A (s\<lparr>timer_list := ts\<rparr>) t = woken A s t" "may_fire p (s\<lparr>timer_list := ts\<rparr>) = may_fire p s"
  by (simp_all add: woken_def may_fire_def)

lemma run_timers_total:
  "\<forall>tm\<in>set ts. may_fire (timer_proc tm) s \<Longrightarrow>
   \<exists>t. run_timers ts s = (Ok (), t) \<and> woken (timer_proc ` set ts) s t \<and>
     timer_proc ` set (timer_list t) \<subseteq> timer_proc ` set ts \<and>
     (\<forall>tm\<in>set ts. (timer_id tm, timer_proc tm) \<in> (\<lambda>u. (timer_id u, timer_proc u)) ` set (timer_list t) \<or>
        awake (timer_proc tm) t)"
proof (induction ts arbitrary: s)
  case Nil
  show ?case
    by (auto simp: woken_def)
next
  case (Cons u ts)
  let ?w = "wakeup_proc (timer_proc u) (s\<lparr>timer_list := ts\<rparr>)"
  have w: "woken {timer_proc u} s ?w" "awake (timer_proc u) ?w"
    using woken_wakeup [of "timer_proc u" "s\<lparr>timer_list := ts\<rparr>"] by simp_all
  have ok: "\<not> (wait_state (procs s (timer_proc u)) \<noteq> 0 \<and> wait_state (procs s (timer_proc u)) AND WT_INTERRUPTED = 0)"
    using Cons.prems by (auto simp: may_fire_def)
  show ?case
  proof (cases "expires u \<le> 1")
    case True
    obtain t where t: "run_timers ts ?w = (Ok (), t)" "woken (timer_proc ` set ts) ?w t"
      "timer_proc ` set (timer_list t) \<subseteq> timer_proc ` set ts"
      "\<forall>tm\<in>set ts. (timer_id tm, timer_proc tm) \<in> (\<lambda>u. (timer_id u, timer_proc u)) ` set (timer_list t) \<or>
        awake (timer_proc tm) t"
      using Cons.IH [of ?w] Cons.prems woken_may_fire [OF w(1)] by auto
    have "run_timers (u # ts) s = (Ok (), t)"
      using t(1) True ok by (auto simp: Let_def)
    moreover have "woken (timer_proc ` set (u # ts)) s t"
      using woken_trans [OF w(1) t(2)] by simp
    ultimately show ?thesis
      using t(3,4) woken_awake [OF t(2) w(2)] by auto
  next
    case False
    then show ?thesis
      using woken_refl by (auto simp: Let_def woken_def)
  qed
qed

lemma woken_tick: "woken {} s (sched_tick c s)"
  by (auto simp: woken_def sched_tick_def stride_proc_tick_def Let_def split: option.split)

lemma ticks_total:
  "\<forall>tm\<in>set (timer_list s). may_fire (timer_proc tm) s \<Longrightarrow>
   \<exists>t. ticks n c s = (Ok (), t) \<and> woken (timer_proc ` set (timer_list s)) s t \<and>
     (\<forall>tm\<in>set (timer_list s). (timer_id tm, timer_proc tm) \<in> (\<lambda>u. (timer_id u, timer_proc u)) ` set (timer_list t) \<or>
        awake (timer_proc tm) t)"
proof (induction n arbitrary: s)
  case (Suc n)
  let ?key = "\<lambda>u. (timer_id u, timer_proc u)"
  obtain u where u: "run_timers (timer_list s) s = (Ok (), u)" "woken (timer_proc ` set (timer_list s)) s u"
    "timer_proc ` set (timer_list u) \<subseteq> timer_proc ` set (timer_list s)"
    "\<forall>tm\<in>set (timer_list s). ?key tm \<in> ?key ` set (timer_list u) \<or> awake (timer_proc tm) u"
    using run_timers_total [OF Suc.prems] by blast
  let ?v = "sched_tick c u"
  have v: "woken (timer_proc ` set (timer_list s)) s ?v"
    using woken_trans [OF u(2) woken_tick] by simp
  have "may_fire (timer_proc tm) ?v" if "tm \<in> set (timer_list ?v)" for tm
  proof -
    have "timer_proc tm \<in> timer_proc ` set (timer_list s)"
      using that u(3) by auto
    then show ?thesis
      using Suc.prems woken_may_fire [OF v] by auto
  qed
  then obtain t where t: "ticks n c ?v = (Ok (), t)" "woken (timer_proc ` set (timer_list ?v)) ?v t"
    "\<forall>tm\<in>set (timer_list ?v). ?key tm \<in> ?key ` set (timer_list t) \<or> awake (timer_proc tm) t"
    using Suc.IH [of ?v] by blast
  have "?key tm \<in> ?key ` set (timer_list t) \<or> awake (timer_proc tm) t" if "tm \<in> set (timer_list s)" for tm
  proof (cases "?key tm \<in> ?key ` set (timer_list u)")
    case True
    then obtain um where um: "um \<in> set (timer_list ?v)" "timer_id um = timer_id tm" "timer_proc um = timer_proc tm"
      by auto
    show ?thesis
      using bspec [OF t(3) um(1)] um(2,3) by simp
  next
    case False
    then have "awake (timer_proc tm) u"
      using u(4) that by blast
    then show ?thesis
      using woken_awake [OF t(2)] woken_awake [OF woken_tick] by blast
  qed
  moreover have "woken (timer_proc ` set (timer_list s)) s t"
    using woken_trans [OF v t(2)] u(3) by (simp add: Un_absorb2)
  moreover have "ticks (Suc n) c s = (Ok (), t)"
    using u(1) t(1) by (simp add: run_timer_list_def outcome_simps)
  ultimately show ?case
    by blast
qed (auto simp: woken_def)

lemma ticks_expired:
  assumes "ticks n c s = (Ok (), t)" and "distinct (map timer_id (timer_list s))"
    and "(i, d) \<in> set (due 0 (timer_list s))" and "0 < n" and "d \<le> n"
  shows "i \<notin> timer_id ` set (timer_list t)"
proof
  assume "i \<in> timer_id ` set (timer_list t)"
  then obtain d' where "(i, d') \<in> set (due 0 (timer_list t))"
    using due_fst [of 0 "timer_list t"] by (metis (no_types, lifting) imageE prod.collapse)
  then obtain e where "(i, e) \<in> set (due 0 (timer_list s))" "d' + n \<le> e" "0 < d'"
    using ticks_due [OF assms(1)] assms(4) by blast
  moreover have "d = e"
    if "(i, e) \<in> set (due 0 (timer_list s))" for e
    using eq_key_imp_eq_value [OF _ assms(3) that] assms(2) by (simp add: due_ids)
  ultimately show False
    using assms(5) by fastforce
qed

text \<open>
  C37: Timers wake their processes in time.  If the identifiers of the timers are distinct and the process
  of each timer either does not wait or waits interruptibly, any number of timer interrupts is handled
  without a failed assertion.  After \<open>n\<close> of them, every timer whose deadline was at most \<open>n\<close> ticks
  away is gone and its process, if it was asleep, is runnable and waits for nothing.  The state of a
  process without a timer does not change.
\<close>

theorem timers_never_late:
  assumes "distinct (map timer_id (timer_list s))" and "0 < n"
    and "\<forall>tm\<in>set (timer_list s). wait_state (procs s (timer_proc tm)) = 0 \<or>
      wait_state (procs s (timer_proc tm)) AND WT_INTERRUPTED \<noteq> 0"
  shows "\<exists>t. ticks n c s = (Ok (), t) \<and>
    (\<forall>tm d. tm \<in> set (timer_list s) \<and> (timer_id tm, d) \<in> set (due 0 (timer_list s)) \<and> d \<le> n \<longrightarrow>
       timer_id tm \<notin> timer_id ` set (timer_list t) \<and>
       (state (procs s (timer_proc tm)) = PROC_SLEEPING \<and> pid (procs s (timer_proc tm)) \<noteq> 0 \<longrightarrow>
          state (procs t (timer_proc tm)) = PROC_RUNNABLE \<and> wait_state (procs t (timer_proc tm)) = 0)) \<and>
    (\<forall>p. p \<notin> timer_proc ` set (timer_list s) \<longrightarrow>
       state (procs t p) = state (procs s p) \<and> wait_state (procs t p) = wait_state (procs s p))"
proof -
  obtain t where t: "ticks n c s = (Ok (), t)" "woken (timer_proc ` set (timer_list s)) s t"
    "\<forall>tm\<in>set (timer_list s). (timer_id tm, timer_proc tm) \<in> (\<lambda>u. (timer_id u, timer_proc u)) ` set (timer_list t) \<or>
        awake (timer_proc tm) t"
    using ticks_total [of s n c] assms(3) by (auto simp: may_fire_def)
  have w: "pid (procs t p) = pid (procs s p) \<and>
     (state (procs t p) = state (procs s p) \<and> wait_state (procs t p) = wait_state (procs s p) \<or>
      p \<in> timer_proc ` set (timer_list s) \<and> state (procs s p) \<in> {PROC_UNINIT, PROC_SLEEPING} \<and>
        state (procs t p) = PROC_RUNNABLE \<and> wait_state (procs t p) = 0)" for p
    using t(2) unfolding woken_def by blast
  have "timer_id tm \<notin> timer_id ` set (timer_list t) \<and>
       (state (procs s (timer_proc tm)) = PROC_SLEEPING \<and> pid (procs s (timer_proc tm)) \<noteq> 0 \<longrightarrow>
          state (procs t (timer_proc tm)) = PROC_RUNNABLE \<and> wait_state (procs t (timer_proc tm)) = 0)"
    if "tm \<in> set (timer_list s)" "(timer_id tm, d) \<in> set (due 0 (timer_list s))" "d \<le> n" for tm d
  proof -
    have gone: "timer_id tm \<notin> timer_id ` set (timer_list t)"
      by (rule ticks_expired [OF t(1) assms(1) that(2) assms(2) that(3)])
    then have "awake (timer_proc tm) t"
      using t(3) that(1) by force
    then show ?thesis
      using gone w [of "timer_proc tm"] by (auto simp: awake_def)
  qed
  then show ?thesis
    using t(1) w by blast
qed

text \<open>
  The loop of \<open>run_timer_list\<close> decrements the timer that becomes first after an expiry in the same
  interrupt: a timer due in one tick and a timer due in two ticks are both gone after one tick.
\<close>

theorem run_timer_list_fires_early:
  assumes "due 0 (timer_list s) = [(i, 1), (j, 2)]" and "run_timer_list c s = (Ok (), t)"
  shows "timer_list t = []"
proof -
  obtain a b where "timer_list s = [a, b]"
    using due_ids [of 0 "timer_list s"] assms(1) by (auto simp: map_eq_Cons_conv)
  moreover from this have "expires a = 1" "expires b = 1"
    using assms(1) by auto
  ultimately show ?thesis
    using assms(2) by (auto simp: run_timer_list_def outcome_simps Let_def split: if_splits)
qed

section \<open>A process on two CPUs\<close>

text \<open>
  A finding of the development.  \<open>schedule\<close> queues the process it is leaving while that process is still
  marked as running; another CPU can take it from the queue before the switch has completed, and
  \<open>proc_switch_complete\<close> then clears \<open>on_cpu\<close> and queues the process again although it runs.
\<close>

text \<open>
  Uninterrupted operations.  A process blocks or exits on its own CPU while it is in no queue; a
  process record is given to a new process when it is in no queue.
\<close>

inductive sched_step :: "sched \<Rightarrow> sched \<Rightarrow> bool" where
  wakeup: "sched_step s (wakeup_proc p s)"
| schedule: "c < sched_ncpu s \<Longrightarrow> sched_step s (schedule c s)"
| complete: "sched_step s (proc_switch_complete c s)"
| tick: "run_timer_list c s = (Ok (), t) \<Longrightarrow> sched_step s t"
| balance: "sched_step s (sched_balance s)"
| affinity: "sched_step s (sched_setaffinity_locked p m s)"
| stop: "sched_step s (sched_stop_locked p s)"
| block: "current s c = Some p \<Longrightarrow> rq (procs s p) = None \<Longrightarrow>
    st \<in> {PROC_SLEEPING, PROC_ZOMBIE} \<Longrightarrow>
    sched_step s (upd_proc p (\<lambda>g. g\<lparr>state := st, wait_state := w\<rparr>) s)"
| alloc: "rq (procs s p) = None \<Longrightarrow> rq g = None \<Longrightarrow> \<not> on_rq g \<Longrightarrow> sched_step s (upd_proc p (\<lambda>_. g) s)"
| add: "add_timer tm s = (Ok (), t) \<Longrightarrow> sched_step s t"
| del: "sched_step s (del_timer i s)"

text \<open>They are sequences of critical sections.\<close>

lemma section_trans: "sched_section\<^sup>*\<^sup>* s t \<Longrightarrow> sched_section t u \<Longrightarrow> sched_section\<^sup>*\<^sup>* s u"
  by (rule rtranclp.rtrancl_into_rtrancl)

lemma wakeup_sections: "sched_section\<^sup>*\<^sup>* s (wakeup_proc p s)"
proof (cases "wakeup_mark p s")
  case (Pair e t)
  then have "sched_section s t"
    using sched_section.mark [of s p] by simp
  then show ?thesis
    using Pair section_trans [OF r_into_rtranclp sched_section.enqueue] by (auto simp: wakeup_proc_def)
qed

lemma schedule_sections:
  assumes "c < sched_ncpu s"
  shows "sched_section\<^sup>*\<^sup>* s (schedule c s)"
proof (cases "schedule_locked c s")
  case (Pair r t)
  then have "sched_section s t"
    using sched_section.choose [OF assms] by simp
  then show ?thesis
    using Pair section_trans [OF r_into_rtranclp sched_section.run] by (auto simp: schedule_def split: option.split)
qed

lemma complete_sections: "sched_section\<^sup>*\<^sup>* s (proc_switch_complete c s)"
proof (cases "switch_retire c s")
  case (fields parent requeue t)
  then have 1: "sched_section\<^sup>*\<^sup>* s t"
    using sched_section.retire [of s c] by auto
  then have 2: "sched_section\<^sup>*\<^sup>* s (case parent of Some q \<Rightarrow> wakeup_proc q t | None \<Rightarrow> t)"
    using rtranclp_trans [OF 1 wakeup_sections] by (simp split: option.split)
  then show ?thesis
    using fields rtranclp_trans [OF 2 wakeup_sections] by (cases requeue) (simp_all add: proc_switch_complete_def)
qed

lemma timers_sections: "run_timers (timer_list s) s = (Ok (), t) \<Longrightarrow> sched_section\<^sup>*\<^sup>* s t"
proof (induction "length (timer_list s)" arbitrary: s rule: less_induct)
  case less
  obtain r u where u: "timer_take s = (r, u)"
    by (cases "timer_take s")
  then have 1: "sched_section s u"
    using sched_section.timer [of s] by simp
  show ?case
  proof (cases r)
    case None
    then show ?thesis
      using less.prems 1 u by (simp add: run_timers_sections)
  next
    case (Some p)
    then have "length (timer_list (wakeup_proc p u)) < length (timer_list s)"
      using u by (auto simp: timer_take_def Let_def split: list.splits if_splits)
    moreover have "run_timers (timer_list (wakeup_proc p u)) (wakeup_proc p u) = (Ok (), t)"
      using less.prems Some u unfolding run_timers_sections [of s] by (auto simp: Let_def split: if_splits)
    ultimately have "sched_section\<^sup>*\<^sup>* (wakeup_proc p u) t"
      by (rule less.hyps)
    then show ?thesis
      using 1 wakeup_sections [of u p] by (meson converse_rtranclp_into_rtranclp rtranclp_trans)
  qed
qed

lemma step_sections: "sched_step s t \<Longrightarrow> sched_section\<^sup>*\<^sup>* s t"
proof (induction rule: sched_step.induct)
  case (tick c s t)
  then obtain u where "run_timers (timer_list s) s = (Ok (), u)" "t = sched_tick c u"
    by (auto simp: run_timer_list_def outcome_simps)
  then show ?case
    using section_trans [OF timers_sections sched_section.tick] by simp
qed (auto intro: wakeup_sections schedule_sections complete_sections sched_section.intros)

lemma steps_sections: "sched_step\<^sup>*\<^sup>* s t \<Longrightarrow> sched_section\<^sup>*\<^sup>* s t"
  by (induction rule: rtranclp_induct) (auto dest: step_sections)

definition booted :: sched where
  "booted =
     \<lparr>procs = (\<lambda>p. \<lparr>pid = 0, state = PROC_RUNNABLE, wait_state = 0, rq = None, on_rq = False, cpu = p, cpu_mask = 3,
        on_cpu = p < 2, time_slice = 0, lab6_stride = 0, lab6_priority = 0, need_resched = False, runs = 0,
        proc_parent = None\<rparr>),
      sched_rq = (\<lambda>_. \<lparr>proc_num = 0, max_time_slice = 5, pool = Leaf\<rparr>), sched_ncpu = 0, timer_list = [],
      current = (\<lambda>c. Some c), idleproc = (\<lambda>c. Some c), switch_pending = (\<lambda>_. None)\<rparr>"

definition newborn :: "int \<Rightarrow> u32 \<Rightarrow> proc_struct" where
  "newborn i m = \<lparr>pid = i, state = PROC_UNINIT, wait_state = 0, rq = None, on_rq = False, cpu = 0, cpu_mask = m,
     on_cpu = False, time_slice = 0, lab6_stride = 0, lab6_priority = 0, need_resched = False, runs = 0,
     proc_parent = None\<rparr>"

definition race_1 :: sched where
  "race_1 = schedule 0 (wakeup_proc 2 (upd_proc 2 (\<lambda>_. newborn 1 3) (sched_init 2 booted)))"

definition race_2 :: sched where
  "race_2 = wakeup_proc 3 (upd_proc 3 (\<lambda>_. newborn 2 1) (proc_switch_complete 0 race_1))"

definition race_3 :: sched where
  "race_3 = proc_switch_complete 0 (schedule 1 (schedule 0 race_2))"

definition race_4 :: sched where
  "race_4 = schedule 0 (upd_proc 3 (\<lambda>g. g\<lparr>state := PROC_SLEEPING, wait_state := WT_TIMER\<rparr>) race_3)"


lemmas race_defs = schedule_def schedule_locked_def wakeup_proc_eq proc_switch_complete_def switch_retire_def sched_init_def
  sched_enqueue_proc_def sched_enqueue_proc_locked_def sched_choose_cpu_def sched_class_enqueue_locked_def
  stride_enqueue_def sched_class_dequeue_locked_def stride_dequeue_def stride_pick_next_for_cpu_def sched_steal_def
  sched_is_idle_def sched_cpu_allowed_def proc_allowed_on_cpu_def stride_init_def better_def proc_run_def
  upd_proc_def upd_rq_def Let_def upt_rec

lemma init_booted: "sched_init 2 booted = booted\<lparr>sched_ncpu := 2\<rparr>"
  by (simp add: race_defs booted_def fun_eq_iff)

lemmas race_eval = race_1_def race_2_def race_3_def race_4_def init_booted race_defs booted_def newborn_def
  insert_tree_def proc_stride_comp_f_def

lemma step_trans: "sched_step\<^sup>*\<^sup>* s t \<Longrightarrow> sched_step t u \<Longrightarrow> sched_step\<^sup>*\<^sup>* s u"
  by (rule rtranclp.rtrancl_into_rtrancl)

lemma race_steps: "sched_step\<^sup>*\<^sup>* (sched_init 2 booted) race_4"
proof -
  have 1: "sched_step\<^sup>*\<^sup>* (sched_init 2 booted) race_1"
    unfolding race_1_def
    by (intro step_trans [OF _ sched_step.schedule] step_trans [OF _ sched_step.wakeup]
        step_trans [OF _ sched_step.alloc] rtranclp.rtrancl_refl) (simp_all add: race_eval)
  have 2: "sched_step\<^sup>*\<^sup>* race_1 race_2"
    unfolding race_2_def
    by (intro step_trans [OF _ sched_step.complete] step_trans [OF _ sched_step.wakeup]
        step_trans [OF _ sched_step.alloc] rtranclp.rtrancl_refl) (simp_all add: race_eval)
  have 3: "sched_step\<^sup>*\<^sup>* race_2 race_3"
    unfolding race_3_def
    by (intro step_trans [OF _ sched_step.complete] step_trans [OF _ sched_step.schedule]
        rtranclp.rtrancl_refl) (simp_all add: race_eval)
  have 4: "sched_step\<^sup>*\<^sup>* race_3 race_4"
    unfolding race_4_def
    by (intro step_trans [OF _ sched_step.schedule] step_trans [OF _ sched_step.block [of _ 0]]
        rtranclp.rtrancl_refl) (simp_all add: race_eval)
  show ?thesis
    using 1 2 3 4 by (meson rtranclp_trans)
qed

text \<open>
  C38: The scheduler can run one process on two CPUs: from \<open>sched_init\<close> with two CPUs there is a sequence of
  steps after which both CPUs have the same process, not an idle one, as their current process.
\<close>

theorem process_on_two_cpus:
  "\<exists>s t p. (\<forall>p. rq (procs s p) = None \<and> \<not> on_rq (procs s p)) \<and> sched_step\<^sup>*\<^sup>* (sched_init 2 s) t \<and>
     current t 0 = Some p \<and> current t 1 = Some p \<and> pid (procs t p) \<noteq> 0"
proof (intro exI conjI)
  show "\<forall>p. rq (procs booted p) = None \<and> \<not> on_rq (procs booted p)"
    by (simp add: booted_def)
  show "sched_step\<^sup>*\<^sup>* (sched_init 2 booted) race_4"
    by (rule race_steps)
  show "current race_4 0 = Some 2" "current race_4 1 = Some 2" "pid (procs race_4 2) \<noteq> 0"
    by (simp_all add: race_eval)
qed

section \<open>The properties at concrete states\<close>

theorem run_queues_consistent_witness:
  "queue_ok race_4"
  by (rule run_queues_consistent [OF _ steps_sections [OF race_steps]]) (simp add: booted_def)

definition waking :: sched where
  "waking = upd_proc 2 (\<lambda>_. newborn 1 2) (booted\<lparr>sched_ncpu := 2\<rparr>)"

lemma waking_wf: "queue_wf waking"
proof -
  have "queue_ok (sched_init 2 booted)"
    by (intro init_wf) (simp add: booted_def)
  then have "queue_ok waking"
    unfolding waking_def init_booted [symmetric] by (rule new_proc_wf) (simp_all add: race_eval)
  then show ?thesis
    by (simp add: queue_wf_def waking_def booted_def newborn_def)
qed

theorem wakeup_least_loaded_witness:
  "rq (procs (wakeup_proc 2 waking) 2) = Some 1 \<and> 2 \<in> set_tree (pool (sched_rq (wakeup_proc 2 waking) 1))"
proof -
  have "rq (procs (wakeup_proc 2 waking) 2) = Some 1"
    by (simp add: waking_def race_eval)
  moreover have "\<not> sched_is_idle 2 waking" "state (procs waking 2) \<in> {PROC_UNINIT, PROC_SLEEPING}"
      "\<not> on_cpu (procs waking 2)" "0 < sched_ncpu waking"
    by (simp_all add: waking_def race_eval)
  ultimately show ?thesis
    using wakeup_least_loaded [OF waking_wf, of 2] by simp
qed

definition wrapped :: sched where
  "wrapped = booted\<lparr>sched_ncpu := 2,
     procs := (procs booted)(2 := (newborn 1 3)\<lparr>lab6_stride := 0xFFFFFFF0\<rparr>, 3 := (newborn 2 3)\<lparr>lab6_stride := 5\<rparr>),
     sched_rq := (sched_rq booted)(0 := \<lparr>proc_num = 2, max_time_slice = 5, pool = Node (Node Leaf 3 Leaf) 2 Leaf\<rparr>)\<rparr>"

theorem stride_pick_least_witness:
  "\<exists>t. stride_pick_next_for_cpu 0 (Some 1) wrapped = (Some 2, t) \<and> in_window 0xFFFFFFF0 (lab6_stride (procs t 3))"
proof -
  have p: "pool (sched_rq wrapped 0) = Node (Node Leaf 3 Leaf) 2 Leaf"
    by (simp add: wrapped_def)
  have "\<forall>p\<in>set_tree (pool (sched_rq wrapped 0)). in_window 0xFFFFFFF0 (lab6_stride (procs wrapped p))"
      "\<exists>p\<in>set_tree (pool (sched_rq wrapped 0)). proc_allowed_on_cpu (procs wrapped p) (Some 1)"
    by (simp_all add: p wrapped_def in_window_def race_eval)
  from stride_pick_least [OF this]
  have "\<exists>p t. stride_pick_next_for_cpu 0 (Some 1) wrapped = (Some p, t) \<and> p \<in> {2, 3} \<and>
     lab6_stride (procs wrapped p) - 0xFFFFFFF0 \<le> lab6_stride (procs wrapped 2) - 0xFFFFFFF0 \<and>
     in_window (lab6_stride (procs wrapped p)) (lab6_stride (procs t 3))"
    unfolding p by (force simp: wrapped_def race_eval)
  then show ?thesis
    by (auto simp: wrapped_def newborn_def)
qed

definition two_timers :: "nat \<Rightarrow> sched" where
  "two_timers d = booted\<lparr>timer_list := [\<lparr>expires = 1, timer_proc = 0, timer_id = 7\<rparr>, \<lparr>expires = d, timer_proc = 1, timer_id = 8\<rparr>]\<rparr>"

theorem timer_list_deadlines_witness:
  "set (due 0 (timer_list (del_timer 7 (two_timers 4)))) = {(8, 5)}"
proof -
  have "distinct (map timer_id (timer_list (two_timers 4)))" "set (due 0 (timer_list (two_timers 4))) = {(7, 1), (8, 5)}"
    by (simp_all add: two_timers_def)
  then show ?thesis
    using timer_list_deadlines [of "two_timers 4" 7] by auto
qed

definition sleeper :: sched where
  "sleeper = (two_timers 4)\<lparr>procs := (procs booted)(0 := (newborn 1 1)\<lparr>state := PROC_SLEEPING, wait_state := WT_TIMER\<rparr>)\<rparr>"

theorem timers_never_late_witness:
  "\<exists>t. ticks 1 0 sleeper = (Ok (), t) \<and> 7 \<notin> timer_id ` set (timer_list t) \<and> state (procs t 0) = PROC_RUNNABLE"
proof -
  have "distinct (map timer_id (timer_list sleeper))"
    "\<forall>tm\<in>set (timer_list sleeper). wait_state (procs sleeper (timer_proc tm)) = 0 \<or>
      wait_state (procs sleeper (timer_proc tm)) AND WT_INTERRUPTED \<noteq> 0"
    by (simp_all add: sleeper_def two_timers_def booted_def newborn_def)
  note n = timers_never_late [OF this(1) zero_less_one this(2), of 0]
  define tm where "tm = hd (timer_list sleeper)"
  have tm: "tm \<in> set (timer_list sleeper)" "timer_id tm = 7" "timer_proc tm = 0" "(7, 1) \<in> set (due 0 (timer_list sleeper))"
    "state (procs sleeper 0) = PROC_SLEEPING" "pid (procs sleeper 0) \<noteq> 0"
    by (simp_all add: tm_def sleeper_def two_timers_def newborn_def)
  obtain t where t: "ticks 1 0 sleeper = (Ok (), t)"
    "\<forall>tm d. tm \<in> set (timer_list sleeper) \<and> (timer_id tm, d) \<in> set (due 0 (timer_list sleeper)) \<and> d \<le> 1 \<longrightarrow>
       timer_id tm \<notin> timer_id ` set (timer_list t) \<and>
       (state (procs sleeper (timer_proc tm)) = PROC_SLEEPING \<and> pid (procs sleeper (timer_proc tm)) \<noteq> 0 \<longrightarrow>
          state (procs t (timer_proc tm)) = PROC_RUNNABLE \<and> wait_state (procs t (timer_proc tm)) = 0)"
    using n by blast
  show ?thesis
    using t(1) spec [OF spec [OF t(2), of tm], of 1] tm by auto
qed

theorem run_timer_list_fires_early_witness:
  "timer_list (snd (run_timer_list 0 (two_timers 1))) = []"
proof -
  have "run_timer_list 0 (two_timers 1) = (Ok (), snd (run_timer_list 0 (two_timers 1)))"
    by (simp add: two_timers_def run_timer_list_def race_eval)
  then show ?thesis
    by (rule run_timer_list_fires_early [rotated, where i = 7 and j = 8]) (simp add: two_timers_def)
qed

end
