(* ===== verification/Signal.thy ===== *)
theory Signal
  imports Net_Proto Pgfault Sched
begin

text \<open>
  Signals, from \<open>src/kern/process/signal.c\<close>: dispositions, masks, delivery on the way back to user mode and
  the return from a handler.  The kernel's view of a process is its \<open>signal_state\<close>, its exit flag, its
  saved registers and its address space; the scheduler part is that of \<open>Sched\<close>.  The frame that delivery
  leaves on the user stack is a sequence of bytes, laid out as the structures of the source.
\<close>

section \<open>State\<close>

abbreviation SIGKILL :: nat where "SIGKILL \<equiv> 9"
abbreviation SIGCHLD :: nat where "SIGCHLD \<equiv> 17"
abbreviation SIGCONT :: nat where "SIGCONT \<equiv> 18"
abbreviation SIGSTOP :: nat where "SIGSTOP \<equiv> 19"
abbreviation SIGTSTP :: nat where "SIGTSTP \<equiv> 20"
abbreviation UCORE_NSIG :: nat where "UCORE_NSIG \<equiv> 32"
abbreviation SIG_DFL :: u32 where "SIG_DFL \<equiv> 0"
abbreviation SIG_IGN :: u32 where "SIG_IGN \<equiv> 1"
abbreviation SIG_BLOCK :: int where "SIG_BLOCK \<equiv> 0"
abbreviation SIG_UNBLOCK :: int where "SIG_UNBLOCK \<equiv> 1"
abbreviation SIG_SETMASK :: int where "SIG_SETMASK \<equiv> 2"
abbreviation KERNEL_CS :: u16 where "KERNEL_CS \<equiv> 0x8"
abbreviation USER_CS :: u16 where "USER_CS \<equiv> 0x1B"
abbreviation USER_DS :: u16 where "USER_DS \<equiv> 0x23"
abbreviation FL_IF :: u32 where "FL_IF \<equiv> 0x200"
abbreviation FL_IOPL_MASK :: u32 where "FL_IOPL_MASK \<equiv> 0x3000"
abbreviation FL_NT :: u32 where "FL_NT \<equiv> 0x4000"
abbreviation FL_VM :: u32 where "FL_VM \<equiv> 0x20000"
abbreviation FL_VIF :: u32 where "FL_VIF \<equiv> 0x80000"
abbreviation FL_VIP :: u32 where "FL_VIP \<equiv> 0x100000"
abbreviation UCORE_SIGNAL_FRAME_MAGIC :: u32 where "UCORE_SIGNAL_FRAME_MAGIC \<equiv> 0x53494746"

record sigaction =
  sa_handler :: u32
  sa_restorer :: u32
  sa_flags :: u32
  sa_mask :: u32

record signal_state =
  action :: "sigaction list"
  pending :: u32
  blocked :: u32
  in_handler :: u32
  frame_ptr :: u32

record pushregs =
  reg_edi :: u32
  reg_esi :: u32
  reg_ebp :: u32
  reg_oesp :: u32
  reg_ebx :: u32
  reg_edx :: u32
  reg_ecx :: u32
  reg_eax :: u32

record trapframe =
  tf_regs :: pushregs
  tf_gs :: u16
  tf_padding0 :: u16
  tf_fs :: u16
  tf_padding1 :: u16
  tf_es :: u16
  tf_padding2 :: u16
  tf_ds :: u16
  tf_padding3 :: u16
  tf_trapno :: u32
  tf_err :: u32
  tf_eip :: u32
  tf_cs :: u16
  tf_padding4 :: u16
  tf_eflags :: u32
  tf_esp :: u32
  tf_ss :: u16
  tf_padding5 :: u16

record ucore_signal_frame =
  magic :: u32
  frame_signo :: u32
  saved_mask :: u32
  saved_frame :: u32
  saved_tf :: trapframe
  restorer :: u32

text \<open>
  The processes of the kernel: \<open>mm_of\<close> is the address space of a process, which several processes may share,
  and \<open>umem\<close> the memory of an address space.
\<close>

record kernel =
  sch :: sched
  signal :: "nat \<Rightarrow> signal_state"
  pf_exiting :: "nat \<Rightarrow> bool"
  tf :: "nat \<Rightarrow> trapframe"
  mm_of :: "nat \<Rightarrow> nat option"
  mms :: "nat \<Rightarrow> mm_struct"
  umem :: "nat \<Rightarrow> nat \<Rightarrow> u8"

definition upd_signal :: "nat \<Rightarrow> (signal_state \<Rightarrow> signal_state) \<Rightarrow> kernel \<Rightarrow> kernel" where
  "upd_signal p f k = k\<lparr>signal := (signal k)(p := f (signal k p))\<rparr>"

definition set_exiting :: "nat \<Rightarrow> kernel \<Rightarrow> kernel" where
  "set_exiting p k = k\<lparr>pf_exiting := (pf_exiting k)(p := True)\<rparr>"

section \<open>Dispositions and masks\<close>

definition signal_number_valid :: "int \<Rightarrow> bool" where
  "signal_number_valid signo \<longleftrightarrow> signo > 0 \<and> signo < int UCORE_NSIG"

definition signal_bit :: "nat \<Rightarrow> u32" where
  "signal_bit signo = push_bit signo 1"

definition signal_uncatchable :: "nat \<Rightarrow> bool" where
  "signal_uncatchable signo \<longleftrightarrow> signo = SIGKILL \<or> signo = SIGSTOP"

definition signal_default_stops :: "nat \<Rightarrow> bool" where
  "signal_default_stops signo \<longleftrightarrow> signo = SIGSTOP \<or> signo = SIGTSTP"

definition signal_default_ignored :: "nat \<Rightarrow> bool" where
  "signal_default_ignored signo \<longleftrightarrow> signo = SIGCHLD \<or> signo = SIGCONT"

definition signal_state_init :: signal_state where
  "signal_state_init =
     \<lparr>action = replicate UCORE_NSIG \<lparr>sa_handler = SIG_DFL, sa_restorer = 0, sa_flags = 0, sa_mask = 0\<rparr>,
      pending = 0, blocked = 0, in_handler = 0, frame_ptr = 0\<rparr>"

definition signal_state_fork :: "signal_state \<Rightarrow> signal_state" where
  "signal_state_fork g = signal_state_init\<lparr>action := action g, blocked := blocked g\<rparr>"

definition signal_state_exec :: "signal_state \<Rightarrow> signal_state" where
  "signal_state_exec g =
     g\<lparr>action := map (\<lambda>a. \<lparr>sa_handler = (if sa_handler a \<noteq> SIG_IGN then SIG_DFL else sa_handler a),
          sa_restorer = 0, sa_flags = 0, sa_mask = 0\<rparr>) (action g),
       pending := 0, blocked := 0, in_handler := 0, frame_ptr := 0\<rparr>"

definition queue_signal :: "nat \<Rightarrow> signal_state \<Rightarrow> signal_state" where
  "queue_signal signo g = (
     let g = (if signo = SIGCONT then g\<lparr>pending := pending g AND NOT (signal_bit SIGSTOP)\<rparr>
              else if signo = SIGSTOP then g\<lparr>pending := pending g AND NOT (signal_bit SIGCONT)\<rparr> else g)
     in g\<lparr>pending := pending g OR signal_bit signo\<rparr>)"

definition signal_queue :: "nat \<Rightarrow> int \<Rightarrow> kernel \<Rightarrow> unit outcome \<times> kernel" where
  "signal_queue p signo k = (
     if \<not> signal_number_valid signo then (Err E_INVAL, k)
     else (Ok (), upd_signal p (queue_signal (nat signo)) k))"

definition signal_get_action :: "nat \<Rightarrow> int \<Rightarrow> kernel \<Rightarrow> sigaction outcome" where
  "signal_get_action p signo k = (
     if \<not> signal_number_valid signo then Err E_INVAL else Ok (action (signal k p) ! nat signo))"

definition signal_set_action :: "nat \<Rightarrow> int \<Rightarrow> sigaction option \<Rightarrow> kernel \<Rightarrow> unit outcome \<times> kernel" where
  "signal_set_action p signo act k = (
     case act of
       None \<Rightarrow> (Err E_INVAL, k)
     | Some a \<Rightarrow>
         if \<not> signal_number_valid signo then (Err E_INVAL, k)
         else if signal_uncatchable (nat signo) \<and> sa_handler a \<noteq> SIG_DFL then (Err E_INVAL, k)
         else (Ok (), upd_signal p (\<lambda>g. g\<lparr>action := (action g)[nat signo := a]\<rparr>) k))"

text \<open>The argument \<open>old\<close> says whether the caller asks for the old action.\<close>

definition signal_exchange_action ::
    "nat \<Rightarrow> int \<Rightarrow> sigaction option \<Rightarrow> bool \<Rightarrow> kernel \<Rightarrow> sigaction option outcome \<times> kernel" where
  "signal_exchange_action p signo new old k = (
     if \<not> signal_number_valid signo \<or> (new = None \<and> \<not> old) then (Err E_INVAL, k)
     else if (case new of Some a \<Rightarrow> signal_uncatchable (nat signo) \<and> sa_handler a \<noteq> SIG_DFL | None \<Rightarrow> False)
     then (Err E_INVAL, k)
     else
       (Ok (if old then Some (action (signal k p) ! nat signo) else None),
        case new of Some a \<Rightarrow> upd_signal p (\<lambda>g. g\<lparr>action := (action g)[nat signo := a]\<rparr>) k | None \<Rightarrow> k))"

definition signal_get_mask :: "nat \<Rightarrow> kernel \<Rightarrow> u32" where
  "signal_get_mask p k = blocked (signal k p)"

definition signal_set_mask :: "nat \<Rightarrow> int \<Rightarrow> u32 \<Rightarrow> kernel \<Rightarrow> unit outcome \<times> kernel" where
  "signal_set_mask p how m k = (
     if how \<noteq> SIG_BLOCK \<and> how \<noteq> SIG_UNBLOCK \<and> how \<noteq> SIG_SETMASK then (Err E_INVAL, k)
     else
       let m = m AND NOT (signal_bit SIGKILL) AND NOT (signal_bit SIGSTOP) in
       (Ok (), upd_signal p (\<lambda>g. g\<lparr>blocked :=
          (if how = SIG_BLOCK then blocked g OR m
           else if how = SIG_UNBLOCK then blocked g AND NOT m
           else m)\<rparr>) k))"

definition ready_signals :: "signal_state \<Rightarrow> u32" where
  "ready_signals g =
     (pending g AND NOT (blocked g)) OR (pending g AND (signal_bit SIGKILL OR signal_bit SIGSTOP))"

definition signal_should_interrupt :: "nat \<Rightarrow> kernel \<Rightarrow> bool" where
  "signal_should_interrupt p k = (
     let g = signal k p in
     list_ex (\<lambda>signo. ready_signals g AND signal_bit signo \<noteq> 0 \<and>
        (signal_uncatchable signo \<or>
         (sa_handler (action g ! signo) \<noteq> SIG_IGN \<and>
          \<not> (sa_handler (action g ! signo) = SIG_DFL \<and> signal_default_ignored signo))))
       [1..<UCORE_NSIG])"

definition signal_next_locked :: "signal_state \<Rightarrow> nat" where
  "signal_next_locked g = (
     case find (\<lambda>signo. ready_signals g AND signal_bit signo \<noteq> 0) [1..<UCORE_NSIG] of
       Some signo \<Rightarrow> signo | None \<Rightarrow> 0)"

section \<open>The frame on the user stack\<close>

definition tf_bytes :: "trapframe \<Rightarrow> u8 list" where
  "tf_bytes t = (let r = tf_regs t in
     le32_bytes (reg_edi r) @ le32_bytes (reg_esi r) @ le32_bytes (reg_ebp r) @ le32_bytes (reg_oesp r) @
     le32_bytes (reg_ebx r) @ le32_bytes (reg_edx r) @ le32_bytes (reg_ecx r) @ le32_bytes (reg_eax r) @
     le16_bytes (tf_gs t) @ le16_bytes (tf_padding0 t) @ le16_bytes (tf_fs t) @ le16_bytes (tf_padding1 t) @
     le16_bytes (tf_es t) @ le16_bytes (tf_padding2 t) @ le16_bytes (tf_ds t) @ le16_bytes (tf_padding3 t) @
     le32_bytes (tf_trapno t) @ le32_bytes (tf_err t) @ le32_bytes (tf_eip t) @
     le16_bytes (tf_cs t) @ le16_bytes (tf_padding4 t) @ le32_bytes (tf_eflags t) @ le32_bytes (tf_esp t) @
     le16_bytes (tf_ss t) @ le16_bytes (tf_padding5 t))"

definition frame_bytes :: "ucore_signal_frame \<Rightarrow> u8 list" where
  "frame_bytes f = le32_bytes (magic f) @ le32_bytes (frame_signo f) @ le32_bytes (saved_mask f) @
     le32_bytes (saved_frame f) @ tf_bytes (saved_tf f) @ le32_bytes (restorer f)"

definition word_at :: "u8 list \<Rightarrow> nat \<Rightarrow> u32" where
  "word_at bs i = le32_of (bs ! i) (bs ! (i + 1)) (bs ! (i + 2)) (bs ! (i + 3))"

definition half_at :: "u8 list \<Rightarrow> nat \<Rightarrow> u16" where
  "half_at bs i = le16_of (bs ! i) (bs ! (i + 1))"

definition tf_of :: "u8 list \<Rightarrow> nat \<Rightarrow> trapframe" where
  "tf_of bs i =
     \<lparr>tf_regs = \<lparr>reg_edi = word_at bs i, reg_esi = word_at bs (i + 4), reg_ebp = word_at bs (i + 8),
        reg_oesp = word_at bs (i + 12), reg_ebx = word_at bs (i + 16), reg_edx = word_at bs (i + 20),
        reg_ecx = word_at bs (i + 24), reg_eax = word_at bs (i + 28)\<rparr>,
      tf_gs = half_at bs (i + 32), tf_padding0 = half_at bs (i + 34), tf_fs = half_at bs (i + 36),
      tf_padding1 = half_at bs (i + 38), tf_es = half_at bs (i + 40), tf_padding2 = half_at bs (i + 42),
      tf_ds = half_at bs (i + 44), tf_padding3 = half_at bs (i + 46), tf_trapno = word_at bs (i + 48),
      tf_err = word_at bs (i + 52), tf_eip = word_at bs (i + 56), tf_cs = half_at bs (i + 60),
      tf_padding4 = half_at bs (i + 62), tf_eflags = word_at bs (i + 64), tf_esp = word_at bs (i + 68),
      tf_ss = half_at bs (i + 72), tf_padding5 = half_at bs (i + 74)\<rparr>"

definition frame_of :: "u8 list \<Rightarrow> ucore_signal_frame" where
  "frame_of bs = \<lparr>magic = word_at bs 0, frame_signo = word_at bs 4, saved_mask = word_at bs 8,
     saved_frame = word_at bs 12, saved_tf = tf_of bs 16, restorer = word_at bs 92\<rparr>"

section \<open>Delivery\<close>

text \<open>An operation on an address space of the kernel.\<close>

definition with_mm :: "nat \<Rightarrow> (mm_struct option \<Rightarrow> 'a outcome \<times> mm_struct option) \<Rightarrow> kernel \<Rightarrow> 'a outcome \<times> kernel" where
  "with_mm m f k = (
     case f (Some (mms k m)) of
       (r, Some mm) \<Rightarrow> (r, k\<lparr>mms := (mms k)(m := mm)\<rparr>)
     | (r, None) \<Rightarrow> (r, k))"

definition signal_user_address :: "nat \<Rightarrow> u32 \<Rightarrow> kernel \<Rightarrow> bool outcome \<times> kernel" where
  "signal_user_address m a k = (
     if USERBASE \<le> unat a \<and> unat a < USERTOP then with_mm m (user_mem_check (unat a) 1 False) k
     else (Ok False, k))"

definition to_user :: "nat \<Rightarrow> nat \<Rightarrow> u8 list \<Rightarrow> kernel \<Rightarrow> bool outcome \<times> kernel" where
  "to_user m dst bs k =
     sbind (with_mm m (copy_to_user (umem k m) dst bs) k) (\<lambda>u k.
       case u of Some mem \<Rightarrow> (Ok True, k\<lparr>umem := (umem k)(m := mem)\<rparr>) | None \<Rightarrow> (Ok False, k))"

text \<open>The conditions of a short-circuit conjunction, each of which may change the caches of the address space.\<close>

definition and_then :: "bool outcome \<times> kernel \<Rightarrow> (kernel \<Rightarrow> bool outcome \<times> kernel) \<Rightarrow> bool outcome \<times> kernel" where
  "and_then m f = sbind m (\<lambda>ok k. if ok then f k else (Ok False, k))"

definition handler_failed :: "nat \<Rightarrow> u32 \<Rightarrow> kernel \<Rightarrow> nat outcome \<times> kernel" where
  "handler_failed p old_mask k =
     (Ok 1, set_exiting p (upd_signal p (\<lambda>g. g\<lparr>blocked := old_mask, in_handler := 0, frame_ptr := 0\<rparr>) k))"

definition write_frame :: "nat \<Rightarrow> sigaction \<Rightarrow> nat \<Rightarrow> nat \<Rightarrow> u8 list \<Rightarrow> u8 list \<Rightarrow> kernel \<Rightarrow> bool outcome \<times> kernel" where
  "write_frame m act sp fa words bytes k =
     and_then (if sa_restorer act = 0 then (Ok False, k) else signal_user_address m (sa_handler act) k) (\<lambda>k.
     and_then (signal_user_address m (sa_restorer act) k) (\<lambda>k.
     and_then (with_mm m (user_mem_check sp 8 True) k) (\<lambda>k.
     and_then (with_mm m (user_mem_check fa 96 True) k) (\<lambda>k.
     and_then (to_user m sp words k) (\<lambda>k.
     to_user m fa bytes k)))))"

definition enter_handler :: "nat \<Rightarrow> nat \<Rightarrow> nat \<Rightarrow> sigaction \<Rightarrow> kernel \<Rightarrow> nat outcome \<times> kernel" where
  "enter_handler p m signo act k = (
     let old_mask = blocked (signal k p);
         k = upd_signal p (\<lambda>g. g\<lparr>in_handler := of_nat signo, blocked := blocked g OR sa_mask act OR signal_bit signo\<rparr>) k;
         esp = unat (tf_esp (tf k p))
     in if esp < USERBASE + 96 + 8 then handler_failed p old_mask k
     else
       let handler_sp = ROUNDDOWN (esp - 96 - 8) 16;
           frame_address = handler_sp + 8;
           frame = \<lparr>magic = UCORE_SIGNAL_FRAME_MAGIC, frame_signo = of_nat signo, saved_mask = old_mask,
             saved_frame = of_nat frame_address, saved_tf = tf k p, restorer = sa_restorer act\<rparr>;
           stack_words = le32_bytes (sa_restorer act) @ le32_bytes (of_nat signo)
       in
         case write_frame m act handler_sp frame_address stack_words (frame_bytes frame) k of
           (Ok True, k) \<Rightarrow>
             (Ok 1, (upd_signal p (\<lambda>g. g\<lparr>frame_ptr := of_nat frame_address\<rparr>) k)
                \<lparr>tf := (tf k)(p := (tf k p)\<lparr>tf_esp := of_nat handler_sp, tf_eip := sa_handler act,
                   tf_regs := (tf_regs (tf k p))\<lparr>reg_eax := 0\<rparr>\<rparr>)\<rparr>)
         | (Ok False, k) \<Rightarrow> handler_failed p old_mask k
         | (Err e, k) \<Rightarrow> (Err e, k)
         | (Fault, k) \<Rightarrow> (Fault, k))"

definition stop_current :: "nat \<Rightarrow> kernel \<Rightarrow> kernel" where
  "stop_current p k = (
     if state (procs (sch k) p) \<noteq> PROC_ZOMBIE
     then k\<lparr>sch := upd_proc p (\<lambda>g. g\<lparr>need_resched := True\<rparr>) (sched_stop_locked p (sch k))\<rparr> else k)"

lemma signal_bit_iff: "w AND signal_bit n \<noteq> 0 \<longleftrightarrow> n < 32 \<and> bit w n"
  unfolding signal_bit_def by (rule and_bit)

lemma bit_signal_bit: "bit (signal_bit n) k \<longleftrightarrow> k = n \<and> n < 32"
  using bit_imp_le_length [of "signal_bit n" k]
  unfolding signal_bit_def bit_push_bit_iff bit_1_iff possible_bit_word by auto

text \<open>Each round of the loop takes one signal out of the pending ones.\<close>

lemma next_signal_ready:
  assumes "signal_next_locked g \<noteq> 0"
  shows "pending g AND signal_bit (signal_next_locked g) \<noteq> 0" "signal_next_locked g < UCORE_NSIG"
    "ready_signals g AND signal_bit (signal_next_locked g) \<noteq> 0"
proof -
  obtain n where n: "find (\<lambda>signo. ready_signals g AND signal_bit signo \<noteq> 0) [1..<UCORE_NSIG] = Some n"
    using assms by (cases "find (\<lambda>signo. ready_signals g AND signal_bit signo \<noteq> 0) [1..<UCORE_NSIG]")
      (simp_all add: signal_next_locked_def)
  then have "signal_next_locked g = n"
    by (simp add: signal_next_locked_def)
  moreover have "n < UCORE_NSIG" "ready_signals g AND signal_bit n \<noteq> 0"
    using n by (auto simp: find_Some_iff)
  moreover from this(2) have "pending g AND signal_bit n \<noteq> 0"
    by (auto simp: signal_bit_iff ready_signals_def bit_or_iff bit_and_iff)
  ultimately show "pending g AND signal_bit (signal_next_locked g) \<noteq> 0" "signal_next_locked g < UCORE_NSIG"
    "ready_signals g AND signal_bit (signal_next_locked g) \<noteq> 0"
    by simp_all
qed

lemma take_signal:
  assumes "w AND signal_bit n \<noteq> 0"
  shows "unat (w AND NOT (signal_bit n)) < unat w"
proof -
  have "n < 32" "bit w n"
    using assms by (simp_all add: signal_bit_iff)
  then have "bit (w AND NOT (signal_bit n)) n \<noteq> bit w n"
    by (simp add: bit_and_iff bit_not_iff bit_signal_bit)
  then have "w AND NOT (signal_bit n) \<noteq> w"
    by metis
  moreover have "uint (w AND NOT (signal_bit n)) \<le> uint w"
    using AND_upper1 [of "uint w" "uint (NOT (signal_bit n))"] by (simp only: unsigned_and_eq uint_ge_0)
  ultimately show ?thesis
    by (metis linorder_neqE_nat not_less unat_mono word_le_def word_less_nat_alt word_unat_eq_iff)
qed

function deliver_loop :: "nat \<Rightarrow> nat \<Rightarrow> kernel \<Rightarrow> nat outcome \<times> kernel" where
  "deliver_loop p m k = (
     let g = signal k p; signo = signal_next_locked g in
     if (in_handler g \<noteq> 0 \<and> pending g AND (signal_bit SIGKILL OR signal_bit SIGSTOP) = 0) \<or> signo = 0 then (Ok 0, k)
     else
       let act = action g ! signo;
           k = upd_signal p (\<lambda>g. g\<lparr>pending := pending g AND NOT (signal_bit signo)\<rparr>) k
       in if sa_handler act = SIG_IGN \<or> (sa_handler act = SIG_DFL \<and> signal_default_ignored signo)
          then deliver_loop p m k
          else if signal_default_stops signo \<and> sa_handler act = SIG_DFL then (Ok 1, stop_current p k)
          else if sa_handler act = SIG_DFL then (Ok 1, set_exiting p k)
          else enter_handler p m signo act k)"
  by auto
termination
  by (relation "measure (\<lambda>(p, m, k). unat (pending (signal k p)))")
    (auto simp: upd_signal_def intro!: take_signal next_signal_ready)

declare deliver_loop.simps [simp del]

definition signal_deliver :: "nat \<Rightarrow> kernel \<Rightarrow> nat outcome \<times> kernel" where
  "signal_deliver p k = (
     if tf_cs (tf k p) = KERNEL_CS then (Ok 0, k)
     else case mm_of k p of None \<Rightarrow> (Ok 0, k) | Some m \<Rightarrow> deliver_loop p m k)"

section \<open>Return from a handler\<close>

definition signal_frame_valid :: "nat \<Rightarrow> ucore_signal_frame \<Rightarrow> u32 \<Rightarrow> kernel \<Rightarrow> bool outcome \<times> kernel" where
  "signal_frame_valid m f frame_address k = (
     let t = saved_tf f in
     if magic f \<noteq> UCORE_SIGNAL_FRAME_MAGIC \<or> saved_frame f \<noteq> frame_address \<or>
        tf_cs t \<noteq> USER_CS \<or> tf_ss t \<noteq> USER_DS \<or> tf_ds t \<noteq> USER_DS \<or> tf_es t \<noteq> USER_DS \<or>
        tf_fs t \<noteq> USER_DS \<or> tf_gs t \<noteq> USER_DS \<or>
        tf_eflags t AND (FL_IOPL_MASK OR FL_NT OR FL_VM OR FL_VIF OR FL_VIP) \<noteq> 0 \<or>
        tf_eflags t AND 2 = 0 \<or> tf_eflags t AND FL_IF = 0
     then (Ok False, k)
     else and_then (signal_user_address m (tf_eip t) k) (\<lambda>k.
       (Ok (USERBASE \<le> unat (tf_esp t) \<and> unat (tf_esp t) \<le> USERTOP), k)))"

definition signal_sigreturn :: "nat \<Rightarrow> kernel \<Rightarrow> unit outcome \<times> kernel" where
  "signal_sigreturn p k = (
     case mm_of k p of
       None \<Rightarrow> (Err E_INVAL, k)
     | Some m \<Rightarrow>
         let fa = frame_ptr (signal k p) in
         if in_handler (signal k p) = 0 \<or> fa = 0 then (Err E_INVAL, k)
         else
           sbind (with_mm m (user_mem_check (unat fa) 96 False) k) (\<lambda>ok k.
           sbind (if ok then with_mm m (copy_from_user (umem k m) (unat fa) 96 False) k else (Ok None, k)) (\<lambda>bs k.
           sbind (case bs of Some bs \<Rightarrow> signal_frame_valid m (frame_of bs) fa k | None \<Rightarrow> (Ok False, k)) (\<lambda>ok k.
             if \<not> ok then (Err E_KILLED, set_exiting p k)
             else
               let f = frame_of (the bs) in
               (Ok (), (upd_signal p (\<lambda>g. g\<lparr>
                   blocked := saved_mask f AND NOT (signal_bit SIGKILL OR signal_bit SIGSTOP),
                   frame_ptr := 0, in_handler := 0\<rparr>) k)\<lparr>tf := (tf k)(p := saved_tf f)\<rparr>)))))"

section \<open>Checks of user memory\<close>

text \<open>A step that changes at most the caches of the address spaces.\<close>

definition same_but_cache :: "kernel \<Rightarrow> kernel \<Rightarrow> bool" where
  "same_but_cache k l \<longleftrightarrow> l = k\<lparr>mms := mms l\<rparr> \<and> (\<forall>m. \<exists>c. mms l m = (mms k m)\<lparr>mmap_cache := c\<rparr>) \<and>
     (\<forall>m. mm_wf (mms k m) \<longrightarrow> mm_wf (mms l m))"

lemma cache_id [simp]: "\<exists>c. mm = mm\<lparr>mmap_cache := c\<rparr>"
  by (rule exI [of _ "mmap_cache mm"]) simp

lemma same_but_cache_refl [simp]: "same_but_cache k k"
  by (simp add: same_but_cache_def)

lemma same_but_cache_trans:
  assumes "same_but_cache k l" "same_but_cache l n"
  shows "same_but_cache k n"
proof -
  have l: "l = k\<lparr>mms := mms l\<rparr>" "\<And>m. \<exists>c. mms l m = (mms k m)\<lparr>mmap_cache := c\<rparr>" "\<And>m. mm_wf (mms k m) \<longrightarrow> mm_wf (mms l m)"
    using assms(1) unfolding same_but_cache_def by blast+
  have n: "n = l\<lparr>mms := mms n\<rparr>" "\<And>m. \<exists>c. mms n m = (mms l m)\<lparr>mmap_cache := c\<rparr>" "\<And>m. mm_wf (mms l m) \<longrightarrow> mm_wf (mms n m)"
    using assms(2) unfolding same_but_cache_def by blast+
  have "l\<lparr>mms := mms n\<rparr> = k\<lparr>mms := mms n\<rparr>"
    by (subst l(1)) simp
  with n(1) have "n = k\<lparr>mms := mms n\<rparr>"
    by simp
  moreover have "\<exists>c. mms n m = (mms k m)\<lparr>mmap_cache := c\<rparr>" for m
    using l(2) [of m] n(2) [of m] by auto
  ultimately show ?thesis
    using l(3) n(3) unfolding same_but_cache_def by blast
qed

lemma same_but_cacheD:
  assumes "same_but_cache k l"
  shows "signal l = signal k" "pf_exiting l = pf_exiting k" "tf l = tf k" "mm_of l = mm_of k" "umem l = umem k" "sch l = sch k"
    "mmap_list (mms l m) = mmap_list (mms k m)" "mm_wf (mms k m) \<Longrightarrow> mm_wf (mms l m)"
proof -
  have l: "l = k\<lparr>mms := mms l\<rparr>" "\<exists>c. mms l m = (mms k m)\<lparr>mmap_cache := c\<rparr>" "mm_wf (mms k m) \<longrightarrow> mm_wf (mms l m)"
    using assms unfolding same_but_cache_def by blast+
  show "signal l = signal k" "pf_exiting l = pf_exiting k" "tf l = tf k" "mm_of l = mm_of k" "umem l = umem k" "sch l = sch k"
    by (subst l(1), simp)+
  show "mmap_list (mms l m) = mmap_list (mms k m)" "mm_wf (mms k m) \<Longrightarrow> mm_wf (mms l m)"
    using l(2,3) by auto
qed

definition mem_ok :: "bool \<Rightarrow> nat \<Rightarrow> nat \<Rightarrow> mm_struct \<Rightarrow> bool" where
  "mem_ok w addr len mm \<longleftrightarrow> 0 < len \<and> USERBASE \<le> addr \<and> addr + len \<le> USERTOP \<and>
     (\<forall>a. addr \<le> a \<and> a < addr + len \<longrightarrow> access_ok w (mmap_list mm) a)"

lemma mem_ok_cache: "same_but_cache k l \<Longrightarrow> mem_ok w addr len (mms l m) = mem_ok w addr len (mms k m)"
  unfolding mem_ok_def by (simp add: same_but_cacheD(7))

lemma check_ok:
  assumes "mm_wf (mms k m)" "addr < 2 ^ 32" "len < 2 ^ 32"
  obtains l where "with_mm m (user_mem_check addr len w) k = (Ok (mem_ok w addr len (mms k m)), l)" "same_but_cache k l"
proof -
  obtain c where c: "user_mem_check addr len w (Some (mms k m)) =
      (Ok (mem_ok w addr len (mms k m)), Some ((mms k m)\<lparr>mmap_cache := c\<rparr>))" "mm_wf ((mms k m)\<lparr>mmap_cache := c\<rparr>)"
    using user_mem_check_decides [OF assms, of w] unfolding mem_ok_def by blast
  let ?l = "k\<lparr>mms := (mms k)(m := (mms k m)\<lparr>mmap_cache := c\<rparr>)\<rparr>"
  have "same_but_cache k ?l"
    using c(2) by (auto simp: same_but_cache_def)
  then show thesis
    using that c(1) by (simp add: with_mm_def)
qed

text \<open>A step that changes at most caches and user memory.\<close>

definition quiet :: "kernel \<Rightarrow> kernel \<Rightarrow> bool" where
  "quiet k l \<longleftrightarrow> signal l = signal k \<and> pf_exiting l = pf_exiting k \<and> tf l = tf k \<and> mm_of l = mm_of k \<and> sch l = sch k \<and>
     (\<forall>m. mmap_list (mms l m) = mmap_list (mms k m)) \<and> (\<forall>m. mm_wf (mms k m) \<longrightarrow> mm_wf (mms l m))"

lemma quiet_trans: "quiet k l \<Longrightarrow> quiet l n \<Longrightarrow> quiet k n"
  unfolding quiet_def by simp

lemma quiet_cache: "same_but_cache k l \<Longrightarrow> quiet k l"
  unfolding quiet_def using same_but_cacheD by simp

lemma quiet_umem [simp]: "quiet k (l\<lparr>umem := u\<rparr>) = quiet k l"
  unfolding quiet_def by simp

lemma quietD:
  assumes "quiet k l"
  shows "signal l = signal k" "pf_exiting l = pf_exiting k" "tf l = tf k" "mm_of l = mm_of k" "sch l = sch k"
    "mmap_list (mms l m) = mmap_list (mms k m)" "mm_wf (mms k m) \<Longrightarrow> mm_wf (mms l m)"
    "mem_ok w addr len (mms l m) = mem_ok w addr len (mms k m)"
  using assms unfolding quiet_def mem_ok_def by simp_all

lemma and_then_simps [simp]:
  "and_then (Ok True, k) f = f k" "and_then (Ok False, k) f = (Ok False, k)"
  by (simp_all add: and_then_def)

lemma user_address_ok:
  assumes "mm_wf (mms k m)"
  obtains b l where "signal_user_address m a k = (Ok b, l)" "same_but_cache k l" "b \<longrightarrow> mem_ok False (unat a) 1 (mms k m)"
    "mem_ok False (unat a) 1 (mms k m) \<longrightarrow> b"
proof (cases "USERBASE \<le> unat a \<and> unat a < USERTOP")
  case True
  have "unat a < 2 ^ 32"
    using unat_lt_u32 [of a] by simp
  then obtain l where "with_mm m (user_mem_check (unat a) 1 False) k = (Ok (mem_ok False (unat a) 1 (mms k m)), l)" "same_but_cache k l"
    using check_ok [OF assms, of "unat a" 1 False] by auto
  with True show thesis
    using that by (simp add: signal_user_address_def)
next
  case False
  then have "\<not> mem_ok False (unat a) 1 (mms k m)"
    by (auto simp: mem_ok_def)
  with False show thesis
    using that [of False k] by (auto simp: signal_user_address_def)
qed

lemma to_user_ok:
  assumes "mm_wf (mms k m)" "dst < 2 ^ 32" "length bs < 2 ^ 32"
  obtains l where "to_user m dst bs k = (Ok (mem_ok True dst (length bs) (mms k m)), l)" "quiet k l"
    "mem_ok True dst (length bs) (mms k m) \<longrightarrow> umem l = (umem k)(m := write_user (umem k m) dst bs)"
proof -
  obtain l where l: "with_mm m (user_mem_check dst (length bs) True) k = (Ok (mem_ok True dst (length bs) (mms k m)), l)"
      "same_but_cache k l"
    using check_ok [OF assms] by blast
  have "with_mm m (copy_to_user (umem k m) dst bs) k =
      (Ok (if mem_ok True dst (length bs) (mms k m) then Some (write_user (umem k m) dst bs) else None), l)"
    using l(1) by (auto simp: with_mm_def copy_to_user_def split: prod.splits option.splits outcome.splits)
  then show thesis
    using that [of "if mem_ok True dst (length bs) (mms k m) then l\<lparr>umem := (umem k)(m := write_user (umem k m) dst bs)\<rparr> else l"]
      quiet_cache [OF l(2)] same_but_cacheD(5) [OF l(2)] by (simp add: to_user_def)
qed

lemma read_write_user: "read_user (write_user u a bs) a (length bs) = bs"
  by (auto simp: read_user_def write_user_def intro!: nth_equalityI)

text \<open>
  \<open>decides k f b Q\<close>: from every state that differs from \<open>k\<close> only quietly, the check \<open>f\<close> answers \<open>b\<close>, and when
  the answer is yes the state it leaves satisfies \<open>Q\<close>.
\<close>

definition decides :: "kernel \<Rightarrow> (kernel \<Rightarrow> bool outcome \<times> kernel) \<Rightarrow> bool \<Rightarrow> (kernel \<Rightarrow> bool) \<Rightarrow> bool" where
  "decides k f b Q \<longleftrightarrow> (\<forall>l. quiet k l \<longrightarrow> (\<exists>n. f l = (Ok b, n) \<and> quiet k n \<and> (b \<longrightarrow> Q n)))"

lemma decides_and:
  assumes "decides k f b P" "decides k g c Q"
  shows "decides k (\<lambda>l. and_then (f l) g) (b \<and> c) Q"
  unfolding decides_def
proof (intro allI impI)
  fix l
  assume "quiet k l"
  then obtain n where n: "f l = (Ok b, n)" "quiet k n"
    using assms(1) unfolding decides_def by blast
  then show "\<exists>n. and_then (f l) g = (Ok (b \<and> c), n) \<and> quiet k n \<and> (b \<and> c \<longrightarrow> Q n)"
    using assms(2) unfolding decides_def by (cases b) auto
qed

lemma decides_check:
  assumes "mm_wf (mms k m)" "addr < 2 ^ 32" "len < 2 ^ 32"
  shows "decides k (with_mm m (user_mem_check addr len w)) (mem_ok w addr len (mms k m)) (\<lambda>_. True)"
  unfolding decides_def
proof (intro allI impI)
  fix l
  assume l: "quiet k l"
  show "\<exists>n. with_mm m (user_mem_check addr len w) l = (Ok (mem_ok w addr len (mms k m)), n) \<and> quiet k n \<and>
      (mem_ok w addr len (mms k m) \<longrightarrow> True)"
    by (rule check_ok [OF quietD(7) [OF l assms(1)] assms(2,3), of w])
      (use quietD(8) [OF l] quiet_trans [OF l quiet_cache] in auto)
qed

lemma decides_address:
  assumes "mm_wf (mms k m)"
  shows "decides k (signal_user_address m a) (mem_ok False (unat a) 1 (mms k m)) (\<lambda>_. True)"
  unfolding decides_def
proof (intro allI impI)
  fix l
  assume l: "quiet k l"
  show "\<exists>n. signal_user_address m a l = (Ok (mem_ok False (unat a) 1 (mms k m)), n) \<and> quiet k n \<and>
      (mem_ok False (unat a) 1 (mms k m) \<longrightarrow> True)"
    by (rule user_address_ok [OF quietD(7) [OF l assms(1)], of a])
      (use quietD(8) [OF l] quiet_trans [OF l quiet_cache] in auto)
qed

lemma decides_to_user:
  assumes "mm_wf (mms k m)" "dst < 2 ^ 32" "length bs < 2 ^ 32"
  shows "decides k (to_user m dst bs) (mem_ok True dst (length bs) (mms k m)) (\<lambda>n. read_user (umem n m) dst (length bs) = bs)"
  unfolding decides_def
proof (intro allI impI)
  fix l
  assume l: "quiet k l"
  show "\<exists>n. to_user m dst bs l = (Ok (mem_ok True dst (length bs) (mms k m)), n) \<and> quiet k n \<and>
      (mem_ok True dst (length bs) (mms k m) \<longrightarrow> read_user (umem n m) dst (length bs) = bs)"
    by (rule to_user_ok [OF quietD(7) [OF l assms(1)] assms(2,3)])
      (use quietD(8) [OF l] quiet_trans [OF l] read_write_user in auto)
qed

text \<open>When a handler can be entered: its address, the return address and the room on the stack are the user's.\<close>

definition frame_fits :: "sigaction \<Rightarrow> nat \<Rightarrow> mm_struct \<Rightarrow> bool" where
  "frame_fits act sp mm \<longleftrightarrow> sa_restorer act \<noteq> 0 \<and> mem_ok False (unat (sa_handler act)) 1 mm \<and>
     mem_ok False (unat (sa_restorer act)) 1 mm \<and> mem_ok True sp 8 mm \<and> mem_ok True (sp + 8) 96 mm"

lemma write_frame_ok:
  assumes wf: "mm_wf (mms k m)" and a: "sp + 8 < 2 ^ 32" "length words = 8" "length bytes = 96"
  obtains l where "write_frame m act sp (sp + 8) words bytes k = (Ok (frame_fits act sp (mms k m)), l)" "quiet k l"
    "frame_fits act sp (mms k m) \<Longrightarrow> read_user (umem l m) (sp + 8) 96 = bytes"
proof -
  have sp: "sp < 2 ^ 32"
    using a(1) by simp
  have first: "decides k (\<lambda>k. if sa_restorer act = 0 then (Ok False, k) else signal_user_address m (sa_handler act) k)
      (sa_restorer act \<noteq> 0 \<and> mem_ok False (unat (sa_handler act)) 1 (mms k m)) (\<lambda>_. True)"
    using decides_address [OF wf, of "sa_handler act"] by (auto simp: decides_def)
  have len: "(8 :: nat) < 2 ^ 32" "(96 :: nat) < 2 ^ 32"
    by simp_all
  note to = decides_to_user [OF wf sp, of words, unfolded a(2), OF len(1)] decides_to_user [OF wf a(1), of bytes, unfolded a(3), OF len(2)]
  have "decides k (write_frame m act sp (sp + 8) words bytes)
      ((sa_restorer act \<noteq> 0 \<and> mem_ok False (unat (sa_handler act)) 1 (mms k m)) \<and> mem_ok False (unat (sa_restorer act)) 1 (mms k m) \<and>
       mem_ok True sp 8 (mms k m) \<and> mem_ok True (sp + 8) 96 (mms k m) \<and> mem_ok True sp 8 (mms k m) \<and> mem_ok True (sp + 8) 96 (mms k m))
      (\<lambda>n. read_user (umem n m) (sp + 8) 96 = bytes)"
    unfolding write_frame_def
    by (rule decides_and [OF first decides_and [OF decides_address [OF wf] decides_and [OF decides_check [OF wf sp len(1)]
        decides_and [OF decides_check [OF wf a(1) len(2)] decides_and [OF to]]]]])
  then have "decides k (write_frame m act sp (sp + 8) words bytes) (frame_fits act sp (mms k m)) (\<lambda>n. read_user (umem n m) (sp + 8) 96 = bytes)"
    by (rule back_subst [where P = "\<lambda>b. decides k _ b _"]) (auto simp: frame_fits_def)
  moreover have "quiet k k"
    by (simp add: quiet_def)
  ultimately show thesis
    using that unfolding decides_def by blast
qed

lemma length_frame [simp]: "length (frame_bytes f) = 96"
  by (simp add: frame_bytes_def tf_bytes_def le32_bytes_def le16_bytes_def Let_def)

lemma frame_of_bytes [simp]: "frame_of (frame_bytes f) = f"
  by (simp add: frame_of_def frame_bytes_def tf_of_def tf_bytes_def word_at_def half_at_def le32_bytes_def le16_bytes_def Let_def)

interpretation signal_frame: packed_struct frame_bytes frame_of "\<lambda>_. True" 96
  by unfold_locales simp_all

definition handler_sp_of :: "trapframe \<Rightarrow> nat" where
  "handler_sp_of t = ROUNDDOWN (unat (tf_esp t) - 96 - 8) 16"

definition can_enter :: "sigaction \<Rightarrow> trapframe \<Rightarrow> mm_struct \<Rightarrow> bool" where
  "can_enter act t mm \<longleftrightarrow> USERBASE + 96 + 8 \<le> unat (tf_esp t) \<and> frame_fits act (handler_sp_of t) mm"

lemma enter_ok:
  assumes wf: "mm_wf (mms k m)"
  obtains (failed) l where "enter_handler p m signo act k = (Ok 1, l)" "\<not> can_enter act (tf k p) (mms k m)" "pf_exiting l p" "mm_of l = mm_of k"
      "signal l = (signal k)(p := (signal k p)\<lparr>in_handler := 0, frame_ptr := 0\<rparr>)" "mm_wf (mms l m)"
    | (entered) l fa where "enter_handler p m signo act k = (Ok 1, l)" "can_enter act (tf k p) (mms k m)" "fa = handler_sp_of (tf k p) + 8"
      "0 < fa" "fa < 2 ^ 32" "mm_of l = mm_of k"
      "pf_exiting l = pf_exiting k" "mm_wf (mms l m)" "mmap_list (mms l m) = mmap_list (mms k m)"
      "signal l = (signal k)(p := (signal k p)\<lparr>in_handler := of_nat signo,
         blocked := blocked (signal k p) OR sa_mask act OR signal_bit signo, frame_ptr := of_nat fa\<rparr>)"
      "read_user (umem l m) fa 96 = frame_bytes \<lparr>magic = UCORE_SIGNAL_FRAME_MAGIC, frame_signo = of_nat signo,
         saved_mask = blocked (signal k p), saved_frame = of_nat fa, saved_tf = tf k p, restorer = sa_restorer act\<rparr>"
proof -
  define g where "g = upd_signal p (\<lambda>g. g\<lparr>in_handler := of_nat signo, blocked := blocked g OR sa_mask act OR signal_bit signo\<rparr>) k"
  have g: "mms g = mms k" "tf g = tf k" "mm_of g = mm_of k" "pf_exiting g = pf_exiting k" "umem g = umem k"
      "signal g = (signal k)(p := (signal k p)\<lparr>in_handler := of_nat signo, blocked := blocked (signal k p) OR sa_mask act OR signal_bit signo\<rparr>)"
    by (simp_all add: g_def upd_signal_def)
  define esp where "esp = unat (tf_esp (tf k p))"
  define sp where "sp = ROUNDDOWN (esp - 96 - 8) 16"
  define f where "f = \<lparr>magic = UCORE_SIGNAL_FRAME_MAGIC, frame_signo = of_nat signo,
         saved_mask = blocked (signal k p), saved_frame = of_nat (sp + 8), saved_tf = tf k p, restorer = sa_restorer act\<rparr>"
  define w where "w = write_frame m act sp (sp + 8) (le32_bytes (sa_restorer act) @ le32_bytes (of_nat signo)) (frame_bytes f) g"
  have run: "enter_handler p m signo act k =
    (if esp < USERBASE + 96 + 8 then handler_failed p (blocked (signal k p)) g
     else case w of
         (Ok True, k) \<Rightarrow>
             (Ok 1, (upd_signal p (\<lambda>g. g\<lparr>frame_ptr := of_nat (sp + 8)\<rparr>) k)
                \<lparr>tf := (tf k)(p := (tf k p)\<lparr>tf_esp := of_nat sp, tf_eip := sa_handler act,
                   tf_regs := (tf_regs (tf k p))\<lparr>reg_eax := 0\<rparr>\<rparr>)\<rparr>)
         | (Ok False, l) \<Rightarrow> handler_failed p (blocked (signal k p)) l
         | (Err e, l) \<Rightarrow> (Err e, l) | (Fault, l) \<Rightarrow> (Fault, l))"
    unfolding enter_handler_def Let_def w_def f_def sp_def esp_def g_def [symmetric] g(2) by simp
  have gave_up: thesis if "enter_handler p m signo act k = handler_failed p (blocked (signal k p)) l" "quiet g l"
      "\<not> can_enter act (tf k p) (mms k m)" for l
    by (rule failed [of "snd (handler_failed p (blocked (signal k p)) l)", OF _ that(3)])
      (use that(1) quietD [OF that(2)] g wf in \<open>simp_all add: handler_failed_def set_exiting_def upd_signal_def fun_eq_iff\<close>)
  show thesis
  proof (cases "esp < USERBASE + 96 + 8")
    case True
    then show thesis
      using run by (intro gave_up [of g]) (simp_all add: quiet_def can_enter_def esp_def)
  next
    case False
    have "esp < 2 ^ 32"
      using unat_lt_u32 by (simp add: esp_def)
    then have sp: "sp + 8 < 2 ^ 32" "sp < 2 ^ 32"
      using False by (simp_all add: sp_def ROUNDDOWN_def)
    have fits: "can_enter act (tf k p) (mms k m) \<longleftrightarrow> frame_fits act sp (mms k m)"
      using False by (simp add: can_enter_def handler_sp_of_def sp_def esp_def)
    obtain l where l: "w = (Ok (frame_fits act sp (mms k m)), l)" "quiet g l"
        "frame_fits act sp (mms k m) \<Longrightarrow> read_user (umem l m) (sp + 8) 96 = frame_bytes f"
      unfolding w_def by (rule write_frame_ok [of g m sp _ "frame_bytes f" act]) (use wf g(1) sp in \<open>auto simp: le32_bytes_def\<close>)
    show thesis
    proof (cases "frame_fits act sp (mms k m)")
      case True
      show thesis
        by (rule entered [of "snd (enter_handler p m signo act k)" "sp + 8"])
          (use run False True l sp fits quietD [OF l(2)] g wf in \<open>simp_all add: upd_signal_def f_def\<close>,
           simp add: handler_sp_of_def sp_def esp_def)
    next
      case False
      then show thesis
        using \<open>\<not> esp < USERBASE + 96 + 8\<close> run l fits by (intro gave_up [of l]) simp_all
    qed
  qed
qed

section \<open>Delivering and returning\<close>

lemma upd_signal_simps [simp]:
  "signal (upd_signal p f k) = (signal k)(p := f (signal k p))" "tf (upd_signal p f k) = tf k" "mms (upd_signal p f k) = mms k"
  "mm_of (upd_signal p f k) = mm_of k" "umem (upd_signal p f k) = umem k" "pf_exiting (upd_signal p f k) = pf_exiting k"
  by (simp_all add: upd_signal_def)

lemma set_exiting_simps [simp]:
  "signal (set_exiting p k) = signal k" "pf_exiting (set_exiting p k) = (pf_exiting k)(p := True)" "mms (set_exiting p k) = mms k"
  "tf (set_exiting p k) = tf k"
  by (simp_all add: set_exiting_def)

lemma stop_current_simps [simp]: "signal (stop_current p k) = signal k" "mms (stop_current p k) = mms k"
  by (simp_all add: stop_current_def)

lemma deliver_enters:
  assumes "mm_wf (mms k m)" "in_handler (signal k p) = 0" "deliver_loop p m k = (Ok 1, l)" "in_handler (signal l p) \<noteq> 0"
  shows "\<exists>fa signo res. 0 < fa \<and> fa < 2 ^ 32 \<and> mm_of l = mm_of k \<and> mmap_list (mms l m) = mmap_list (mms k m) \<and> mm_wf (mms l m) \<and>
    frame_ptr (signal l p) = of_nat fa \<and>
    read_user (umem l m) fa 96 = frame_bytes \<lparr>magic = UCORE_SIGNAL_FRAME_MAGIC, frame_signo = signo,
      saved_mask = blocked (signal k p), saved_frame = of_nat fa, saved_tf = tf k p, restorer = res\<rparr>"
  using assms
proof (induction p m k rule: deliver_loop.induct)
  case (1 p m k)
  let ?g = "signal k p" and ?n = "signal_next_locked (signal k p)"
  let ?a = "action ?g ! ?n"
  let ?k = "upd_signal p (\<lambda>g. g\<lparr>pending := pending g AND NOT (signal_bit ?n)\<rparr>) k"
  have n: "?n \<noteq> 0"
    using "1.prems"(3) by (subst (asm) deliver_loop.simps) (auto simp: Let_def split: if_splits)
  have run: "deliver_loop p m k =
    (if sa_handler ?a = SIG_IGN \<or> (sa_handler ?a = SIG_DFL \<and> signal_default_ignored ?n) then deliver_loop p m ?k
     else if signal_default_stops ?n \<and> sa_handler ?a = SIG_DFL then (Ok 1, stop_current p ?k)
     else if sa_handler ?a = SIG_DFL then (Ok 1, set_exiting p ?k)
     else enter_handler p m ?n ?a ?k)"
    using n "1.prems"(2) by (subst deliver_loop.simps) (simp add: Let_def)
  show ?case
  proof (cases "sa_handler ?a = SIG_IGN \<or> (sa_handler ?a = SIG_DFL \<and> signal_default_ignored ?n)")
    case True
    then show ?thesis
      using "1.IH" [OF refl refl _ refl refl True] "1.prems" n run by simp
  next
    case False
    have e: "enter_handler p m ?n ?a ?k = (Ok 1, l)"
      using False run "1.prems"(2-4) by (auto split: if_splits)
    have wf: "mm_wf (mms ?k m)"
      using "1.prems"(1) by simp
    show ?thesis
    proof (rule enter_ok [OF wf, of p ?n ?a])
      fix l' fa
      assume "enter_handler p m ?n ?a ?k = (Ok 1, l')" "0 < fa" "fa < 2 ^ 32" "mm_of l' = mm_of ?k" "mm_wf (mms l' m)"
        "mmap_list (mms l' m) = mmap_list (mms ?k m)"
        "signal l' = (signal ?k)(p := (signal ?k p)\<lparr>in_handler := of_nat ?n,
           blocked := blocked (signal ?k p) OR sa_mask ?a OR signal_bit ?n, frame_ptr := of_nat fa\<rparr>)"
        "read_user (umem l' m) fa 96 = frame_bytes \<lparr>magic = UCORE_SIGNAL_FRAME_MAGIC, frame_signo = of_nat ?n,
           saved_mask = blocked (signal ?k p), saved_frame = of_nat fa, saved_tf = tf ?k p, restorer = sa_restorer ?a\<rparr>"
      then show ?thesis
        using e by (intro exI [of _ fa] exI [of _ "of_nat ?n"] exI [of _ "sa_restorer ?a"]) simp
    qed (use e "1.prems"(4) in simp)
  qed
qed

text \<open>The registers of a process in user mode: user segments, interrupts on, no privileged flags.\<close>

definition user_mode :: "trapframe \<Rightarrow> bool" where
  "user_mode t \<longleftrightarrow> tf_cs t = USER_CS \<and> tf_ss t = USER_DS \<and> tf_ds t = USER_DS \<and> tf_es t = USER_DS \<and>
     tf_fs t = USER_DS \<and> tf_gs t = USER_DS \<and>
     tf_eflags t AND (FL_IOPL_MASK OR FL_NT OR FL_VM OR FL_VIF OR FL_VIP) = 0 \<and>
     tf_eflags t AND 2 \<noteq> 0 \<and> tf_eflags t AND FL_IF \<noteq> 0 \<and>
     USERBASE \<le> unat (tf_esp t) \<and> unat (tf_esp t) \<le> USERTOP"

lemma frame_valid_ok:
  assumes "mm_wf (mms k m)"
  obtains l where "signal_frame_valid m f fa k =
    (Ok (magic f = UCORE_SIGNAL_FRAME_MAGIC \<and> saved_frame f = fa \<and> user_mode (saved_tf f) \<and>
         mem_ok False (unat (tf_eip (saved_tf f))) 1 (mms k m)), l)" "quiet k l"
proof (rule user_address_ok [OF assms, of "tf_eip (saved_tf f)"])
  fix b l
  assume b: "signal_user_address m (tf_eip (saved_tf f)) k = (Ok b, l)" "same_but_cache k l"
    "b \<longrightarrow> mem_ok False (unat (tf_eip (saved_tf f))) 1 (mms k m)" "mem_ok False (unat (tf_eip (saved_tf f))) 1 (mms k m) \<longrightarrow> b"
  then have ok: "mem_ok False (unat (tf_eip (saved_tf f))) 1 (mms k m) = b"
    by blast
  let ?t = "saved_tf f"
  let ?bad = "magic f \<noteq> UCORE_SIGNAL_FRAME_MAGIC \<or> saved_frame f \<noteq> fa \<or> tf_cs ?t \<noteq> USER_CS \<or> tf_ss ?t \<noteq> USER_DS \<or>
      tf_ds ?t \<noteq> USER_DS \<or> tf_es ?t \<noteq> USER_DS \<or> tf_fs ?t \<noteq> USER_DS \<or> tf_gs ?t \<noteq> USER_DS \<or>
      tf_eflags ?t AND (FL_IOPL_MASK OR FL_NT OR FL_VM OR FL_VIF OR FL_VIP) \<noteq> 0 \<or>
      tf_eflags ?t AND 2 = 0 \<or> tf_eflags ?t AND FL_IF = 0"
  have um: "user_mode ?t \<and> magic f = UCORE_SIGNAL_FRAME_MAGIC \<and> saved_frame f = fa \<longleftrightarrow>
      \<not> ?bad \<and> USERBASE \<le> unat (tf_esp ?t) \<and> unat (tf_esp ?t) \<le> USERTOP"
    unfolding user_mode_def by blast
  show thesis
  proof (cases ?bad)
    case True
    then have "signal_frame_valid m f fa k = (Ok False, k)"
      unfolding signal_frame_valid_def Let_def by (simp only: if_True)
    moreover have "\<not> (magic f = UCORE_SIGNAL_FRAME_MAGIC \<and> saved_frame f = fa \<and> user_mode ?t \<and> b)"
      using um True by blast
    ultimately show thesis
      using that [of k] quiet_cache [OF same_but_cache_refl [of k]] ok by simp
  next
    case False
    then have "signal_frame_valid m f fa k = and_then (Ok b, l) (\<lambda>k. (Ok (USERBASE \<le> unat (tf_esp ?t) \<and> unat (tf_esp ?t) \<le> USERTOP), k))"
      unfolding signal_frame_valid_def Let_def b(1) by (simp only: if_False)
    moreover have "(magic f = UCORE_SIGNAL_FRAME_MAGIC \<and> saved_frame f = fa \<and> user_mode ?t \<and> b) \<longleftrightarrow>
        (b \<and> USERBASE \<le> unat (tf_esp ?t) \<and> unat (tf_esp ?t) \<le> USERTOP)"
      using um False by blast
    ultimately show thesis
      using that [of l] quiet_cache [OF b(2)] ok by (cases b) simp_all
  qed
qed

lemma copy_from_ok:
  assumes "mm_wf (mms k m)" "src < 2 ^ 32" "len < 2 ^ 32" "mem_ok w src len (mms k m)"
  obtains l where "with_mm m (copy_from_user (umem k m) src len w) k = (Ok (Some (read_user (umem k m) src len)), l)" "quiet k l" "umem l = umem k"
proof (rule check_ok [OF assms(1-3), of w])
  fix l
  assume l: "with_mm m (user_mem_check src len w) k = (Ok (mem_ok w src len (mms k m)), l)" "same_but_cache k l"
  then have "with_mm m (copy_from_user (umem k m) src len w) k = (Ok (Some (read_user (umem k m) src len)), l)"
    using assms(4) by (auto simp: with_mm_def copy_from_user_def split: prod.splits option.splits outcome.splits)
  then show thesis
    using that quiet_cache [OF l(2)] same_but_cacheD(5) [OF l(2)] by blast
qed

lemma sigreturn_ok:
  assumes "mm_of k p = Some m" "mm_wf (mms k m)" "in_handler (signal k p) \<noteq> 0" "frame_ptr (signal k p) = of_nat fa"
    and fa: "0 < fa" "fa < 2 ^ 32" "mem_ok False fa 96 (mms k m)" "read_user (umem k m) fa 96 = frame_bytes f"
    and f: "magic f = UCORE_SIGNAL_FRAME_MAGIC" "saved_frame f = of_nat fa" "user_mode (saved_tf f)"
      "mem_ok False (unat (tf_eip (saved_tf f))) 1 (mms k m)"
  shows "\<exists>l. signal_sigreturn p k = (Ok (), l) \<and> tf l p = saved_tf f \<and> signal l p = (signal k p)\<lparr>
    blocked := saved_mask f AND NOT (signal_bit SIGKILL OR signal_bit SIGSTOP), frame_ptr := 0, in_handler := 0\<rparr>"
proof -
  have u: "unat (of_nat fa :: u32) = fa"
    using fa(2) by (simp add: unat_of_nat_small)
  then have nz: "(of_nat fa :: u32) \<noteq> 0"
    using fa(1) by (metis unat_0 less_irrefl)
  obtain l1 where l1: "with_mm m (user_mem_check fa 96 False) k = (Ok True, l1)" "same_but_cache k l1"
    using check_ok [OF assms(2) fa(2), of 96 False] fa(3) by auto
  note q1 = quiet_cache [OF l1(2)]
  have wf1: "mm_wf (mms l1 m)" "mem_ok False fa 96 (mms l1 m)" "umem l1 = umem k"
    using quietD(7,8) [OF q1] assms(2) fa(3) same_but_cacheD(5) [OF l1(2)] by simp_all
  obtain l2 where l2: "with_mm m (copy_from_user (umem l1 m) fa 96 False) l1 = (Ok (Some (frame_bytes f)), l2)" "quiet l1 l2" "umem l2 = umem l1"
    by (rule copy_from_ok [OF wf1(1) fa(2) _ wf1(2)]) (use fa(4) wf1(3) in auto)
  have wf2: "mm_wf (mms l2 m)" "mem_ok False (unat (tf_eip (saved_tf f))) 1 (mms l2 m)"
    using quietD(7,8) [OF l2(2)] quietD(8) [OF q1] wf1(1) f(4) by simp_all
  obtain l3 where l3: "signal_frame_valid m f (of_nat fa) l2 = (Ok True, l3)" "quiet l2 l3"
    by (rule frame_valid_ok [OF wf2(1), of f "of_nat fa"]) (use f wf2(2) in auto)
  have "signal l3 = signal k"
    using quietD(1) [OF l3(2)] quietD(1) [OF l2(2)] quietD(1) [OF q1] by simp
  then show ?thesis
    using assms(1,3,4) u nz l1(1) l2(1) l3(1) by (simp add: signal_sigreturn_def Let_def)
qed

text \<open>
  C6: A signal handler is transparent: when delivery has entered a handler and the handler, whatever else
  it does to memory and registers, leaves the frame on its stack and the areas of the process alone,
  \<open>signal_sigreturn\<close> restores the registers and the signal mask that the process had before.  The delivery
  starts in user mode with a readable instruction pointer and no handler active, and no nested handler
  has replaced the record of this one (\<open>in_handler\<close> and \<open>frame_ptr\<close> are those of the delivery).
\<close>

theorem signal_roundtrip:
  assumes "mm_of k p = Some m" and "mm_wf (mms k m)" and "in_handler (signal k p) = 0" and "user_mode (tf k p)"
    and "mem_ok False (unat (tf_eip (tf k p))) 1 (mms k m)"
    and "signal_deliver p k = (Ok 1, l)" and "in_handler (signal l p) \<noteq> 0"
    and "mem_ok False (unat (frame_ptr (signal l p))) 96 (mms k m)"
    and "mm_of n p = Some m" and "mm_wf (mms n m)" and "mmap_list (mms n m) = mmap_list (mms l m)"
    and "in_handler (signal n p) = in_handler (signal l p)" and "frame_ptr (signal n p) = frame_ptr (signal l p)"
    and "read_user (umem n m) (unat (frame_ptr (signal n p))) 96 = read_user (umem l m) (unat (frame_ptr (signal l p))) 96"
  shows "\<exists>r. signal_sigreturn p n = (Ok (), r) \<and> tf r p = tf k p \<and> in_handler (signal r p) = 0 \<and>
    blocked (signal r p) = blocked (signal k p) AND NOT (signal_bit SIGKILL OR signal_bit SIGSTOP)"
proof -
  have "deliver_loop p m k = (Ok 1, l)"
    using assms(1,4,6) by (simp add: signal_deliver_def user_mode_def)
  then obtain fa signo res where fa: "0 < fa" "fa < 2 ^ 32" "mmap_list (mms l m) = mmap_list (mms k m)"
      "frame_ptr (signal l p) = of_nat fa"
      "read_user (umem l m) fa 96 = frame_bytes \<lparr>magic = UCORE_SIGNAL_FRAME_MAGIC, frame_signo = signo,
         saved_mask = blocked (signal k p), saved_frame = of_nat fa, saved_tf = tf k p, restorer = res\<rparr>"
    using deliver_enters [OF assms(2,3) _ assms(7)] by blast
  have u: "unat (frame_ptr (signal l p)) = fa"
    using fa(2,4) by (simp add: unat_of_nat_small)
  have list: "mmap_list (mms n m) = mmap_list (mms k m)"
    using assms(11) fa(3) by simp
  then have ok: "mem_ok False fa 96 (mms n m)" "mem_ok False (unat (tf_eip (tf k p))) 1 (mms n m)"
    using assms(5,8) u unfolding mem_ok_def by simp_all
  let ?f = "\<lparr>magic = UCORE_SIGNAL_FRAME_MAGIC, frame_signo = signo,
         saved_mask = blocked (signal k p), saved_frame = of_nat fa, saved_tf = tf k p, restorer = res\<rparr>"
  have "\<exists>r. signal_sigreturn p n = (Ok (), r) \<and> tf r p = saved_tf ?f \<and> signal r p = (signal n p)\<lparr>
      blocked := saved_mask ?f AND NOT (signal_bit SIGKILL OR signal_bit SIGSTOP), frame_ptr := 0, in_handler := 0\<rparr>"
    by (rule sigreturn_ok [OF assms(9,10) _ _ fa(1,2) ok(1)]) (use assms(4,7,12,13,14) fa(4,5) u ok(2) in simp_all)
  then show ?thesis
    by auto
qed

lemma frame_valid_user:
  assumes "signal_frame_valid m f fa k = (Ok True, l)"
  shows "user_mode (saved_tf f)"
proof -
  let ?t = "saved_tf f"
  let ?bad = "magic f \<noteq> UCORE_SIGNAL_FRAME_MAGIC \<or> saved_frame f \<noteq> fa \<or> tf_cs ?t \<noteq> USER_CS \<or> tf_ss ?t \<noteq> USER_DS \<or>
      tf_ds ?t \<noteq> USER_DS \<or> tf_es ?t \<noteq> USER_DS \<or> tf_fs ?t \<noteq> USER_DS \<or> tf_gs ?t \<noteq> USER_DS \<or>
      tf_eflags ?t AND (FL_IOPL_MASK OR FL_NT OR FL_VM OR FL_VIF OR FL_VIP) \<noteq> 0 \<or>
      tf_eflags ?t AND 2 = 0 \<or> tf_eflags ?t AND FL_IF = 0"
  have "\<not> ?bad"
  proof
    assume ?bad
    then have "signal_frame_valid m f fa k = (Ok False, k)"
      unfolding signal_frame_valid_def Let_def by (simp only: if_True)
    with assms show False
      by simp
  qed
  moreover from this have "signal_frame_valid m f fa k = and_then (signal_user_address m (tf_eip ?t) k)
      (\<lambda>k. (Ok (USERBASE \<le> unat (tf_esp ?t) \<and> unat (tf_esp ?t) \<le> USERTOP), k))"
    unfolding signal_frame_valid_def Let_def by (simp only: if_False)
  with assms have "and_then (signal_user_address m (tf_eip ?t) k)
      (\<lambda>k. (Ok (USERBASE \<le> unat (tf_esp ?t) \<and> unat (tf_esp ?t) \<le> USERTOP), k)) = (Ok True, l)"
    by simp
  then have "USERBASE \<le> unat (tf_esp ?t) \<and> unat (tf_esp ?t) \<le> USERTOP"
    by (auto simp: and_then_def sbind_eq_Ok split: if_splits)
  ultimately show ?thesis
    unfolding user_mode_def by blast
qed

text \<open>
  C10: No way into the kernel through a forged frame: whatever bytes a process puts on its stack, the
  registers that a successful \<open>signal_sigreturn\<close> restores are those of user mode, with user segments, interrupts
  enabled and no privileged flag, and neither \<open>SIGKILL\<close> nor \<open>SIGSTOP\<close> is blocked.
\<close>

theorem sigreturn_stays_in_user_mode:
  assumes "signal_sigreturn p k = (Ok (), l)"
  shows "user_mode (tf l p) \<and> blocked (signal l p) AND (signal_bit SIGKILL OR signal_bit SIGSTOP) = 0 \<and> in_handler (signal l p) = 0"
proof -
  obtain m where m: "mm_of k p = Some m"
    using assms by (cases "mm_of k p") (simp_all add: signal_sigreturn_def)
  obtain bs k2 k3 where v: "signal_frame_valid m (frame_of bs) (frame_ptr (signal k p)) k2 = (Ok True, k3)"
      "tf l p = saved_tf (frame_of bs)" "in_handler (signal l p) = 0"
      "blocked (signal l p) = saved_mask (frame_of bs) AND NOT (signal_bit SIGKILL OR signal_bit SIGSTOP)"
    using assms m unfolding signal_sigreturn_def
    by (auto simp: Let_def sbind_eq_Ok split: if_splits option.splits)
  have "blocked (signal l p) AND (signal_bit SIGKILL OR signal_bit SIGSTOP) = 0"
    unfolding v(4) by (intro bit_word_eqI) (auto simp: bit_and_iff bit_or_iff bit_not_iff)
  then show ?thesis
    using frame_valid_user [OF v(1)] v(2,3) by simp
qed

section \<open>The uncatchable signals\<close>

definition signal_wf :: "signal_state \<Rightarrow> bool" where
  "signal_wf g \<longleftrightarrow> length (action g) = UCORE_NSIG \<and> sa_handler (action g ! SIGKILL) = SIG_DFL \<and>
     sa_handler (action g ! SIGSTOP) = SIG_DFL \<and> \<not> bit (pending g) 0"

text \<open>What can happen to the signal states: the operations of this component, and steps that do not touch them.\<close>

inductive signal_reach :: "kernel \<Rightarrow> bool" where
  start: "(\<And>p. signal k p = signal_state_init) \<Longrightarrow> signal_reach k"
| queue: "signal_reach k \<Longrightarrow> signal_reach (snd (signal_queue p signo k))"
| set_action: "signal_reach k \<Longrightarrow> signal_reach (snd (signal_set_action p signo a k))"
| exchange: "signal_reach k \<Longrightarrow> signal_reach (snd (signal_exchange_action p signo new old k))"
| set_mask: "signal_reach k \<Longrightarrow> signal_reach (snd (signal_set_mask p how new_mask k))"
| fork: "signal_reach k \<Longrightarrow> signal_reach (upd_signal c (\<lambda>_. signal_state_fork (signal k p)) k)"
| exec: "signal_reach k \<Longrightarrow> signal_reach (upd_signal p signal_state_exec k)"
| deliver: "signal_reach k \<Longrightarrow> signal_reach (snd (signal_deliver p k))"
| sigreturn: "signal_reach k \<Longrightarrow> signal_reach (snd (signal_sigreturn p k))"
| other: "signal_reach k \<Longrightarrow> signal l = signal k \<Longrightarrow> signal_reach l"

lemma with_mm_signal [simp]: "signal (snd (with_mm m f k)) = signal k"
  by (auto simp: with_mm_def split: prod.splits option.splits)

lemma sbind_keep:
  assumes "P (snd m)" "\<And>x l. P l \<Longrightarrow> P (snd (f x l))"
  shows "P (snd (sbind m f))"
  using assms by (cases m; cases "fst m") auto

lemma user_address_signal [simp]: "signal (snd (signal_user_address m a k)) = signal k"
  by (simp add: signal_user_address_def)

lemma to_user_signal [simp]: "signal (snd (to_user m dst bs k)) = signal k"
  unfolding to_user_def by (rule sbind_keep [where P = "\<lambda>l. signal l = signal k"]) (auto split: option.splits)

lemma and_then_signal:
  assumes "signal (snd m) = signal k" "\<And>l. signal l = signal k \<Longrightarrow> signal (snd (f l)) = signal k"
  shows "signal (snd (and_then m f)) = signal k"
  unfolding and_then_def by (rule sbind_keep [where P = "\<lambda>l. signal l = signal k"]) (use assms in auto)

lemma write_frame_signal [simp]: "signal (snd (write_frame m act sp fa words bytes k)) = signal k"
  unfolding write_frame_def by (intro and_then_signal) simp_all

lemma frame_valid_signal [simp]: "signal (snd (signal_frame_valid m f fa k)) = signal k"
proof -
  have "signal (snd (and_then (signal_user_address m a k) (\<lambda>k. (Ok b, k)))) = signal k" for a b
    by (rule and_then_signal) simp_all
  then show ?thesis
    unfolding signal_frame_valid_def Let_def by simp
qed

lemma pending_bit0: "\<not> bit w 0 \<Longrightarrow> 0 < n \<Longrightarrow> \<not> bit (w OR signal_bit n) 0" "\<not> bit w 0 \<Longrightarrow> \<not> bit (w AND v) 0"
  by (simp_all only: bit_or_iff bit_and_iff bit_signal_bit) auto

lemma queue_wf: "signal_wf g \<Longrightarrow> 0 < n \<Longrightarrow> signal_wf (queue_signal n g)"
  unfolding signal_wf_def queue_signal_def Let_def by (auto simp: pending_bit0)

lemma enter_signal:
  assumes "signal_wf (signal k q)"
  shows "signal_wf (signal (snd (enter_handler p m signo act k)) q)"
proof -
  define g where "g = upd_signal p (\<lambda>g. g\<lparr>in_handler := of_nat signo, blocked := blocked g OR sa_mask act OR signal_bit signo\<rparr>) k"
  have g: "signal_wf (signal g q)"
    using assms by (auto simp: g_def signal_wf_def)
  have f: "signal_wf (signal l q) \<Longrightarrow> signal_wf (signal (snd (handler_failed p b l)) q)" for b l
    by (auto simp: handler_failed_def signal_wf_def)
  have w: "signal_wf (signal l q)" if "write_frame m act sp fa ws bs g = (r, l)" for sp fa ws bs r l
    using write_frame_signal [of m act sp fa ws bs g] that g by simp
  show ?thesis
    unfolding enter_handler_def Let_def g_def [symmetric] using f g w
    by (auto simp: signal_wf_def split: prod.splits outcome.splits bool.splits)
qed

lemma deliver_signal: "signal_wf (signal k q) \<Longrightarrow> signal_wf (signal (snd (deliver_loop p m k)) q)"
proof (induction p m k rule: deliver_loop.induct)
  case (1 p m k)
  let ?n = "signal_next_locked (signal k p)"
  let ?a = "action (signal k p) ! ?n"
  let ?k = "upd_signal p (\<lambda>g. g\<lparr>pending := pending g AND NOT (signal_bit ?n)\<rparr>) k"
  have k: "signal_wf (signal ?k q)"
    using "1.prems" by (auto simp: signal_wf_def pending_bit0)
  show ?case
  proof (cases "(in_handler (signal k p) \<noteq> 0 \<and> pending (signal k p) AND (signal_bit SIGKILL OR signal_bit SIGSTOP) = 0) \<or> ?n = 0")
    case True
    then show ?thesis
      using "1.prems" by (subst deliver_loop.simps) (simp add: Let_def)
  next
    case False
    then have run: "deliver_loop p m k =
      (if sa_handler ?a = SIG_IGN \<or> (sa_handler ?a = SIG_DFL \<and> signal_default_ignored ?n) then deliver_loop p m ?k
       else if signal_default_stops ?n \<and> sa_handler ?a = SIG_DFL then (Ok 1, stop_current p ?k)
       else if sa_handler ?a = SIG_DFL then (Ok 1, set_exiting p ?k)
       else enter_handler p m ?n ?a ?k)"
      by (subst deliver_loop.simps) (simp only: Let_def if_False)
    show ?thesis
      unfolding run using "1.IH" [OF refl refl False refl refl _ k] k enter_signal [OF k, of p m ?n ?a] by auto
  qed
qed

lemma sigreturn_signal:
  assumes "signal_wf (signal k q)"
  shows "signal_wf (signal (snd (signal_sigreturn p k)) q)"
proof (cases "mm_of k p")
  case None
  with assms show ?thesis
    by (simp add: signal_sigreturn_def)
next
  case (Some m)
  let ?P = "\<lambda>l. signal_wf (signal l q)"
  show ?thesis
    unfolding signal_sigreturn_def Some option.case Let_def
  proof (split if_split, intro conjI impI)
    show "?P (snd (Err E_INVAL :: unit outcome, k))"
      using assms by simp
  next
    show "?P (snd (sbind (with_mm m (user_mem_check (unat (frame_ptr (signal k p))) 96 False) k) (\<lambda>ok k'.
        sbind (if ok then with_mm m (copy_from_user (umem k' m) (unat (frame_ptr (signal k p))) 96 False) k' else (Ok None, k')) (\<lambda>bs k'.
        sbind (case bs of Some bs \<Rightarrow> signal_frame_valid m (frame_of bs) (frame_ptr (signal k p)) k' | None \<Rightarrow> (Ok False, k')) (\<lambda>ok k'.
          if \<not> ok then (Err E_KILLED, set_exiting p k')
          else (Ok (), (upd_signal p (\<lambda>g. g\<lparr>
              blocked := saved_mask (frame_of (the bs)) AND NOT (signal_bit SIGKILL OR signal_bit SIGSTOP),
              frame_ptr := 0, in_handler := 0\<rparr>) k')\<lparr>tf := (tf k')(p := saved_tf (frame_of (the bs)))\<rparr>))))))"
      using assms by (intro sbind_keep [where P = ?P]) (auto simp: signal_wf_def split: option.splits)
  qed
qed

lemma signal_reach_wf: "signal_reach k \<Longrightarrow> signal_wf (signal k q)"
proof (induction arbitrary: q rule: signal_reach.induct)
  case (start k)
  then show ?case
    by (simp add: signal_wf_def signal_state_init_def)
next
  case (queue k p signo)
  then show ?case
    using queue_wf [of "signal k q" "nat signo"] by (auto simp: signal_queue_def signal_number_valid_def)
next
  case (set_action k p signo a)
  then show ?case
    by (auto simp: signal_set_action_def signal_wf_def signal_number_valid_def signal_uncatchable_def nth_list_update split: option.splits)
next
  case (exchange k p signo new old)
  then show ?case
    by (auto simp: signal_exchange_action_def signal_wf_def signal_number_valid_def signal_uncatchable_def nth_list_update split: option.splits)
next
  case (set_mask k p how new_mask)
  then show ?case
    by (auto simp: signal_set_mask_def signal_wf_def Let_def)
next
  case (fork k c p)
  then show ?case
    using fork.IH [of p] fork.IH [of q] by (auto simp: signal_state_fork_def signal_state_init_def signal_wf_def)
next
  case (exec k p)
  then show ?case
    by (auto simp: signal_state_exec_def signal_wf_def)
next
  case (deliver k p)
  then show ?case
    using deliver_signal by (auto simp: signal_deliver_def split: option.splits)
next
  case (sigreturn k p)
  then show ?case
    by (simp add: sigreturn_signal)
qed simp

lemma find_upt_least:
  assumes "P n" "m \<le> n" "n < N"
  shows "\<exists>k. find P [m..<N] = Some k \<and> m \<le> k \<and> k \<le> n"
proof -
  have n: "n \<in> set [m..<N]"
    using assms(2,3) by simp
  then obtain k where k: "find P [m..<N] = Some k"
    using assms(1) by (cases "find P [m..<N]") (auto simp: find_None_iff)
  then obtain i where i: "i < N - m" "k = m + i" "\<forall>j < i. \<not> P ([m..<N] ! j)"
    by (auto simp: find_Some_iff)
  have "\<not> n - m < i"
    using i(1,3) assms by (auto dest!: spec [of _ "n - m"])
  with i(2) k assms(2) show ?thesis
    by auto
qed

lemma next_signal_le:
  assumes "bit (ready_signals g) n" "0 < n" "n < UCORE_NSIG"
  shows "signal_next_locked g \<noteq> 0" "signal_next_locked g \<le> n"
proof -
  have "ready_signals g AND signal_bit n \<noteq> 0" "1 \<le> n"
    using assms by (simp_all add: signal_bit_iff)
  then obtain k where k: "find (\<lambda>signo. ready_signals g AND signal_bit signo \<noteq> 0) [1..<UCORE_NSIG] = Some k" "1 \<le> k" "k \<le> n"
    using find_upt_least [of "\<lambda>signo. ready_signals g AND signal_bit signo \<noteq> 0" n 1 UCORE_NSIG] assms(3) by blast
  have "signal_next_locked g = k"
    unfolding signal_next_locked_def k(1) by simp
  with k(2,3) show "signal_next_locked g \<noteq> 0" "signal_next_locked g \<le> n"
    by simp_all
qed

text \<open>The pending signals with a smaller number than \<open>SIGKILL\<close>, which is taken after them.\<close>

definition before_kill :: "signal_state \<Rightarrow> nat" where
  "before_kill g = card {n. n < SIGKILL \<and> bit (pending g) n}"

lemma before_kill_less:
  assumes "bit (pending g) n" "n < SIGKILL" "pending h = pending g AND NOT (signal_bit n)"
  shows "before_kill h < before_kill g"
proof -
  let ?A = "{j. j < SIGKILL \<and> bit (pending g) j}"
  have "bit (pending h) j \<longleftrightarrow> bit (pending g) j \<and> j \<noteq> n" if "j < SIGKILL" for j
    unfolding assms(3) using that by (simp only: bit_and_iff bit_not_iff bit_signal_bit possible_bit_word) auto
  then have "{j. j < SIGKILL \<and> bit (pending h) j} = ?A - {n}"
    by blast
  moreover have "finite ?A" "n \<in> ?A"
    using assms(1,2) by simp_all
  ultimately show ?thesis
    unfolding before_kill_def by (simp only: card_Diff1_less)
qed

lemma kill_step:
  assumes "mm_wf (mms k m)" "signal_wf (signal k p)" "bit (pending (signal k p)) SIGKILL"
  shows "\<exists>l. deliver_loop p m k = (Ok 1, l) \<and> (pf_exiting l p \<or>
    bit (pending (signal l p)) SIGKILL \<and> before_kill (signal l p) < before_kill (signal k p))"
  using assms
proof (induction p m k rule: deliver_loop.induct)
  case (1 p m k)
  let ?g = "signal k p" and ?n = "signal_next_locked (signal k p)"
  let ?a = "action ?g ! ?n"
  let ?k = "upd_signal p (\<lambda>g. g\<lparr>pending := pending g AND NOT (signal_bit ?n)\<rparr>) k"
  have "bit (ready_signals ?g) SIGKILL"
    using "1.prems"(3) by (simp add: ready_signals_def bit_or_iff bit_and_iff bit_signal_bit)
  note n = next_signal_le [OF this, simplified]
  have "bit (pending ?g AND (signal_bit SIGKILL OR signal_bit SIGSTOP)) SIGKILL"
    using "1.prems"(3) by (simp add: bit_and_iff bit_or_iff bit_signal_bit)
  then have some: "pending ?g AND (signal_bit SIGKILL OR signal_bit SIGSTOP) \<noteq> 0"
    by (metis bit_0_eq bot_apply bot_bool_def)
  have go: "\<not> ((in_handler ?g \<noteq> 0 \<and> pending ?g AND (signal_bit SIGKILL OR signal_bit SIGSTOP) = 0) \<or> ?n = 0)"
    using some n(1) by auto
  have run: "deliver_loop p m k =
    (if sa_handler ?a = SIG_IGN \<or> (sa_handler ?a = SIG_DFL \<and> signal_default_ignored ?n) then deliver_loop p m ?k
     else if signal_default_stops ?n \<and> sa_handler ?a = SIG_DFL then (Ok 1, stop_current p ?k)
     else if sa_handler ?a = SIG_DFL then (Ok 1, set_exiting p ?k)
     else enter_handler p m ?n ?a ?k)"
    using go by (subst deliver_loop.simps) (simp only: Let_def if_False)
  have small: "\<not> signal_default_ignored ?n" "\<not> signal_default_stops ?n"
    using n(2) by (auto simp: signal_default_ignored_def signal_default_stops_def)
  show ?case
  proof (cases "sa_handler ?a = SIG_DFL")
    case True
    then show ?thesis
      using run small by simp
  next
    case False
    then have less: "?n < SIGKILL"
      using n(2) "1.prems"(2) by (cases "?n = SIGKILL") (auto simp: signal_wf_def)
    have b: "bit (pending ?g) ?n"
      using next_signal_ready(1) [of ?g] n(1) by (simp add: signal_bit_iff)
    have k: "bit (pending (signal ?k p)) SIGKILL" "before_kill (signal ?k p) < before_kill ?g" "mm_wf (mms ?k m)" "signal_wf (signal ?k p)"
      using "1.prems" less before_kill_less [OF b less, of "signal ?k p"]
      by (auto simp: bit_and_iff bit_not_iff bit_signal_bit signal_wf_def pending_bit0)
    show ?thesis
    proof (cases "sa_handler ?a = SIG_IGN")
      case True
      then show ?thesis
        using "1.IH" [OF refl refl go refl refl _ k(3,4,1)] run k(2) by fastforce
    next
      case ign: False
      then have e: "deliver_loop p m k = enter_handler p m ?n ?a ?k"
        using run False by simp
      have same: "before_kill h = before_kill g" if "pending h = pending g" for g h
        using that by (simp add: before_kill_def)
      show ?thesis
        by (rule enter_ok [OF k(3), of p ?n ?a]) (use e k(1,2) same in \<open>auto simp: before_kill_def\<close>)
    qed
  qed
qed

text \<open>
  C31: Well-typed signal states: in every state that the operations on signals can reach, each process has an
  action for each of the 32 signals, the actions of \<open>SIGKILL\<close> and \<open>SIGSTOP\<close> are the default ones, and the
  signal number 0 is never pending.
\<close>

theorem signal_states_well_formed: "signal_reach k \<Longrightarrow> signal_wf (signal k p)"
  by (rule signal_reach_wf)

text \<open>
  C28: \<open>SIGKILL\<close> cannot be held off: when it is pending, a delivery either marks the process for exit, or
  it starts a handler of a signal with a smaller number, \<open>SIGKILL\<close> stays pending, and there are fewer signals
  before it.  Blocking it, ignoring it or being in a handler makes no difference.
\<close>

theorem sigkill_progress:
  assumes "signal_reach k" and "mm_of k p = Some m" and "mm_wf (mms k m)" and "tf_cs (tf k p) \<noteq> KERNEL_CS"
    and "bit (pending (signal k p)) SIGKILL"
  shows "\<exists>l. signal_deliver p k = (Ok 1, l) \<and> (pf_exiting l p \<or>
    bit (pending (signal l p)) SIGKILL \<and> before_kill (signal l p) < before_kill (signal k p))"
  using kill_step [OF assms(3) signal_reach_wf [OF assms(1)] assms(5)] assms(2,4) by (simp add: signal_deliver_def)

section \<open>Nested handlers\<close>

lemma deliver_starts:
  assumes "signal_next_locked (signal k p) = n" "n \<noteq> 0"
    and "in_handler (signal k p) = 0 \<or> pending (signal k p) AND (signal_bit SIGKILL OR signal_bit SIGSTOP) \<noteq> 0"
    and "sa_handler (action (signal k p) ! n) \<noteq> SIG_IGN" "sa_handler (action (signal k p) ! n) \<noteq> SIG_DFL"
  shows "deliver_loop p m k =
    enter_handler p m n (action (signal k p) ! n) (upd_signal p (\<lambda>g. g\<lparr>pending := pending g AND NOT (signal_bit n)\<rparr>) k)"
proof -
  have go: "\<not> ((in_handler (signal k p) \<noteq> 0 \<and> pending (signal k p) AND (signal_bit SIGKILL OR signal_bit SIGSTOP) = 0) \<or> n = 0)"
    using assms(2,3) by blast
  show ?thesis
    by (subst deliver_loop.simps) (use go assms(4,5) in \<open>simp only: Let_def assms(1) if_False simp_thms\<close>)
qed

text \<open>
  C39: Stopping a process in a handler can make the handler unable to return: the check that a handler does
  not run inside another one is skipped while \<open>SIGSTOP\<close> is pending, so a caught signal with a smaller
  number starts a second handler, and after its return \<open>signal_sigreturn\<close> of the first one fails.
\<close>

theorem nested_handler_loses_frame:
  assumes "mm_of k p = Some m" and "mm_wf (mms k m)" and "in_handler (signal k p) \<noteq> 0" and "user_mode (tf k p)"
    and "mem_ok False (unat (tf_eip (tf k p))) 1 (mms k m)" and "bit (pending (signal k p)) SIGSTOP"
    and "signal_next_locked (signal k p) = n" and "0 < n"
    and "sa_handler (action (signal k p) ! n) \<noteq> SIG_IGN" and "sa_handler (action (signal k p) ! n) \<noteq> SIG_DFL"
    and "can_enter (action (signal k p) ! n) (tf k p) (mms k m)"
    and "mem_ok False (handler_sp_of (tf k p) + 8) 96 (mms k m)"
  shows "\<exists>l r. signal_deliver p k = (Ok 1, l) \<and> signal_sigreturn p l = (Ok (), r) \<and> tf r p = tf k p \<and>
    signal_sigreturn p r = (Err E_INVAL, r)"
proof -
  have "bit (pending (signal k p) AND (signal_bit SIGKILL OR signal_bit SIGSTOP)) SIGSTOP"
    using assms(6) by (simp add: bit_and_iff bit_or_iff bit_signal_bit)
  then have some: "pending (signal k p) AND (signal_bit SIGKILL OR signal_bit SIGSTOP) \<noteq> 0"
    by (metis bit_0_eq bot_apply bot_bool_def)
  let ?a = "action (signal k p) ! n"
  let ?k = "upd_signal p (\<lambda>g. g\<lparr>pending := pending g AND NOT (signal_bit n)\<rparr>) k"
  have go: "signal_deliver p k = enter_handler p m n ?a ?k"
    using deliver_starts [OF assms(7), of m] some assms(1,4,8-10) by (simp add: signal_deliver_def user_mode_def)
  have small: "n < 32"
    using next_signal_ready(2) [of "signal k p"] assms(7,8) by simp
  have wf: "mm_wf (mms ?k m)"
    using assms(2) by simp
  show ?thesis
  proof (rule enter_ok [OF wf, of p n ?a])
    fix l fa
    assume l: "enter_handler p m n ?a ?k = (Ok 1, l)" "fa = handler_sp_of (tf ?k p) + 8" "0 < fa" "fa < 2 ^ 32"
      "mm_of l = mm_of ?k" "mm_wf (mms l m)" "mmap_list (mms l m) = mmap_list (mms ?k m)"
      "signal l = (signal ?k)(p := (signal ?k p)\<lparr>in_handler := of_nat n,
         blocked := blocked (signal ?k p) OR sa_mask ?a OR signal_bit n, frame_ptr := of_nat fa\<rparr>)"
      "read_user (umem l m) fa 96 = frame_bytes \<lparr>magic = UCORE_SIGNAL_FRAME_MAGIC, frame_signo = of_nat n,
         saved_mask = blocked (signal ?k p), saved_frame = of_nat fa, saved_tf = tf ?k p, restorer = sa_restorer ?a\<rparr>"
    have "unat (of_nat n :: u32) = n"
      using small by (simp add: unat_of_nat_small)
    then have nz: "(of_nat n :: u32) \<noteq> 0"
      using assms(8) by auto
    have ok: "mem_ok False fa 96 (mms l m)" "mem_ok False (unat (tf_eip (tf k p))) 1 (mms l m)"
      using assms(5,12) l(2,7) unfolding mem_ok_def by simp_all
    let ?f = "\<lparr>magic = UCORE_SIGNAL_FRAME_MAGIC, frame_signo = of_nat n, saved_mask = blocked (signal ?k p),
      saved_frame = of_nat fa, saved_tf = tf ?k p, restorer = sa_restorer ?a\<rparr>"
    have "\<exists>r. signal_sigreturn p l = (Ok (), r) \<and> tf r p = saved_tf ?f \<and> signal r p = (signal l p)\<lparr>
        blocked := saved_mask ?f AND NOT (signal_bit SIGKILL OR signal_bit SIGSTOP), frame_ptr := 0, in_handler := 0\<rparr>"
      by (rule sigreturn_ok [OF _ l(6) _ _ l(3,4) ok(1) l(9)]) (use l(5,8) nz assms(1,4) ok(2) in simp_all)
    then obtain r where r: "signal_sigreturn p l = (Ok (), r)" "tf r p = tf k p" "in_handler (signal r p) = 0"
      by auto
    have "signal_sigreturn p r = (Err E_INVAL, r)"
      using r(3) by (cases "mm_of r p") (simp_all add: signal_sigreturn_def)
    then show ?thesis
      using go l(1) r by auto
  qed (use assms(11) in simp)
qed

section \<open>A process with a handler\<close>

definition user_tf :: trapframe where
  "user_tf = \<lparr>tf_regs = \<lparr>reg_edi = 1, reg_esi = 2, reg_ebp = 3, reg_oesp = 4, reg_ebx = 5, reg_edx = 6, reg_ecx = 7,
       reg_eax = 8\<rparr>, tf_gs = USER_DS, tf_padding0 = 0, tf_fs = USER_DS, tf_padding1 = 0, tf_es = USER_DS, tf_padding2 = 0,
     tf_ds = USER_DS, tf_padding3 = 0, tf_trapno = 128, tf_err = 0, tf_eip = 0x200000, tf_cs = USER_CS, tf_padding4 = 0,
     tf_eflags = 0x202, tf_esp = 0x202000, tf_ss = USER_DS, tf_padding5 = 0\<rparr>"

definition handler_action :: sigaction where
  "handler_action = \<lparr>sa_handler = 0x200100, sa_restorer = 0x200200, sa_flags = 0, sa_mask = 0\<rparr>"

definition running :: "u32 \<Rightarrow> u32 \<Rightarrow> kernel" where
  "running pend busy = \<lparr>sch = booted,
     signal = (\<lambda>_. signal_state_init\<lparr>action := (action signal_state_init)[2 := handler_action], pending := pend, in_handler := busy\<rparr>),
     pf_exiting = (\<lambda>_. False), tf = (\<lambda>_. user_tf), mm_of = (\<lambda>_. Some 0), mms = (\<lambda>_. heap_mm), umem = (\<lambda>_ _. 0)\<rparr>"

lemma running_simps [simp]:
  "mm_of (running pend busy) = (\<lambda>_. Some 0)" "mms (running pend busy) = (\<lambda>_. heap_mm)" "tf (running pend busy) = (\<lambda>_. user_tf)"
  "pending (signal (running pend busy) p) = pend" "in_handler (signal (running pend busy) p) = busy"
  "blocked (signal (running pend busy) p) = 0" "action (signal (running pend busy) p) ! 2 = handler_action"
  by (simp_all add: running_def signal_state_init_def)

lemma heap_mm_ok: "0 < n \<Longrightarrow> 0x200000 \<le> a \<Longrightarrow> a + n \<le> 0x203000 \<Longrightarrow> mem_ok w a n heap_mm"
  by (auto simp: mem_ok_def access_ok_def heap_mm_def vma_contains_def)

lemma user_tf_mode: "user_mode user_tf" "handler_sp_of user_tf = 0x201F90"
  by (simp_all add: user_mode_def user_tf_def handler_sp_of_def ROUNDDOWN_def)

lemma user_tf_can_enter: "can_enter handler_action user_tf heap_mm"
  unfolding can_enter_def frame_fits_def user_tf_mode
  by (auto intro!: heap_mm_ok simp: handler_action_def user_tf_def)

lemma running_next:
  "signal_next_locked (signal (running 4 0) p) = 2" "signal_next_locked (signal (running 0x80004 1) p) = 2"
  by (simp_all add: signal_next_locked_def ready_signals_def signal_bit_def upt_rec)

lemma user_tf_next: "mem_ok False (unat (tf_eip user_tf)) 1 heap_mm"
  by (rule heap_mm_ok) (simp_all add: user_tf_def)

lemma running_delivers:
  obtains l where "signal_deliver 5 (running 4 0) = (Ok 1, l)" "in_handler (signal l 5) = 2"
    "frame_ptr (signal l 5) = 0x201F98" "mm_of l 5 = Some 0" "mm_wf (mms l 0)"
proof -
  let ?k = "upd_signal 5 (\<lambda>g. g\<lparr>pending := pending g AND NOT (signal_bit 2)\<rparr>) (running 4 0)"
  have go: "signal_deliver 5 (running 4 0) = enter_handler 5 0 2 handler_action ?k"
    using deliver_starts [OF running_next(1), of 5 0] user_tf_mode(1)
    by (simp add: signal_deliver_def user_mode_def handler_action_def)
  have "mm_wf (mms ?k 0)"
    by (simp add: heap_mm_wf)
  then show ?thesis
    by (rule enter_ok [of ?k 0 5 2 handler_action]) (use that go user_tf_can_enter user_tf_mode(2) in simp_all)
qed

theorem signal_roundtrip_witness:
  "\<exists>l r. signal_deliver 5 (running 4 0) = (Ok 1, l) \<and> in_handler (signal l 5) = 2 \<and>
     signal_sigreturn 5 l = (Ok (), r) \<and> tf r 5 = user_tf"
proof -
  obtain l where l: "signal_deliver 5 (running 4 0) = (Ok 1, l)" "in_handler (signal l 5) = 2"
    "frame_ptr (signal l 5) = 0x201F98" "mm_of l 5 = Some 0" "mm_wf (mms l 0)"
    by (rule running_delivers)
  have "mem_ok False (unat (frame_ptr (signal l 5))) 96 heap_mm"
    unfolding l(3) by (rule heap_mm_ok) simp_all
  then show ?thesis
    using signal_roundtrip [of "running 4 0" 5 0 l l] l user_tf_mode(1) user_tf_next heap_mm_wf by auto
qed

definition returning :: kernel where
  "returning = (running 0 2)\<lparr>signal := (\<lambda>_. signal_state_init\<lparr>in_handler := 2, frame_ptr := 0x201F98\<rparr>),
     umem := (\<lambda>_ a. frame_bytes \<lparr>magic = UCORE_SIGNAL_FRAME_MAGIC, frame_signo = 2, saved_mask = 0x80, saved_frame = 0x201F98,
       saved_tf = user_tf, restorer = 0x200200\<rparr> ! (a - 0x201F98))\<rparr>"

lemma read_placed: "read_user (\<lambda>a. bs ! (a - src)) src (length bs) = bs"
  by (rule nth_equalityI) (simp_all add: read_user_def)

lemma returning_returns: "\<exists>l. signal_sigreturn 5 returning = (Ok (), l)"
proof -
  let ?f = "\<lparr>magic = UCORE_SIGNAL_FRAME_MAGIC, frame_signo = 2, saved_mask = 0x80, saved_frame = 0x201F98,
       saved_tf = user_tf, restorer = 0x200200\<rparr>"
  have mem: "read_user (umem returning 0) 0x201F98 96 = frame_bytes ?f"
    using read_placed [of "frame_bytes ?f" "0x201F98"] by (simp add: returning_def)
  have k: "mm_of returning 5 = Some 0" "mm_wf (mms returning 0)" "mms returning = (\<lambda>_. heap_mm)"
      "in_handler (signal returning 5) = 2" "frame_ptr (signal returning 5) = 0x201F98"
    by (simp_all add: returning_def heap_mm_wf)
  have "mem_ok False 0x201F98 96 heap_mm"
    by (rule heap_mm_ok) simp_all
  then have "\<exists>l. signal_sigreturn 5 returning = (Ok (), l) \<and> tf l 5 = saved_tf ?f \<and> signal l 5 = (signal returning 5)\<lparr>
    blocked := saved_mask ?f AND NOT (signal_bit SIGKILL OR signal_bit SIGSTOP), frame_ptr := 0, in_handler := 0\<rparr>"
    using sigreturn_ok [OF k(1,2) _ _ _ _ _ mem] k(3-5) user_tf_mode(1) user_tf_next by simp
  then show ?thesis
    by blast
qed

theorem sigreturn_stays_in_user_mode_witness:
  "\<exists>l. signal_sigreturn 5 returning = (Ok (), l) \<and> user_mode (tf l 5)"
  using returning_returns sigreturn_stays_in_user_mode [of 5 returning] by blast

theorem nested_handler_loses_frame_witness:
  "\<exists>l r. signal_deliver 5 (running 0x80004 1) = (Ok 1, l) \<and> signal_sigreturn 5 l = (Ok (), r) \<and>
     signal_sigreturn 5 r = (Err E_INVAL, r)"
proof -
  have "mem_ok False (handler_sp_of user_tf + 8) 96 heap_mm"
    unfolding user_tf_mode by (rule heap_mm_ok) simp_all
  then show ?thesis
    using nested_handler_loses_frame [of "running 0x80004 1" 5 0 2] running_next(2) user_tf_mode(1) user_tf_next
      user_tf_can_enter heap_mm_wf by (auto simp: handler_action_def)
qed

definition killed :: kernel where
  "killed = snd (signal_queue 5 9 ((running 0 0)\<lparr>signal := (\<lambda>_. signal_state_init)\<rparr>))"

lemma killed_reach: "signal_reach killed"
  unfolding killed_def by (rule signal_reach.queue, rule signal_reach.start) simp

theorem signal_states_well_formed_witness: "signal_wf (signal killed 5)"
  by (rule signal_states_well_formed [OF killed_reach])

theorem sigkill_progress_witness:
  "\<exists>l. signal_deliver 5 killed = (Ok 1, l) \<and> pf_exiting l 5"
proof -
  have k: "mm_of killed 5 = Some 0" "mm_wf (mms killed 0)" "tf_cs (tf killed 5) \<noteq> KERNEL_CS" "pending (signal killed 5) = signal_bit SIGKILL"
    by (simp_all add: killed_def signal_queue_def signal_number_valid_def upd_signal_def queue_signal_def heap_mm_wf user_tf_def signal_state_init_def)
  have none: "before_kill (signal killed 5) = 0"
    unfolding before_kill_def k(4) bit_signal_bit by auto
  show ?thesis
    using sigkill_progress [OF killed_reach k(1-3)] k(4) none by (auto simp: bit_signal_bit)
qed

end
