(* ===== verification/Proc.thy ===== *)
theory Proc
  imports Signal
begin

text \<open>
  The process table of \<open>src/kern/process/proc.c\<close>: process identifiers, the list and the hash lists of
  processes, the links between parents and children, and the operations that fork, end, reap and signal
  processes.  It adds the table to the scheduler and the signal state of \<open>Signal\<close>.

  A process is a number, as in \<open>Sched\<close>; the circular lists of the source are lists here, while the links
  between siblings are pointers.  Each critical section of \<open>proc_lock\<close> is one step.
\<close>

section \<open>Process identifiers\<close>

abbreviation MAX_PROCESS :: int where "MAX_PROCESS \<equiv> 4096"
abbreviation MAX_PID :: int where "MAX_PID \<equiv> 8192"

text \<open>
  One pass of the inner loop of \<open>get_pid\<close> over the identifiers in use: either the new \<open>last_pid\<close> and
  \<open>next_safe\<close>, or the \<open>last_pid\<close> with which it starts again.
\<close>

fun pid_pass :: "int list \<Rightarrow> int \<Rightarrow> int \<Rightarrow> (int \<times> int) + int" where
  "pid_pass [] lst safe = Inl (lst, safe)"
| "pid_pass (x # xs) lst safe = (
     if x = lst
     then if lst + 1 \<ge> safe then Inr (if lst + 1 \<ge> MAX_PID then 1 else lst + 1)
          else pid_pass xs (lst + 1) safe
     else if x > lst \<and> safe > x then pid_pass xs lst x
     else pid_pass xs lst safe)"

partial_function (option) pid_repeat :: "int list \<Rightarrow> int \<Rightarrow> (int \<times> int) option" where
  "pid_repeat xs lst = (
     case pid_pass xs lst MAX_PID of Inl r \<Rightarrow> Some r | Inr l \<Rightarrow> pid_repeat xs l)"

definition next_pid :: "int list \<Rightarrow> int \<Rightarrow> int \<Rightarrow> (int \<times> int) option" where
  "next_pid xs lst safe = (
     if lst + 1 \<ge> MAX_PID then pid_repeat xs 1
     else if lst + 1 \<ge> safe then pid_repeat xs (lst + 1)
     else Some (lst + 1, safe))"

text \<open>
  What is known of \<open>last_pid\<close> and \<open>next_safe\<close>: no identifier in use lies strictly between them.
\<close>

definition pid_gap :: "int list \<Rightarrow> int \<Rightarrow> int \<Rightarrow> bool" where
  "pid_gap xs lst safe \<longleftrightarrow> 1 \<le> lst \<and> lst \<le> MAX_PID \<and> safe \<le> MAX_PID \<and> (\<forall>x\<in>set xs. \<not> (lst < x \<and> x < safe))"

lemma pass_fresh:
  assumes "pid_pass ys lst safe = Inl (l, n)" "lst < safe" "\<forall>x\<in>set zs. x < lst \<or> safe \<le> x"
  shows "lst \<le> l \<and> l < n \<and> n \<le> safe \<and> (\<forall>x\<in>set (zs @ ys). x < l \<or> n \<le> x)"
  using assms
proof (induction ys lst safe arbitrary: zs rule: pid_pass.induct)
  case (2 x xs lst safe)
  let ?zs = "zs @ [x]"
  consider "x = lst" "lst + 1 < safe" "pid_pass xs (lst + 1) safe = Inl (l, n)"
    | "lst < x" "x < safe" "pid_pass xs lst x = Inl (l, n)"
    | "x < lst \<or> safe \<le> x" "pid_pass xs lst safe = Inl (l, n)" "x \<noteq> lst"
    using "2.prems"(1) by (auto split: if_splits)
  then show ?case
  proof cases
    case 1
    then show ?thesis
      using "2.IH"(1) [of ?zs] "2.prems"(3) by force
  next
    case 2
    then show ?thesis
      using "2.IH"(2) [of ?zs] "2.prems"(3) by force
  next
    case 3
    then show ?thesis
      using "2.IH"(3) [of ?zs] "2.prems"(2,3) by force
  qed
qed auto

text \<open>A pass starts again only after it has stepped over identifiers that are all in use.\<close>

lemma pass_again:
  assumes "pid_pass ys lst safe = Inr l" "set ys \<subseteq> S" "lst < safe" "safe \<le> MAX_PID"
  shows "\<exists>m\<ge>lst. {lst..m} \<subseteq> S \<and> l = (if m + 1 \<ge> MAX_PID then 1 else m + 1)"
  using assms
proof (induction ys lst safe rule: pid_pass.induct)
  case (2 x xs lst safe)
  show ?case
  proof (cases "x = lst")
    case True
    then have s: "lst \<in> S"
      using 2 by simp
    show ?thesis
    proof (cases "lst + 1 \<ge> safe")
      case True
      then show ?thesis
        using 2 s \<open>x = lst\<close> by (intro exI [of _ lst]) auto
    next
      case False
      then obtain m where m: "m \<ge> lst + 1" "{lst + 1..m} \<subseteq> S" "l = (if m + 1 \<ge> MAX_PID then 1 else m + 1)"
        using 2(1) [OF True] 2 \<open>x = lst\<close> by auto
      moreover have "{lst..m} = insert lst {lst + 1..m}"
        using m(1) by auto
      ultimately show ?thesis
        using s by (intro exI [of _ m]) auto
    qed
  next
    case False
    then show ?thesis
      using 2 by (auto split: if_splits)
  qed
qed simp

text \<open>The distance to a free identifier, counted around the end of the range.\<close>

definition pid_distance :: "int \<Rightarrow> int \<Rightarrow> nat" where
  "pid_distance f lst = nat (if lst \<le> f then f - lst else f - lst + MAX_PID)"

lemma repeat_fresh:
  assumes "1 \<le> f" "f < MAX_PID" "f \<notin> set xs" "1 \<le> lst" "lst < MAX_PID"
  shows "\<exists>l n. pid_repeat xs lst = Some (l, n) \<and> 1 \<le> l \<and> l < n \<and> n \<le> MAX_PID \<and> (\<forall>x\<in>set xs. x < l \<or> n \<le> x)"
  using assms(4,5)
proof (induction "pid_distance f lst" arbitrary: lst rule: less_induct)
  case less
  show ?case
  proof (cases "pid_pass xs lst MAX_PID")
    case (Inl r)
    then obtain l n where r: "pid_pass xs lst MAX_PID = Inl (l, n)"
      by (cases r) auto
    have "lst \<le> l \<and> l < n \<and> n \<le> MAX_PID \<and> (\<forall>x\<in>set ([] @ xs). x < l \<or> n \<le> x)"
      by (rule pass_fresh [OF r]) (use less in auto)
    then show ?thesis
      using r less by (subst pid_repeat.simps) auto
  next
    case (Inr l)
    then obtain m where m: "m \<ge> lst" "{lst..m} \<subseteq> set xs" "l = (if m + 1 \<ge> MAX_PID then 1 else m + 1)"
      using pass_again [OF Inr, of "set xs"] less by auto
    have "\<not> (lst \<le> f \<and> f \<le> m)"
      using m(2) assms(3) by auto
    then have "pid_distance f l < pid_distance f lst" "1 \<le> l" "l < MAX_PID"
      using m assms(1,2) less unfolding pid_distance_def by (auto split: if_splits)
    then show ?thesis
      using less(1) [of l] Inr by (subst pid_repeat.simps) auto
  qed
qed

lemma next_pid_fresh:
  assumes gap: "pid_gap xs lst safe" and f: "1 \<le> f" "f < MAX_PID" "f \<notin> set xs"
  shows "\<exists>l n. next_pid xs lst safe = Some (l, n) \<and> 1 \<le> l \<and> l < MAX_PID \<and> l \<notin> set xs \<and> pid_gap (l # xs) l n"
proof -
  let ?P = "\<lambda>l n. 1 \<le> l \<and> l < n \<and> n \<le> MAX_PID \<and> (\<forall>x\<in>set xs. x < l \<or> n \<le> x)"
  have r: "\<exists>l n. pid_repeat xs j = Some (l, n) \<and> ?P l n" if "1 \<le> j" "j < MAX_PID" for j
    by (rule repeat_fresh [OF f that])
  have "\<exists>l n. next_pid xs lst safe = Some (l, n) \<and> ?P l n"
  proof (cases "lst + 1 < MAX_PID \<and> lst + 1 < safe")
    case True
    then show ?thesis
      using gap unfolding next_pid_def pid_gap_def by force
  next
    case False
    then show ?thesis
      using gap r [of 1] r [of "lst + 1"] unfolding next_pid_def pid_gap_def by auto
  qed
  then obtain l n where p: "next_pid xs lst safe = Some (l, n)" "?P l n"
    by blast
  then have "l \<notin> set xs" "pid_gap (l # xs) l n"
    unfolding pid_gap_def by force+
  then show ?thesis
    using p by (intro exI [of _ l] exI [of _ n]) simp
qed

section \<open>The process table\<close>

record proc_table =
  ker :: kernel
  proc_list :: "nat list"
  hash_list :: "nat \<Rightarrow> nat list"
  cptr :: "nat \<Rightarrow> nat option"
  yptr :: "nat \<Rightarrow> nat option"
  optr :: "nat \<Rightarrow> nat option"
  exit_code :: "nat \<Rightarrow> int"
  cpu_ticks :: "nat \<Rightarrow> 64 word"
  children_cpu_ticks :: "nat \<Rightarrow> 64 word"
  children_switches :: "nat \<Rightarrow> u32"
  nr_process :: int
  last_pid :: int
  next_safe :: int
  initproc :: nat

abbreviation proc_of :: "proc_table \<Rightarrow> nat \<Rightarrow> proc_struct" where
  "proc_of t p \<equiv> procs (sch (ker t)) p"

definition on_ker :: "(kernel \<Rightarrow> kernel) \<Rightarrow> proc_table \<Rightarrow> proc_table" where
  "on_ker f t = t\<lparr>ker := f (ker t)\<rparr>"

definition on_sch :: "(sched \<Rightarrow> sched) \<Rightarrow> proc_table \<Rightarrow> proc_table" where
  "on_sch f t = on_ker (\<lambda>k. k\<lparr>sch := f (sch k)\<rparr>) t"

definition hash32 :: "u32 \<Rightarrow> nat \<Rightarrow> u32" where
  "hash32 val bits = (let hash = val * 0x9e370001 in drop_bit (32 - bits) hash)"

definition pid_hashfn :: "int \<Rightarrow> nat" where
  "pid_hashfn x = unat (hash32 (of_int x) 10)"

definition smp_online_cpu_mask :: "nat \<Rightarrow> (nat \<Rightarrow> bool) \<Rightarrow> u32" where
  "smp_online_cpu_mask smp_ncpu smp_online = (
     let mask = fold (\<lambda>cpu mask. if smp_online cpu then mask OR push_bit cpu 1 else mask) [0..<min smp_ncpu 32] 0
     in if mask \<noteq> 0 then mask else 1)"

definition alloc_proc :: "u32 \<Rightarrow> nat \<Rightarrow> proc_table \<Rightarrow> proc_table" where
  "alloc_proc online p t =
     on_ker (\<lambda>k. k\<lparr>sch := upd_proc p (\<lambda>_. \<lparr>pid = -1, state = PROC_UNINIT, wait_state = 0, rq = None, on_rq = False,
          cpu = 0, cpu_mask = online, on_cpu = False, time_slice = 0, lab6_stride = 0, lab6_priority = 0,
          need_resched = False, runs = 0, proc_parent = None\<rparr>) (sch k),
        signal := (signal k)(p := signal_state_init), pf_exiting := (pf_exiting k)(p := False),
        mm_of := (mm_of k)(p := None)\<rparr>)
     (t\<lparr>cptr := (cptr t)(p := None), yptr := (yptr t)(p := None), optr := (optr t)(p := None),
        cpu_ticks := (cpu_ticks t)(p := 0), children_cpu_ticks := (children_cpu_ticks t)(p := 0),
        children_switches := (children_switches t)(p := 0)\<rparr>)"

definition set_links :: "nat \<Rightarrow> proc_table \<Rightarrow> unit outcome \<times> proc_table" where
  "set_links p t = (
     let t = t\<lparr>proc_list := p # proc_list t, yptr := (yptr t)(p := None)\<rparr> in
     case proc_parent (proc_of t p) of
       None \<Rightarrow> (Fault, t)
     | Some q \<Rightarrow>
         let t = t\<lparr>optr := (optr t)(p := cptr t q)\<rparr>;
             t = (case optr t p of Some o' \<Rightarrow> t\<lparr>yptr := (yptr t)(o' := Some p)\<rparr> | None \<Rightarrow> t)
         in (Ok (), t\<lparr>cptr := (cptr t)(q := Some p)\<rparr>))"

definition remove_links :: "nat \<Rightarrow> proc_table \<Rightarrow> unit outcome \<times> proc_table" where
  "remove_links p t = (
     let t = t\<lparr>proc_list := remove1 p (proc_list t)\<rparr>;
         t = (case optr t p of Some o' \<Rightarrow> t\<lparr>yptr := (yptr t)(o' := yptr t p)\<rparr> | None \<Rightarrow> t)
     in sbind (case yptr t p of
           Some y \<Rightarrow> (Ok (), t\<lparr>optr := (optr t)(y := optr t p)\<rparr>)
         | None \<Rightarrow>
             (case proc_parent (proc_of t p) of
                None \<Rightarrow> (Fault, t)
              | Some q \<Rightarrow> (Ok (), t\<lparr>cptr := (cptr t)(q := optr t p)\<rparr>)))
       (\<lambda>_ t. (Ok (), t\<lparr>nr_process := nr_process t - 1\<rparr>)))"

text \<open>\<open>None\<close>: the loop does not end.\<close>

definition get_pid :: "proc_table \<Rightarrow> (int \<times> proc_table) option" where
  "get_pid t = map_option (\<lambda>(l, n). (l, t\<lparr>last_pid := l, next_safe := n\<rparr>))
     (next_pid (map (\<lambda>p. pid (proc_of t p)) (proc_list t)) (last_pid t) (next_safe t))"

definition hash_proc :: "nat \<Rightarrow> proc_table \<Rightarrow> proc_table" where
  "hash_proc p t = (
     let b = pid_hashfn (pid (proc_of t p)) in t\<lparr>hash_list := (hash_list t)(b := p # hash_list t b)\<rparr>)"

definition unhash_proc :: "nat \<Rightarrow> proc_table \<Rightarrow> proc_table" where
  "unhash_proc p t = t\<lparr>hash_list := (\<lambda>b. remove1 p (hash_list t b))\<rparr>"

definition hash_lookup :: "int \<Rightarrow> proc_table \<Rightarrow> nat option" where
  "hash_lookup i t = find (\<lambda>p. pid (proc_of t p) = i) (hash_list t (pid_hashfn i))"

definition find_proc :: "int \<Rightarrow> proc_table \<Rightarrow> nat option" where
  "find_proc i t = (if 0 < i \<and> i < MAX_PID then hash_lookup i t else None)"

definition find_proc_locked :: "nat \<Rightarrow> int \<Rightarrow> proc_table \<Rightarrow> nat option" where
  "find_proc_locked c i t = (
     if i = 0 then current (sch (ker t)) c else if i \<le> 0 \<or> i \<ge> MAX_PID then None else hash_lookup i t)"

section \<open>Fork\<close>

text \<open>
  The parts of \<open>do_fork_with_entry\<close> that concern the table: the reservation of a place, its return when
  the fork fails, the inheritance of affinity and signals with the registers of the child, and the
  publication of the child.  Between them the address space and the open files are duplicated.
\<close>

definition fork_reserve :: "proc_table \<Rightarrow> unit outcome \<times> proc_table" where
  "fork_reserve t = (
     if nr_process t < MAX_PROCESS then (Ok (), t\<lparr>nr_process := nr_process t + 1\<rparr>) else (Err E_NO_FREE_PROC, t))"

definition fork_abort :: "proc_table \<Rightarrow> proc_table" where
  "fork_abort t = t\<lparr>nr_process := nr_process t - 1\<rparr>"

definition copy_thread :: "nat \<Rightarrow> u32 \<Rightarrow> trapframe \<Rightarrow> proc_table \<Rightarrow> proc_table" where
  "copy_thread p esp f = on_ker (\<lambda>k. k\<lparr>tf := (tf k)(p := f\<lparr>tf_regs := (tf_regs f)\<lparr>reg_eax := 0\<rparr>, tf_esp := esp,
     tf_eflags := tf_eflags f OR FL_IF\<rparr>)\<rparr>)"

definition copy_clone_thread :: "nat \<Rightarrow> u32 \<Rightarrow> u32 \<Rightarrow> trapframe \<Rightarrow> proc_table \<Rightarrow> proc_table" where
  "copy_clone_thread p stack entry f = on_ker (\<lambda>k. k\<lparr>tf := (tf k)(p := f\<lparr>tf_regs := (tf_regs f)\<lparr>reg_eax := 0\<rparr>,
     tf_esp := stack, tf_eip := entry, tf_eflags := tf_eflags f OR FL_IF\<rparr>)\<rparr>)"

definition fork_inherit :: "nat \<Rightarrow> nat \<Rightarrow> proc_table \<Rightarrow> unit outcome \<times> proc_table" where
  "fork_inherit cur p t = (
     let t = on_sch (upd_proc p (\<lambda>g. g\<lparr>proc_parent := Some cur, cpu_mask := cpu_mask (proc_of t cur)\<rparr>)) t in
     if wait_state (proc_of t cur) \<noteq> 0 then (Fault, t)
     else (Ok (), on_ker (upd_signal p (\<lambda>_. signal_state_fork (signal (ker t) cur))) t))"

definition fork_publish :: "nat \<Rightarrow> proc_table \<Rightarrow> (int outcome \<times> proc_table) option" where
  "fork_publish p t = map_option (\<lambda>(i, t).
     let t = hash_proc p (on_sch (upd_proc p (\<lambda>g. g\<lparr>pid := i\<rparr>)) t)
     in sbind (set_links p t) (\<lambda>_ t.
       let t = on_sch (wakeup_proc p) t in (Ok (pid (proc_of t p)), t))) (get_pid t)"

section \<open>Exit\<close>

text \<open>
  The end of a child is a signal for its parent, and wakes it when it waits for it.  The result says
  whether the parent is to be queued after the lock is released.
\<close>

definition notify_parent :: "nat \<Rightarrow> proc_table \<Rightarrow> bool \<times> proc_table" where
  "notify_parent q t = (
     let t = on_ker (\<lambda>k. snd (signal_queue q (int SIGCHLD) k)) t; g = proc_of t q in
     if state g \<noteq> PROC_STOPPED \<and>
        (wait_state g = WT_CHILD \<or> (wait_state g AND WT_INTERRUPTED \<noteq> 0 \<and> signal_should_interrupt q (ker t)))
     then (True, on_sch (upd_proc q (\<lambda>g. g\<lparr>state := PROC_RUNNABLE, wait_state := 0,
             need_resched := (if on_cpu g then True else need_resched g)\<rparr>)) t)
     else (False, t))"

definition adopt_child :: "nat \<Rightarrow> nat \<Rightarrow> proc_table \<Rightarrow> proc_table" where
  "adopt_child p k t = (
     let t = t\<lparr>cptr := (cptr t)(p := optr t k)\<rparr>;
         t = t\<lparr>yptr := (yptr t)(k := None)\<rparr>;
         t = t\<lparr>optr := (optr t)(k := cptr t (initproc t))\<rparr>;
         t = (case optr t k of Some o' \<Rightarrow> t\<lparr>yptr := (yptr t)(o' := Some k)\<rparr> | None \<Rightarrow> t);
         t = on_sch (upd_proc k (\<lambda>g. g\<lparr>proc_parent := Some (initproc t)\<rparr>)) t
     in t\<lparr>cptr := (cptr t)(initproc t := Some k)\<rparr>)"

partial_function (option) adopt_children :: "nat \<Rightarrow> bool \<Rightarrow> proc_table \<Rightarrow> (bool \<times> proc_table) option" where
  "adopt_children p wake_init t = (
     case cptr t p of
       None \<Rightarrow> Some (wake_init, t)
     | Some k \<Rightarrow>
         let t = adopt_child p k t in
         if state (proc_of t k) = PROC_ZOMBIE
         then case notify_parent (initproc t) t of (w, t) \<Rightarrow> adopt_children p (w \<or> wake_init) t
         else adopt_children p wake_init t)"

definition exit_locked :: "nat \<Rightarrow> int \<Rightarrow> proc_table \<Rightarrow> (nat option \<times> bool \<times> proc_table) option" where
  "exit_locked p code t = (
     let t = on_sch (upd_proc p (\<lambda>g. g\<lparr>state := PROC_ZOMBIE\<rparr>)) t;
         t = t\<lparr>exit_code := (exit_code t)(p := code)\<rparr>;
         (wake_parent, t) = (case proc_parent (proc_of t p) of
             None \<Rightarrow> (None, t)
           | Some q \<Rightarrow>
               let t = t\<lparr>children_cpu_ticks := (children_cpu_ticks t)(q := children_cpu_ticks t q + cpu_ticks t p),
                     children_switches := (children_switches t)(q := children_switches t q + of_int (runs (proc_of t p)))\<rparr>
               in case notify_parent q t of (w, t) \<Rightarrow> (if w then Some q else None, t))
     in map_option (\<lambda>(wake_init, t). (wake_parent, wake_init, t)) (adopt_children p False t))"

definition exit_process :: "nat \<Rightarrow> int \<Rightarrow> proc_table \<Rightarrow> (unit outcome \<times> proc_table) option" where
  "exit_process c code t = (
     case current (sch (ker t)) c of
       None \<Rightarrow> Some (Fault, t)
     | Some p \<Rightarrow>
         if idleproc (sch (ker t)) c = Some p \<or> p = initproc t then Some (Fault, t)
         else map_option (\<lambda>(wake_parent, wake_init, t).
             let t = (case wake_parent of Some q \<Rightarrow> on_sch (wakeup_proc q) t | None \<Rightarrow> t);
                 t = (if wake_init then on_sch (wakeup_proc (initproc t)) t else t)
             in (Ok (), on_sch (schedule c) t)) (exit_locked p code t))"

section \<open>Waiting for children\<close>

text \<open>
  A call of \<open>do_wait_options\<close> or \<open>do_waitid\<close> is a sequence of passes, from the label \<open>repeat\<close> to the return
  or to the call of \<open>schedule\<close>.  A pass that ends in \<open>schedule\<close> has the result \<open>Asleep\<close>.
\<close>

datatype 'a wait_result = Done 'a | Asleep

abbreviation WNOHANG :: u32 where "WNOHANG \<equiv> 1"
abbreviation WEXITED :: u32 where "WEXITED \<equiv> 4"
abbreviation WNOWAIT :: u32 where "WNOWAIT \<equiv> 0x01000000"
abbreviation P_ALL :: int where "P_ALL \<equiv> 0"
abbreviation P_PID :: int where "P_PID \<equiv> 1"
abbreviation P_PGID :: int where "P_PGID \<equiv> 2"
abbreviation CLD_EXITED :: int where "CLD_EXITED \<equiv> 1"
abbreviation SIGTERM :: int where "SIGTERM \<equiv> 15"

definition reapable :: "proc_table \<Rightarrow> nat \<Rightarrow> bool" where
  "reapable t p \<longleftrightarrow> state (proc_of t p) = PROC_ZOMBIE \<and> \<not> on_cpu (proc_of t p)"

partial_function (option) kid_loop :: "proc_table \<Rightarrow> nat option \<Rightarrow> bool \<Rightarrow> (bool \<times> nat option) option" where
  "kid_loop t q haskid = (
     case q of
       None \<Rightarrow> Some (haskid, None)
     | Some p \<Rightarrow> if reapable t p then Some (True, Some p) else kid_loop t (optr t p) True)"

definition wait_one :: "nat \<Rightarrow> int \<Rightarrow> proc_table \<Rightarrow> bool \<times> nat option" where
  "wait_one cur i t = (
     case if 0 < i \<and> i < MAX_PID then hash_lookup i t else None of
       Some p \<Rightarrow> if proc_parent (proc_of t p) = Some cur then (True, if reapable t p then Some p else None) else (False, None)
     | None \<Rightarrow> (False, None))"

definition reap :: "nat \<Rightarrow> proc_table \<Rightarrow> unit outcome \<times> proc_table" where
  "reap p t = remove_links p (unhash_proc p t)"

definition wait_sleep :: "nat \<Rightarrow> nat \<Rightarrow> proc_table \<Rightarrow> proc_table" where
  "wait_sleep c cur t =
     on_sch (\<lambda>s. schedule c (upd_proc cur (\<lambda>g. g\<lparr>state := PROC_SLEEPING, wait_state := WT_CHILD\<rparr>) s)) t"

definition wait_pass :: "nat \<Rightarrow> nat \<Rightarrow> int \<Rightarrow> u32 \<Rightarrow> proc_table \<Rightarrow> (int option wait_result outcome \<times> proc_table) option" where
  "wait_pass c cur i options t = (
     if signal_should_interrupt cur (ker t) then Some (Err E_INTR, t)
     else map_option (\<lambda>(haskid, found).
       case found of
         Some p \<Rightarrow>
           if idleproc (sch (ker t)) c = Some p \<or> p = initproc t then (Fault, t)
           else sbind (reap p t) (\<lambda>_ t. (Ok (Done (Some (exit_code t p))), t))
       | None \<Rightarrow>
           if haskid \<and> options AND WNOHANG = 0 then (Ok Asleep, wait_sleep c cur t)
           else if haskid \<and> options AND WNOHANG \<noteq> 0 then (Ok (Done None), t) else (Err E_BAD_PROC, t))
       (if i \<noteq> 0 then Some (wait_one cur i t) else kid_loop t (cptr t cur) False))"

record siginfo =
  si_signo :: int
  si_errno :: int
  si_code :: int
  si_pid :: int
  si_uid :: int
  si_status :: int

definition no_siginfo :: siginfo where
  "no_siginfo = \<lparr>si_signo = 0, si_errno = 0, si_code = 0, si_pid = 0, si_uid = 0, si_status = 0\<rparr>"

definition waitid_check :: "int \<Rightarrow> int \<Rightarrow> u32 \<Rightarrow> unit outcome" where
  "waitid_check idtype i options = (
     if options AND WEXITED = 0 \<or> options AND NOT (WEXITED OR WNOHANG OR WNOWAIT) \<noteq> 0 then Err E_INVAL
     else if idtype = P_PGID then Err E_UNIMP
     else if idtype \<noteq> P_ALL \<and> idtype \<noteq> P_PID then Err E_INVAL
     else if idtype = P_PID \<and> i \<le> 0 then Err E_INVAL else Ok ())"

definition waitid_pass :: "nat \<Rightarrow> nat \<Rightarrow> int \<Rightarrow> int \<Rightarrow> u32 \<Rightarrow> proc_table \<Rightarrow>
    (siginfo wait_result outcome \<times> proc_table) option" where
  "waitid_pass c cur idtype i options t = (
     if signal_should_interrupt cur (ker t) then Some (Err E_INTR, t)
     else map_option (\<lambda>(haskid, found).
       case found of
         Some p \<Rightarrow>
           let info = \<lparr>si_signo = int SIGCHLD, si_errno = 0, si_code = CLD_EXITED, si_pid = pid (proc_of t p), si_uid = 0,
             si_status = exit_code t p\<rparr>
           in if options AND WNOWAIT = 0 then sbind (reap p t) (\<lambda>_ t. (Ok (Done info), t)) else (Ok (Done info), t)
       | None \<Rightarrow>
           if haskid \<and> options AND WNOHANG = 0 then (Ok Asleep, wait_sleep c cur t)
           else if haskid then (Ok (Done no_siginfo), t) else (Err E_BAD_PROC, t))
       (if idtype = P_PID then Some (wait_one cur i t) else kid_loop t (cptr t cur) False))"

section \<open>Signals and scheduling parameters of a process\<close>

definition kill_locked :: "nat \<Rightarrow> int \<Rightarrow> proc_table \<Rightarrow> bool \<times> proc_table" where
  "kill_locked p signo t = (
     let t = on_ker (\<lambda>k. snd (signal_queue p signo k)) t;
         interrupt = signal_should_interrupt p (ker t);
         g = proc_of t p;
         wake = (interrupt \<and> wait_state g AND WT_INTERRUPTED \<noteq> 0);
         resume = (state g = PROC_STOPPED \<and> (signo = int SIGCONT \<or> signo = int SIGKILL));
         resched = ((interrupt \<or> resume) \<and> on_cpu g);
         t = (if (wake \<or> resume) \<and> state g \<noteq> PROC_ZOMBIE
              then on_sch (upd_proc p (\<lambda>g. g\<lparr>state := PROC_RUNNABLE, wait_state := 0\<rparr>)) t else t);
         t = (if resched then on_sch (upd_proc p (\<lambda>g. g\<lparr>need_resched := True\<rparr>)) t else t)
     in (wake \<or> resume, t))"

definition do_kill_signal :: "int \<Rightarrow> int \<Rightarrow> proc_table \<Rightarrow> unit outcome \<times> proc_table" where
  "do_kill_signal i signo t = (
     if signo \<le> 0 \<or> signo \<ge> int UCORE_NSIG then (Err E_INVAL, t)
     else case if 0 < i \<and> i < MAX_PID then hash_lookup i t else None of
       None \<Rightarrow> (Err E_INVAL, t)
     | Some p \<Rightarrow>
         if state (proc_of t p) = PROC_ZOMBIE then (Err E_INVAL, t)
         else case kill_locked p signo t of (wake, t) \<Rightarrow> (Ok (), if wake then on_sch (wakeup_proc p) t else t))"

definition do_kill :: "int \<Rightarrow> proc_table \<Rightarrow> unit outcome \<times> proc_table" where
  "do_kill i t = do_kill_signal i SIGTERM t"

definition do_setaffinity :: "nat \<Rightarrow> u32 \<Rightarrow> int \<Rightarrow> u32 \<Rightarrow> proc_table \<Rightarrow> unit outcome \<times> proc_table" where
  "do_setaffinity c online i m t = (
     if m = 0 \<or> m AND NOT online \<noteq> 0 then (Err E_INVAL, t)
     else case find_proc_locked c i t of
       None \<Rightarrow> (Err E_BAD_PROC, t)
     | Some p \<Rightarrow>
         if state (proc_of t p) = PROC_ZOMBIE then (Err E_BAD_PROC, t)
         else (Ok (), on_sch (sched_setaffinity_locked p m) t))"

definition do_getaffinity :: "nat \<Rightarrow> int \<Rightarrow> proc_table \<Rightarrow> u32 outcome" where
  "do_getaffinity c i t = (
     case find_proc_locked c i t of None \<Rightarrow> Err E_BAD_PROC | Some p \<Rightarrow> Ok (cpu_mask (proc_of t p)))"

definition do_yield :: "nat \<Rightarrow> proc_table \<Rightarrow> proc_table" where
  "do_yield cur t = on_sch (upd_proc cur (\<lambda>g. g\<lparr>need_resched := True\<rparr>)) t"

definition lab6_set_priority :: "nat \<Rightarrow> u32 \<Rightarrow> proc_table \<Rightarrow> proc_table" where
  "lab6_set_priority cur priority t =
     on_sch (upd_proc cur (\<lambda>g. g\<lparr>lab6_priority := (if priority = 0 then 1 else priority)\<rparr>)) t"

text \<open>\<open>do_sleep\<close> up to its call of \<open>schedule\<close>, and from its return on.\<close>

definition sleep_begin :: "nat \<Rightarrow> nat \<Rightarrow> nat \<Rightarrow> nat \<Rightarrow> proc_table \<Rightarrow> unit wait_result outcome \<times> proc_table" where
  "sleep_begin c cur time timer t = (
     if time = 0 then (Ok (Done ()), t)
     else if signal_should_interrupt cur (ker t) then (Err E_INTR, t)
     else
       let s = upd_proc cur (\<lambda>g. g\<lparr>state := PROC_SLEEPING, wait_state := WT_TIMER\<rparr>) (sch (ker t)) in
       case add_timer \<lparr>expires = time, timer_proc = cur, timer_id = timer\<rparr> s of
         (Ok _, s) \<Rightarrow> (Ok Asleep, on_sch (\<lambda>_. schedule c s) t)
       | (Err e, s) \<Rightarrow> (Err e, on_sch (\<lambda>_. s) t)
       | (Fault, s) \<Rightarrow> (Fault, on_sch (\<lambda>_. s) t))"

definition sleep_end :: "nat \<Rightarrow> nat \<Rightarrow> proc_table \<Rightarrow> unit outcome \<times> proc_table" where
  "sleep_end cur timer t = (
     let t = on_sch (del_timer timer) t in
     if signal_should_interrupt cur (ker t) then (Err E_INTR, t) else (Ok (), t))"

end
