(* ===== verification/Proc_Table.thy ===== *)
theory Proc_Table
  imports Proc
begin

text \<open>
  The invariant of the process table: identifiers are unique, the hash lists and the list of processes
  agree, the counter of processes is right with forks in progress, and the sibling pointers implement the
  family of processes, an abstract map from a process to the list of its children.  It holds over every
  interleaving of forks, exits, waits, signals and scheduling, and gives the properties of \<open>get_pid\<close>,
  \<open>find_proc\<close>, \<open>do_exit\<close>, \<open>do_wait_options\<close> and \<open>do_kill_signal\<close>.
\<close>

section \<open>Linked siblings\<close>

text \<open>
  A segment of the list of children of a process: \<open>y\<close> is the next younger sibling of its first element,
  and \<open>q\<close> the pointer to it; \<open>y'\<close> and \<open>q'\<close> are those of what follows.
\<close>

type_synonym links = "nat \<Rightarrow> nat option"

fun seg :: "links \<Rightarrow> links \<Rightarrow> nat option \<Rightarrow> nat option \<Rightarrow> nat list \<Rightarrow> nat option \<Rightarrow> nat option \<Rightarrow> bool" where
  "seg yp op y q [] y' q' \<longleftrightarrow> y' = y \<and> q' = q"
| "seg yp op y q (k # ks) y' q' \<longleftrightarrow> q = Some k \<and> yp k = y \<and> seg yp op (Some k) (op k) ks y' q'"

definition sibs :: "links \<Rightarrow> links \<Rightarrow> nat option \<Rightarrow> nat option \<Rightarrow> nat list \<Rightarrow> bool" where
  "sibs yp op y q ks \<longleftrightarrow> (\<exists>y'. seg yp op y q ks y' None)"

lemma seg_append: "seg yp op y q (as @ bs) y2 q2 \<longleftrightarrow> (\<exists>y1 q1. seg yp op y q as y1 q1 \<and> seg yp op y1 q1 bs y2 q2)"
  by (induction as arbitrary: y q) auto

lemma seg_cong:
  "\<forall>k\<in>set ks. yp' k = yp k \<and> op' k = op k \<Longrightarrow> seg yp' op' y q ks y' q' = seg yp op y q ks y' q'"
  by (induction ks arbitrary: y q) auto

lemma sibs_cong:
  "\<forall>k\<in>set ks. yp' k = yp k \<and> op' k = op k \<Longrightarrow> sibs yp' op' y q ks = sibs yp op y q ks"
  unfolding sibs_def by (simp only: seg_cong [of ks yp' yp op' op])

lemma sibs_simps [simp]:
  "sibs yp op y q [] \<longleftrightarrow> q = None"
  "sibs yp op y q (k # ks) \<longleftrightarrow> q = Some k \<and> yp k = y \<and> sibs yp op (Some k) (op k) ks"
  by (auto simp: sibs_def)

text \<open>The pointer to the first element changes its younger sibling, and the last one what follows.\<close>

lemma sibs_head:
  assumes "sibs yp op y q ks" "distinct ks"
  shows "sibs (case q of Some k \<Rightarrow> yp(k := v) | None \<Rightarrow> yp) op v q ks"
proof (cases ks)
  case (Cons k js)
  then have "sibs (yp(k := v)) op (Some k) (op k) js = sibs yp op (Some k) (op k) js"
    using assms(2) by (intro sibs_cong) auto
  then show ?thesis
    using assms(1) Cons by simp
qed (use assms in simp)

lemma seg_end: "seg yp op y q ks y' q' \<Longrightarrow> ks \<noteq> [] \<Longrightarrow> y' = Some (last ks) \<and> q' = op (last ks)"
  by (induction ks arbitrary: y q) (auto split: if_splits)

lemma seg_redirect:
  "seg yp op y q ks y' q' \<Longrightarrow> distinct ks \<Longrightarrow> ks \<noteq> [] \<Longrightarrow> seg yp (op(last ks := x)) y q ks y' x"
proof (induction ks arbitrary: y q)
  case (Cons k ks)
  show ?case
  proof (cases ks)
    case (Cons j js)
    then have "k \<noteq> last ks"
      using Cons.prems(2) by (metis distinct.simps(2) last_in_set list.distinct(1))
    then show ?thesis
      using Cons Cons.IH [of "Some k" "op k"] Cons.prems by simp
  qed (use Cons.prems in simp)
qed simp

lemma sibs_add:
  assumes "sibs yp op None q ks" "distinct ks" "p \<notin> set ks"
  shows "sibs (case q of Some k \<Rightarrow> (yp(p := None))(k := Some p) | None \<Rightarrow> yp(p := None)) (op(p := q)) None (Some p) (p # ks)"
proof -
  let ?yp = "yp(p := None)"
  have "sibs ?yp (op(p := q)) None q ks"
    using assms by (subst sibs_cong [where yp = yp and op = op]) auto
  then have "sibs (case q of Some k \<Rightarrow> ?yp(k := Some p) | None \<Rightarrow> ?yp) (op(p := q)) (Some p) q ks"
    using assms(2) by (rule sibs_head)
  moreover have "(case q of Some k \<Rightarrow> ?yp(k := Some p) | None \<Rightarrow> ?yp) p = None"
    using assms(1,3) by (cases ks; cases q) auto
  ultimately show ?thesis
    by simp
qed

lemma sibs_remove:
  assumes l: "sibs yp op None q ks" and d: "distinct ks" and p: "p \<in> set ks"
    and yp': "yp' = (case op p of Some k \<Rightarrow> yp(k := yp p) | None \<Rightarrow> yp)"
  shows "yp' p = None \<Longrightarrow> q = Some p \<and> sibs yp' op None (op p) (remove1 p ks)"
    "yp' p = Some y \<Longrightarrow> y \<in> set ks \<and> sibs yp' (op(y := op p)) None q (remove1 p ks)"
proof -
  obtain as bs where ks: "ks = as @ p # bs" "p \<notin> set as"
    using split_list_first [OF p] by auto
  have rem: "remove1 p ks = as @ bs"
    using ks by (simp add: remove1_append)
  obtain y1 where as: "seg yp op None q as y1 (Some p)" and y1: "yp p = y1" and bs: "sibs yp op (Some p) (op p) bs"
    using l unfolding sibs_def ks seg_append by auto
  have dd: "distinct as" "distinct bs" "p \<notin> set bs" "set as \<inter> set bs = {}"
    using d ks by auto
  have bs': "sibs yp' op y1 (op p) bs"
    unfolding yp' y1 by (rule sibs_head [OF bs dd(2)])
  have hd: "op p = Some k \<Longrightarrow> k \<in> set bs" for k
    using bs by (cases bs) auto
  have keep: "\<forall>k\<in>insert p (set as). yp' k = yp k"
    using hd dd ks unfolding yp' by (cases "op p") auto
  then have as': "seg yp' op None q as y1 (Some p)"
    using as by (subst seg_cong [where yp = yp and op = op]) auto
  show "q = Some p \<and> sibs yp' op None (op p) (remove1 p ks)" if "yp' p = None"
  proof -
    have "as = []"
      using that keep y1 seg_end [OF as] by auto
    then show ?thesis
      using as bs' that keep y1 rem by auto
  qed
  show "y \<in> set ks \<and> sibs yp' (op(y := op p)) None q (remove1 p ks)" if "yp' p = Some y"
  proof -
    have ne: "as \<noteq> []"
      using as that keep y1 by auto
    then have y: "y = last as" "y1 = Some y"
      using seg_end [OF as ne] that keep y1 by auto
    have "seg yp' (op(y := op p)) None q as y1 (op p)"
      unfolding y(1) by (rule seg_redirect [OF as' dd(1) ne])
    moreover have "y \<notin> set bs"
      using dd(4) y(1) last_in_set [OF ne] by blast
    then have "sibs yp' (op(y := op p)) y1 (op p) bs"
      using bs' by (subst sibs_cong [where yp = yp' and op = op]) auto
    ultimately show ?thesis
      using ne y(1) ks(1) unfolding rem sibs_def seg_append by auto
  qed
qed

section \<open>Well-formed process tables\<close>

text \<open>
  The family of the processes: \<open>kids p\<close> are the children of \<open>p\<close>, the youngest first.  While \<open>do_exit\<close>
  gives the children of a process in \<open>h\<close> away, the first of them may have a stale \<open>yptr\<close>.
\<close>

definition family :: "nat set \<Rightarrow> (nat \<Rightarrow> nat list) \<Rightarrow> proc_table \<Rightarrow> bool" where
  "family h kids t \<longleftrightarrow> (\<forall>p. (\<exists>y. (p \<notin> h \<longrightarrow> y = None) \<and> sibs (yptr t) (optr t) y (cptr t p) (kids p)) \<and> distinct (kids p) \<and>
     set (kids p) = {c \<in> set (proc_list t). proc_parent (proc_of t c) = Some p})"

lemma familyD:
  assumes "family h kids t"
  shows "p \<notin> h \<Longrightarrow> sibs (yptr t) (optr t) None (cptr t p) (kids p)" "distinct (kids p)"
    "set (kids p) = {c \<in> set (proc_list t). proc_parent (proc_of t c) = Some p}"
    "\<exists>y. sibs (yptr t) (optr t) y (cptr t p) (kids p)"
  using assms unfolding family_def by blast+

lemma family_head: "family h kids t \<Longrightarrow> cptr t p = (case kids p of [] \<Rightarrow> None | k # ks \<Rightarrow> Some k)"
  using familyD(4) [of h kids t p] by (cases "kids p") auto

lemma sibs_next: "sibs yp op y q ks \<Longrightarrow> k \<in> set ks \<Longrightarrow> op k = Some j \<Longrightarrow> j \<in> set ks"
proof (induction ks arbitrary: y q)
  case (Cons a ks)
  then show ?case by (cases ks) auto
qed simp

lemma set_links_family:
  assumes fam: "family {} kids t" and p: "p \<notin> set (proc_list t)" "proc_parent (proc_of t p) = Some q"
  obtains yp op cp u where "set_links p t = (Ok (), u)" "family {} (kids(q := p # kids q)) u"
    "u = t\<lparr>proc_list := p # proc_list t, yptr := yp, optr := op, cptr := cp\<rparr>"
proof -
  let ?yp0 = "(yptr t)(p := None)"
  define yp where "yp = (case cptr t q of Some k \<Rightarrow> ?yp0(k := Some p) | None \<Rightarrow> ?yp0)"
  define op where "op = (optr t)(p := cptr t q)"
  define u where "u = t\<lparr>proc_list := p # proc_list t, yptr := yp, optr := op, cptr := (cptr t)(q := Some p)\<rparr>"
  have run: "set_links p t = (Ok (), u)"
    using p(2) by (simp add: set_links_def u_def yp_def op_def split: option.splits)
  have np: "p \<notin> set (kids r)" for r
    using familyD(3) [OF fam, of r] p(1) by auto
  have hd: "cptr t q = Some k \<Longrightarrow> k \<in> set (kids q)" for k
    using family_head [OF fam, of q] by (cases "kids q") auto
  have new: "sibs yp op None (Some p) (p # kids q)"
    unfolding yp_def op_def by (rule sibs_add) (use familyD [OF fam] np in auto)
  have keep: "sibs yp op None (cptr t r) (kids r)" if "r \<noteq> q" for r
  proof -
    have "\<forall>k\<in>set (kids r). yp k = yptr t k \<and> op k = optr t k"
      using hd np [of r] familyD(3) [OF fam, of q] familyD(3) [OF fam, of r] that unfolding yp_def op_def
      by (cases "cptr t q") auto
    then show ?thesis
      using familyD(1) [OF fam, of r] by (subst sibs_cong [where yp = "yptr t" and op = "optr t"]) auto
  qed
  have "family {} (kids(q := p # kids q)) u"
    unfolding family_def u_def using new keep familyD(2,3) [OF fam] np p by auto
  then show ?thesis
    using that [OF run] unfolding u_def by simp
qed

lemma remove_links_family:
  assumes fam: "family {} kids t" and p: "p \<in> set (proc_list t)" "distinct (proc_list t)" "proc_parent (proc_of t p) = Some q"
  obtains yp op cp u where "remove_links p t = (Ok (), u)" "family {} (kids(q := remove1 p (kids q))) u"
    "u = t\<lparr>proc_list := remove1 p (proc_list t), yptr := yp, optr := op, cptr := cp, nr_process := nr_process t - 1\<rparr>"
proof -
  define yp where "yp = (case optr t p of Some k \<Rightarrow> (yptr t)(k := yptr t p) | None \<Rightarrow> yptr t)"
  define op where "op = (case yp p of Some y \<Rightarrow> (optr t)(y := optr t p) | None \<Rightarrow> optr t)"
  define cp where "cp = (case yp p of Some y \<Rightarrow> cptr t | None \<Rightarrow> (cptr t)(q := optr t p))"
  define u where "u = t\<lparr>proc_list := remove1 p (proc_list t), yptr := yp, optr := op, cptr := cp, nr_process := nr_process t - 1\<rparr>"
  have run: "remove_links p t = (Ok (), u)"
    using p(3) by (cases "optr t p"; cases "yp p") (auto simp: remove_links_def Let_def u_def yp_def op_def cp_def)
  have mem: "p \<in> set (kids q)"
    using familyD(3) [OF fam, of q] p by auto
  note sib = familyD(1) [OF fam, of q, simplified] and d = familyD(2) [OF fam, of q]
  note rem = sibs_remove [OF sib d mem yp_def]
  have new: "sibs yp op None (cp q) (remove1 p (kids q))"
    using rem unfolding op_def cp_def by (cases "yp p") auto
  have inq: "optr t p = Some k \<Longrightarrow> k \<in> set (kids q)" "yp p = Some y \<Longrightarrow> y \<in> set (kids q)" for k y
    using sibs_next [OF sib mem] rem(2) by auto
  have keep: "sibs yp op None (cp r) (kids r)" if "r \<noteq> q" for r
  proof -
    have "set (kids r) \<inter> set (kids q) = {}"
      using familyD(3) [OF fam, of q] familyD(3) [OF fam, of r] that by auto
    then have "\<forall>k\<in>set (kids r). yp k = yptr t k \<and> op k = optr t k"
      using inq unfolding yp_def op_def by (auto split: option.splits)
    then have "sibs yp op None (cptr t r) (kids r)"
      using familyD(1) [OF fam, of r] by (subst sibs_cong [where yp = "yptr t" and op = "optr t"]) auto
    then show ?thesis
      using that unfolding cp_def by (auto split: option.splits)
  qed
  have "family {} (kids(q := remove1 p (kids q))) u"
    unfolding family_def u_def using new keep familyD(2,3) [OF fam] p by auto
  then show ?thesis
    using that [OF run] unfolding u_def by simp
qed

section \<open>What the scheduler leaves alone\<close>

text \<open>The scheduler changes neither identifiers nor parents, and no process ends or comes back by it.\<close>

definition same_ids :: "sched \<Rightarrow> sched \<Rightarrow> bool" where
  "same_ids s u \<longleftrightarrow> idleproc u = idleproc s \<and> (\<forall>p. pid (procs u p) = pid (procs s p) \<and>
     proc_parent (procs u p) = proc_parent (procs s p) \<and>
     (state (procs u p) = PROC_ZOMBIE \<longleftrightarrow> state (procs s p) = PROC_ZOMBIE))"

lemma same_ids_refl [simp]: "same_ids s s"
  by (simp add: same_ids_def)

lemma same_ids_trans: "same_ids s u \<Longrightarrow> same_ids u v \<Longrightarrow> same_ids s v"
  by (simp add: same_ids_def)

lemma same_ids_upd:
  "(\<And>g. pid (f g) = pid g \<and> proc_parent (f g) = proc_parent g) \<Longrightarrow>
   (state (f (procs s p)) = PROC_ZOMBIE \<longleftrightarrow> state (procs s p) = PROC_ZOMBIE) \<Longrightarrow> same_ids s (upd_proc p f s)"
  by (simp add: same_ids_def)

lemma same_ids_queue [simp]:
  "same_ids s (stride_enqueue q p s)" "same_ids s (stride_dequeue q p s)"
  "same_ids s (sched_class_enqueue_locked q p s)" "same_ids s (sched_class_dequeue_locked q p s)"
  "same_ids s (snd (stride_pick_next_for_cpu q c s))"
  by (auto simp: same_ids_def stride_enqueue_def stride_dequeue_def sched_class_enqueue_locked_def
      sched_class_dequeue_locked_def stride_pick_next_for_cpu_def Let_def split: option.splits)

lemma same_ids_enqueue [simp]: "same_ids s (snd (sched_enqueue_proc_locked p s))"
  by (auto simp: sched_enqueue_proc_locked_def split: option.splits)

lemma same_ids_wakeup [simp]: "same_ids s (wakeup_proc p s)"
proof -
  let ?s = "upd_proc p (\<lambda>g. g\<lparr>state := PROC_RUNNABLE, wait_state := 0\<rparr>) s"
  have "same_ids s (snd (sched_enqueue_proc_locked p ?s))" if "state (procs s p) \<noteq> PROC_ZOMBIE"
    by (rule same_ids_trans [OF same_ids_upd same_ids_enqueue]) (use that in auto)
  then show ?thesis
    by (auto simp: wakeup_proc_eq sched_enqueue_proc_def Let_def)
qed

lemma same_ids_steal: "same_ids s (snd (steal_loop is c s))"
proof (induction "is" arbitrary: s)
  case (Cons i "is")
  let ?v = "(c + i) mod sched_ncpu s"
  obtain r u where pick: "stride_pick_next_for_cpu ?v (Some c) s = (r, u)"
    by (cases "stride_pick_next_for_cpu ?v (Some c) s")
  then have "same_ids s u"
    using same_ids_queue(5) [of s ?v "Some c"] by simp
  moreover have "same_ids u (upd_proc p (\<lambda>g. g\<lparr>cpu := c\<rparr>) (sched_class_dequeue_locked ?v p u))" for p
    by (rule same_ids_trans [OF same_ids_queue(4) same_ids_upd]) auto
  ultimately show ?case
    using Cons [of s] Cons [of u] pick by (cases r) (auto simp: Let_def intro: same_ids_trans)
qed simp

lemma same_ids_picked:
  "stride_pick_next_for_cpu q c s = (Some p, u) \<Longrightarrow> same_ids s (sched_class_dequeue_locked q p u)"
  using same_ids_trans [OF _ same_ids_queue(4)] same_ids_queue(5) [of s q c] by simp

lemma same_ids_schedule_locked: "same_ids s (snd (schedule_locked c s))"
proof -
  define run where "run = (\<lambda>prev s. let g = procs s prev;
      s = (if state g = PROC_RUNNABLE \<and> \<not> sched_is_idle prev s \<and> sched_cpu_allowed prev c s \<and> rq g = None \<and> \<not> on_rq g
           then sched_class_enqueue_locked c prev s else s)
    in if proc_num (sched_rq s c) \<noteq> 0
       then case stride_pick_next_for_cpu c (Some c) s of
              (Some p, s) \<Rightarrow> (Some p, sched_class_dequeue_locked c p s) | (None, s) \<Rightarrow> (None, s)
       else (None :: nat option, s))"
  have pick: "same_ids u (snd (case stride_pick_next_for_cpu c (Some c) u of
      (Some p, s) \<Rightarrow> (Some p, sched_class_dequeue_locked c p s) | (None, s) \<Rightarrow> (None :: nat option, s)))" for u
    using same_ids_queue(5) [of u c "Some c"] same_ids_picked [of c "Some c" u]
    by (cases "stride_pick_next_for_cpu c (Some c) u"; cases "fst (stride_pick_next_for_cpu c (Some c) u)") auto
  have run: "same_ids u (snd (run prev u))" for prev u
    using pick same_ids_trans [OF same_ids_queue(3) pick] by (simp add: run_def Let_def)
  define prev where "prev = (case current s c of None \<Rightarrow> (None, s) | Some p \<Rightarrow> run p (upd_proc p (\<lambda>g. g\<lparr>need_resched := False\<rparr>) s))"
  have p: "same_ids s (snd prev)"
  proof (cases "current s c")
    case (Some p)
    have "same_ids s (upd_proc p (\<lambda>g. g\<lparr>need_resched := False\<rparr>) s)"
      by (rule same_ids_upd) auto
    then show ?thesis
      using same_ids_trans [OF _ run] Some unfolding prev_def by simp
  qed (simp add: prev_def)
  define nxt where "nxt = (case prev of (None, s) \<Rightarrow> sched_steal c s | (Some p, s) \<Rightarrow> (Some p, s))"
  have n: "same_ids s (snd nxt)"
    using p same_ids_trans [OF p same_ids_steal] unfolding nxt_def sched_steal_def
    by (cases prev; cases "fst prev") auto
  have "same_ids s (upd_proc q (\<lambda>g. g\<lparr>cpu := c, runs := runs g + 1, on_cpu := True\<rparr>) (snd nxt))" for q
    by (rule same_ids_trans [OF n same_ids_upd]) auto
  moreover have "schedule_locked c s = (case (case fst nxt of None \<Rightarrow> idleproc (snd nxt) c | Some p \<Rightarrow> Some p) of
      None \<Rightarrow> (None, snd nxt)
    | Some p \<Rightarrow> (Some p, upd_proc p (\<lambda>g. g\<lparr>cpu := c, runs := runs g + 1, on_cpu := True\<rparr>) (snd nxt)))"
    unfolding schedule_locked_def nxt_def prev_def run_def Let_def
    by (simp add: case_prod_unfold split: option.splits)
  ultimately show ?thesis
    using n by (auto split: option.splits)
qed

lemma same_ids_schedule [simp]: "same_ids s (schedule c s)"
proof -
  have "same_ids u (proc_run c q u)" for q u
    by (simp add: proc_run_def same_ids_def)
  then show ?thesis
    using same_ids_schedule_locked [of s c] same_ids_trans
    unfolding schedule_def by (cases "schedule_locked c s") (auto simp: Let_def split: option.splits)
qed

lemma same_ids_affinity [simp]: "same_ids s (sched_setaffinity_locked p m s)"
proof -
  let ?a = "upd_proc p (\<lambda>g. g\<lparr>cpu_mask := m\<rparr>) s"
  define u where "u = (case rq (procs ?a p) of
      Some q \<Rightarrow> if on_rq (procs ?a p) \<and> \<not> sched_cpu_allowed p q ?a
        then let s = sched_class_dequeue_locked q p ?a in
          if state (procs s p) = PROC_RUNNABLE \<and> \<not> on_cpu (procs s p) then snd (sched_enqueue_proc_locked p s) else s
        else ?a
    | None \<Rightarrow> ?a)"
  have "same_ids ?a u"
    using same_ids_trans [OF same_ids_queue(4) same_ids_enqueue] unfolding u_def by (simp add: Let_def split: option.splits)
  moreover have "same_ids s ?a" "same_ids u (upd_proc p (\<lambda>g. g\<lparr>need_resched := True\<rparr>) u)"
    by (auto intro: same_ids_upd)
  ultimately have "same_ids s u" "same_ids s (upd_proc p (\<lambda>g. g\<lparr>need_resched := True\<rparr>) u)"
    using same_ids_trans by blast+
  moreover have "sched_setaffinity_locked p m s =
      (if on_cpu (procs u p) \<and> \<not> sched_cpu_allowed p (cpu (procs u p)) u then upd_proc p (\<lambda>g. g\<lparr>need_resched := True\<rparr>) u else u)"
    unfolding sched_setaffinity_locked_def u_def Let_def by simp
  ultimately show ?thesis
    by simp
qed

lemma same_ids_stop: "state (procs s p) \<noteq> PROC_ZOMBIE \<Longrightarrow> same_ids s (sched_stop_locked p s)"
  using same_ids_queue(4) [of s _ p] by (auto simp: sched_stop_locked_def Let_def same_ids_def split: option.splits)

lemma same_ids_complete [simp]: "same_ids s (proc_switch_complete c s)"
proof (cases "switch_pending s c")
  case (Some p)
  let ?u = "upd_proc p (\<lambda>g. g\<lparr>on_cpu := False\<rparr>) (s\<lparr>switch_pending := (switch_pending s)(c := None)\<rparr>)"
  have u: "same_ids s ?u"
    by (simp add: same_ids_def)
  note w = same_ids_trans [OF u same_ids_wakeup] same_ids_trans [OF same_ids_trans [OF u same_ids_wakeup] same_ids_wakeup]
  show ?thesis
    unfolding proc_switch_complete_def switch_retire_def using u w Some by (simp add: Let_def split: option.splits)
qed (simp add: proc_switch_complete_def switch_retire_def)

lemma same_ids_timers: "same_ids s (snd (run_timers ts s))"
proof (induction ts arbitrary: s)
  case (Cons a ts)
  let ?u = "s\<lparr>timer_list := ts\<rparr>"
  have "same_ids s ?u" "same_ids ?u (wakeup_proc p ?u)" for p
    by (simp_all add: same_ids_def [of s])
  then have "same_ids s (wakeup_proc p ?u)" for p
    using same_ids_trans by blast
  then show ?case
    using same_ids_trans [OF _ Cons] by (simp add: Let_def) (simp add: same_ids_def)
qed (simp add: same_ids_def)

lemma same_ids_tick: "same_ids s (snd (run_timer_list c s))"
proof -
  have "same_ids u (sched_tick c u)" for u
    unfolding sched_tick_def stride_proc_tick_def
    by (auto simp: Let_def split: option.splits if_splits intro!: same_ids_upd)
  then show ?thesis
    using same_ids_timers [of s "timer_list s"] unfolding run_timer_list_def
    by (cases "run_timers (timer_list s) s"; cases "fst (run_timers (timer_list s) s)") (auto intro: same_ids_trans)
qed

section \<open>The invariant\<close>

text \<open>
  \<open>F\<close> are the processes that \<open>do_fork\<close> has allocated and not yet published, and \<open>n\<close> is the number of
  forks that have only reserved their place.
\<close>

definition is_idle :: "proc_table \<Rightarrow> nat \<Rightarrow> bool" where
  "is_idle t p \<longleftrightarrow> (\<exists>c. idleproc (sch (ker t)) c = Some p)"

definition pids :: "proc_table \<Rightarrow> int list" where
  "pids t = map (\<lambda>p. pid (proc_of t p)) (proc_list t)"

definition ids_wf :: "nat set \<Rightarrow> nat \<Rightarrow> proc_table \<Rightarrow> bool" where
  "ids_wf F n t \<longleftrightarrow> distinct (pids t) \<and> (\<forall>i\<in>set (pids t). 0 < i \<and> i < MAX_PID) \<and>
     pid_gap (pids t) (last_pid t) (next_safe t) \<and>
     (\<forall>b. distinct (hash_list t b) \<and> set (hash_list t b) = {p \<in> set (proc_list t). pid_hashfn (pid (proc_of t p)) = b}) \<and>
     finite F \<and> F \<inter> set (proc_list t) = {} \<and> (\<forall>p. is_idle t p \<longrightarrow> p \<notin> F \<and> p \<notin> set (proc_list t)) \<and>
     nr_process t = 1 + int (length (proc_list t)) + int n + int (card F) \<and> nr_process t \<le> MAX_PROCESS"

definition parents_wf :: "proc_table \<Rightarrow> bool" where
  "parents_wf t \<longleftrightarrow>
     (\<forall>p\<in>set (proc_list t). \<exists>q. proc_parent (proc_of t p) = Some q \<and> q \<noteq> p \<and> (q \<in> set (proc_list t) \<or> is_idle t q) \<and>
        state (proc_of t q) \<noteq> PROC_ZOMBIE \<and> (p = initproc t \<longrightarrow> is_idle t q)) \<and>
     (proc_list t \<noteq> [] \<longrightarrow> initproc t \<in> set (proc_list t)) \<and> state (proc_of t (initproc t)) \<noteq> PROC_ZOMBIE"

definition table_wf :: "nat set \<Rightarrow> nat \<Rightarrow> proc_table \<Rightarrow> bool" where
  "table_wf F n t \<longleftrightarrow> ids_wf F n t \<and> parents_wf t \<and> (\<exists>kids. family {} kids t)"

lemma ids_wfD:
  assumes "ids_wf F n t"
  shows "distinct (proc_list t)" "inj_on (\<lambda>p. pid (proc_of t p)) (set (proc_list t))"
  using assms by (auto simp: ids_wf_def pids_def distinct_map)

text \<open>Which parts of the state the conditions speak about.\<close>

definition same_table :: "proc_table \<Rightarrow> proc_table \<Rightarrow> bool" where
  "same_table t u \<longleftrightarrow> proc_list u = proc_list t \<and> hash_list u = hash_list t \<and> nr_process u = nr_process t \<and>
     last_pid u = last_pid t \<and> next_safe u = next_safe t \<and> initproc u = initproc t \<and>
     idleproc (sch (ker u)) = idleproc (sch (ker t)) \<and> (\<forall>p. pid (proc_of u p) = pid (proc_of t p))"

lemma same_table_simps:
  assumes "same_table t u"
  shows "pids u = pids t" "is_idle u = is_idle t" "proc_list u = proc_list t" "initproc u = initproc t"
    "ids_wf F n u = ids_wf F n t"
proof -
  have [simp]: "pids u = pids t" "is_idle u = is_idle t"
    using assms by (simp_all add: same_table_def pids_def is_idle_def fun_eq_iff)
  show "pids u = pids t" "is_idle u = is_idle t" "proc_list u = proc_list t" "initproc u = initproc t"
    using assms by (simp_all add: same_table_def)
  show "ids_wf F n u = ids_wf F n t"
    using assms by (simp add: ids_wf_def same_table_def)
qed

lemma on_ker_fields [simp]:
  "ker (on_ker f t) = f (ker t)" "proc_list (on_ker f t) = proc_list t" "hash_list (on_ker f t) = hash_list t"
  "cptr (on_ker f t) = cptr t" "yptr (on_ker f t) = yptr t" "optr (on_ker f t) = optr t"
  "nr_process (on_ker f t) = nr_process t" "last_pid (on_ker f t) = last_pid t" "next_safe (on_ker f t) = next_safe t"
  "initproc (on_ker f t) = initproc t" "exit_code (on_ker f t) = exit_code t" "cpu_ticks (on_ker f t) = cpu_ticks t"
  "children_cpu_ticks (on_ker f t) = children_cpu_ticks t" "children_switches (on_ker f t) = children_switches t"
  by (simp_all add: on_ker_def)

lemma on_sch_fields [simp]:
  "ker (on_sch f t) = (ker t)\<lparr>sch := f (sch (ker t))\<rparr>" "proc_list (on_sch f t) = proc_list t" "hash_list (on_sch f t) = hash_list t"
  "cptr (on_sch f t) = cptr t" "yptr (on_sch f t) = yptr t" "optr (on_sch f t) = optr t"
  "nr_process (on_sch f t) = nr_process t" "last_pid (on_sch f t) = last_pid t" "next_safe (on_sch f t) = next_safe t"
  "initproc (on_sch f t) = initproc t" "exit_code (on_sch f t) = exit_code t" "cpu_ticks (on_sch f t) = cpu_ticks t"
  "children_cpu_ticks (on_sch f t) = children_cpu_ticks t" "children_switches (on_sch f t) = children_switches t"
  by (simp_all add: on_sch_def)

text \<open>A step that only the scheduler or the signal state notices.\<close>

lemma other_wf:
  assumes ids: "same_ids (sch (ker t)) (sch k)" and wf: "table_wf F n t"
  shows "table_wf F n (t\<lparr>ker := k\<rparr>)"
proof -
  let ?u = "t\<lparr>ker := k\<rparr>"
  have s: "same_table t ?u"
    using ids by (simp add: same_table_def same_ids_def)
  have "family {} kids ?u = family {} kids t" for kids
    using ids by (simp add: family_def same_ids_def)
  moreover have "parents_wf ?u = parents_wf t"
    using ids same_table_simps(2) [OF s] by (simp add: parents_wf_def same_ids_def)
  ultimately show ?thesis
    using wf same_table_simps(5) [OF s] by (simp add: table_wf_def)
qed

text \<open>What the table relies on in the scheduler.\<close>

locale table_neutral =
  fixes f :: "sched \<Rightarrow> sched"
  assumes neutral: "same_ids s (f s)"
begin

lemma keeps_wf: "table_wf F n t \<Longrightarrow> table_wf F n (on_sch f t)"
  using other_wf [of t "(ker t)\<lparr>sch := f (sch (ker t))\<rparr>"] neutral by (simp add: on_sch_def on_ker_def)

lemma keeps_family: "family h kids (on_sch f t) = family h kids t"
  using neutral [of "sch (ker t)"] by (simp add: family_def same_ids_def)

lemma keeps_pid: "pid (procs (f s) p) = pid (procs s p)"
  using neutral [of s] by (simp add: same_ids_def)

lemma keeps_parent: "proc_parent (procs (f s) p) = proc_parent (procs s p)"
  using neutral [of s] by (simp add: same_ids_def)

lemma keeps_idle: "is_idle (on_sch f t) = is_idle t"
  using neutral [of "sch (ker t)"] by (simp add: is_idle_def same_ids_def fun_eq_iff)

lemma keeps_zombies: "state (procs (f s) p) = PROC_ZOMBIE \<longleftrightarrow> state (procs s p) = PROC_ZOMBIE"
  using neutral [of s] by (simp add: same_ids_def)

end

interpretation wakeup: table_neutral "wakeup_proc p" for p
  by unfold_locales simp

interpretation reschedule: table_neutral "schedule c" for c
  by unfold_locales simp

interpretation affinity: table_neutral "sched_setaffinity_locked p m" for p m
  by unfold_locales simp

interpretation switched: table_neutral "proc_switch_complete c" for c
  by unfold_locales simp

section \<open>Fork keeps the invariant\<close>

lemma free_pid:
  assumes "ids_wf F n t"
  obtains f where "1 \<le> f" "f < MAX_PID" "f \<notin> set (pids t)"
proof -
  have "card (set (pids t)) \<le> length (proc_list t)"
    by (metis card_length length_map pids_def)
  moreover have "int (length (proc_list t)) < MAX_PROCESS"
    using assms by (simp add: ids_wf_def)
  ultimately have "card (set (pids t)) < card {1..<MAX_PID}"
    by simp
  then have "\<not> {1..<MAX_PID} \<subseteq> set (pids t)"
    using card_mono [of "set (pids t)" "{1..<MAX_PID}"] by (metis finite_set not_le)
  then obtain f where "f \<in> {1..<MAX_PID}" "f \<notin> set (pids t)"
    by blast
  then show ?thesis
    using that [of f] by simp
qed

lemma get_pid_ok:
  assumes "ids_wf F n t"
  obtains i l where "get_pid t = Some (i, t\<lparr>last_pid := i, next_safe := l\<rparr>)" "1 \<le> i" "i < MAX_PID" "i \<notin> set (pids t)"
    "pid_gap (i # pids t) i l"
proof -
  obtain f where f: "1 \<le> f" "f < MAX_PID" "f \<notin> set (pids t)"
    by (rule free_pid [OF assms])
  have "pid_gap (pids t) (last_pid t) (next_safe t)"
    using assms by (simp add: ids_wf_def)
  then obtain i l where i: "next_pid (pids t) (last_pid t) (next_safe t) = Some (i, l)" "1 \<le> i" "i < MAX_PID" "i \<notin> set (pids t)"
      "pid_gap (i # pids t) i l"
    using next_pid_fresh [OF _ f] by blast
  have "get_pid t = Some (i, t\<lparr>last_pid := i, next_safe := l\<rparr>)"
    using i(1) unfolding get_pid_def pids_def by simp
  then show ?thesis
    using that i(2-5) by blast
qed

lemma count_wf:
  assumes "table_wf F n t"
  shows "nr_process t < MAX_PROCESS \<Longrightarrow> table_wf F (Suc n) (t\<lparr>nr_process := nr_process t + 1\<rparr>)"
    "n = Suc m \<Longrightarrow> table_wf F m (fork_abort t)" "p \<in> F \<Longrightarrow> table_wf (F - {p}) n (fork_abort t)"
proof -
  have fam: "family {} kids (t\<lparr>nr_process := x\<rparr>) = family {} kids t" for kids x
    by (simp add: family_def)
  have par: "parents_wf (t\<lparr>nr_process := x\<rparr>) = parents_wf t" for x
    by (simp add: parents_wf_def is_idle_def)
  have pids: "pids (t\<lparr>nr_process := x\<rparr>) = pids t" for x
    by (simp add: pids_def)
  show "nr_process t < MAX_PROCESS \<Longrightarrow> table_wf F (Suc n) (t\<lparr>nr_process := nr_process t + 1\<rparr>)"
    "n = Suc m \<Longrightarrow> table_wf F m (fork_abort t)"
    using assms by (auto simp: table_wf_def fam par pids fork_abort_def ids_wf_def is_idle_def)
  show "table_wf (F - {p}) n (fork_abort t)" if "p \<in> F"
  proof -
    have "finite F"
      using assms by (simp add: table_wf_def ids_wf_def)
    then have "card F = Suc (card (F - {p}))"
      using that by (metis card.remove)
    then show ?thesis
      using assms by (auto simp: table_wf_def fam par pids fork_abort_def ids_wf_def is_idle_def)
  qed
qed

lemma private_wf:
  assumes wf: "table_wf F n t" and p: "p \<notin> set (proc_list t)" "\<not> is_idle t p"
    and u: "proc_list u = proc_list t" "hash_list u = hash_list t" "nr_process u = nr_process t" "last_pid u = last_pid t"
      "next_safe u = next_safe t" "initproc u = initproc t" "idleproc (sch (ker u)) = idleproc (sch (ker t))"
      "\<And>q. q \<noteq> p \<Longrightarrow> proc_of u q = proc_of t q \<and> yptr u q = yptr t q \<and> optr u q = optr t q \<and> cptr u q = cptr t q"
      "cptr u p = None" "initproc t = p \<Longrightarrow> state (proc_of u p) \<noteq> PROC_ZOMBIE"
  shows "ids_wf F n u = ids_wf F n t" "parents_wf u" "\<exists>kids. family {} kids u"
proof -
  have idle: "is_idle u = is_idle t"
    using u(7) by (simp add: is_idle_def fun_eq_iff)
  have same: "\<forall>q\<in>set (proc_list t). proc_of u q = proc_of t q"
    using p(1) u(8) by metis
  have pids: "pids u = pids t"
    using same u(1) by (simp add: pids_def)
  have "{q \<in> set (proc_list t). pid_hashfn (pid (proc_of u q)) = b} = {q \<in> set (proc_list t). pid_hashfn (pid (proc_of t q)) = b}" for b
    using same by auto
  then show "ids_wf F n u = ids_wf F n t"
    using u(1-5) by (simp add: ids_wf_def pids idle)
  have par: "q \<noteq> p" if "c \<in> set (proc_list t)" "proc_parent (proc_of t c) = Some q" for c q
    using wf that p unfolding table_wf_def parents_wf_def by auto
  show "parents_wf u"
    unfolding parents_wf_def idle u(1,6)
  proof (intro conjI ballI)
    fix c
    assume c: "c \<in> set (proc_list t)"
    then obtain q where q: "proc_parent (proc_of t c) = Some q" "q \<noteq> c" "q \<in> set (proc_list t) \<or> is_idle t q"
        "state (proc_of t q) \<noteq> PROC_ZOMBIE" "c = initproc t \<longrightarrow> is_idle t q"
      using wf unfolding table_wf_def parents_wf_def by blast
    then show "\<exists>q. proc_parent (proc_of u c) = Some q \<and> q \<noteq> c \<and> (q \<in> set (proc_list t) \<or> is_idle t q) \<and>
        state (proc_of u q) \<noteq> PROC_ZOMBIE \<and> (c = initproc t \<longrightarrow> is_idle t q)"
      using same c par [OF c q(1)] u(8) by (intro exI [of _ q]) auto
  next
    show "proc_list t \<noteq> [] \<longrightarrow> initproc t \<in> set (proc_list t)"
      using wf by (simp add: table_wf_def parents_wf_def)
    show "state (proc_of u (initproc t)) \<noteq> PROC_ZOMBIE"
      using wf u(8,10) by (cases "initproc t = p") (auto simp: table_wf_def parents_wf_def)
  qed
  obtain kids where fam: "family {} kids t"
    using wf by (auto simp: table_wf_def)
  have "set (kids p) = {}"
    using familyD(3) [OF fam, of p] par [of _ p] by auto
  then have none: "kids p = []"
    by simp
  have "sibs (yptr u) (optr u) None (cptr u q) (kids q)" for q
  proof (cases "q = p")
    case False
    have "k \<noteq> p" if "k \<in> set (kids q)" for k
      using familyD(3) [OF fam, of q] p(1) that by auto
    then have "\<forall>k\<in>set (kids q). yptr u k = yptr t k \<and> optr u k = optr t k"
      using u(8) by simp
    then have "sibs (yptr u) (optr u) None (cptr t q) (kids q) = sibs (yptr t) (optr t) None (cptr t q) (kids q)"
      by (rule sibs_cong)
    then show ?thesis
      using familyD(1) [OF fam, of q] u(8) [OF False] by simp
  qed (use u(9) none in simp)
  moreover have "{c \<in> set (proc_list u). proc_parent (proc_of u c) = Some q} = {c \<in> set (proc_list t). proc_parent (proc_of t c) = Some q}" for q
    using same u(1) by auto
  ultimately show "\<exists>kids. family {} kids u"
    using familyD(2,3) [OF fam] unfolding family_def by (intro exI [of _ kids]) auto
qed

lemma new_process_wf:
  assumes wf: "table_wf F (Suc n) t" and p: "p \<notin> F" "p \<notin> set (proc_list t)" "\<not> is_idle t p"
  shows "table_wf (insert p F) n (alloc_proc online p t)"
proof -
  let ?u = "alloc_proc online p t"
  note prv = private_wf [OF wf p(2,3), of ?u]
  have "ids_wf F (Suc n) ?u = ids_wf F (Suc n) t" "parents_wf ?u" "\<exists>kids. family {} kids ?u"
    by (rule prv; simp add: alloc_proc_def)+
  moreover have "is_idle ?u = is_idle t" "proc_list ?u = proc_list t"
    by (simp_all add: alloc_proc_def is_idle_def fun_eq_iff)
  ultimately show ?thesis
    using wf p by (auto simp: table_wf_def ids_wf_def)
qed

lemma inherit_wf:
  assumes wf: "table_wf F n t" and p: "p \<in> F" and ok: "fork_inherit cur p t = (r, u)"
  shows "table_wf F n u"
proof -
  have q: "p \<notin> set (proc_list t)" "\<not> is_idle t p"
    using wf p by (auto simp: table_wf_def ids_wf_def)
  obtain kids where fam: "family {} kids t"
    using wf by (auto simp: table_wf_def)
  have "c \<in> set (proc_list t) \<Longrightarrow> proc_parent (proc_of t c) \<noteq> Some p" for c
    using wf q by (auto simp: table_wf_def parents_wf_def)
  then have "set (kids p) = {}"
    using familyD(3) [OF fam, of p] by simp
  then have c: "cptr t p = None"
    using family_head [OF fam, of p] by simp
  note prv = private_wf [OF wf q, of u]
  have i: "state (proc_of t (initproc t)) \<noteq> PROC_ZOMBIE"
    using wf by (simp add: table_wf_def parents_wf_def)
  have "ids_wf F n u = ids_wf F n t" "parents_wf u" "\<exists>kids. family {} kids u"
    by (rule prv; use ok c i in \<open>auto simp: fork_inherit_def Let_def upd_signal_def split: if_splits\<close>)+
  then show ?thesis
    using wf by (simp add: table_wf_def)
qed

lemma publish_wf:
  assumes wf: "table_wf F n t" and p: "p \<in> F"
    and q: "proc_parent (proc_of t p) = Some q" "q \<in> set (proc_list t) \<or> is_idle t q" "state (proc_of t q) \<noteq> PROC_ZOMBIE"
    and first: "proc_list t = [] \<Longrightarrow> p = initproc t"
  obtains i u where "fork_publish p t = Some (Ok i, u)" "table_wf (F - {p}) n u" "1 \<le> i" "i < MAX_PID" "i \<notin> set (pids t)"
    "proc_list u = p # proc_list t" "initproc u = initproc t" "is_idle u = is_idle t"
    "\<forall>c. pid (proc_of u c) = (if c = p then i else pid (proc_of t c))" "\<forall>c. proc_parent (proc_of u c) = proc_parent (proc_of t c)"
    "\<forall>c. state (proc_of u c) = PROC_ZOMBIE \<longleftrightarrow> state (proc_of t c) = PROC_ZOMBIE"
proof -
  have ids: "ids_wf F n t" and par: "parents_wf t"
    using wf by (simp_all add: table_wf_def)
  obtain kids where fam: "family {} kids t"
    using wf by (auto simp: table_wf_def)
  have np: "p \<notin> set (proc_list t)"
    using ids p by (auto simp: ids_wf_def)
  obtain i l where i: "get_pid t = Some (i, t\<lparr>last_pid := i, next_safe := l\<rparr>)" "1 \<le> i" "i < MAX_PID" "i \<notin> set (pids t)"
      "pid_gap (i # pids t) i l"
    by (rule get_pid_ok [OF ids])
  define t1 where "t1 = hash_proc p (on_sch (upd_proc p (\<lambda>g. g\<lparr>pid := i\<rparr>)) (t\<lparr>last_pid := i, next_safe := l\<rparr>))"
  have t1: "proc_list t1 = proc_list t" "proc_of t1 = (\<lambda>c. if c = p then (proc_of t p)\<lparr>pid := i\<rparr> else proc_of t c)"
      "cptr t1 = cptr t" "yptr t1 = yptr t" "optr t1 = optr t" "nr_process t1 = nr_process t" "last_pid t1 = i" "next_safe t1 = l"
      "hash_list t1 = (hash_list t)(pid_hashfn i := p # hash_list t (pid_hashfn i))" "initproc t1 = initproc t"
      "idleproc (sch (ker t1)) = idleproc (sch (ker t))"
    by (auto simp: t1_def hash_proc_def Let_def fun_eq_iff)
  have "{c \<in> set (proc_list t). proc_parent (proc_of t1 c) = Some r} = {c \<in> set (proc_list t). proc_parent (proc_of t c) = Some r}" for r
    using np by (auto simp: t1)
  then have fam1: "family {} kids t1"
    using fam unfolding family_def t1(1,3-5) by simp
  obtain yp op cp u where u: "set_links p t1 = (Ok (), u)" "family {} (kids(q := p # kids q)) u"
      "u = t1\<lparr>proc_list := p # proc_list t1, yptr := yp, optr := op, cptr := cp\<rparr>"
    by (rule set_links_family [OF fam1, of p q]) (use np q(1) t1 in auto)
  have uf: "proc_list u = p # proc_list t" "proc_of u = proc_of t1" "idleproc (sch (ker u)) = idleproc (sch (ker t))"
      "hash_list u = hash_list t1" "nr_process u = nr_process t" "last_pid u = i" "next_safe u = l" "initproc u = initproc t"
    using t1 u(3) by simp_all
  have idle: "is_idle u = is_idle t"
    by (simp add: is_idle_def uf fun_eq_iff)
  have same: "map (\<lambda>c. pid (proc_of t1 c)) (proc_list t) = pids t"
    unfolding pids_def using np by (auto simp: t1)
  then have pids: "pids u = i # pids t"
    by (simp add: pids_def uf t1(2))
  have fin: "finite F"
    using ids by (simp add: ids_wf_def)
  note card = fin card.remove [OF fin p]
  have hash: "distinct (hash_list u b) \<and> set (hash_list u b) = {c \<in> set (proc_list u). pid_hashfn (pid (proc_of u c)) = b}" for b
  proof -
    have h: "distinct (hash_list t b)" "set (hash_list t b) = {c \<in> set (proc_list t). pid_hashfn (pid (proc_of t c)) = b}"
      using ids by (simp_all add: ids_wf_def)
    then have new: "p \<notin> set (hash_list t b)"
      using np by simp
    have e: "{c \<in> set (proc_list u). pid_hashfn (pid (proc_of u c)) = b} =
        (if b = pid_hashfn i then {p} else {}) \<union> {c \<in> set (proc_list t). pid_hashfn (pid (proc_of t c)) = b}"
      using np by (auto simp: uf t1(2))
    show ?thesis
      unfolding e h(2) [symmetric] using h(1) new by (cases "b = pid_hashfn i") (simp_all add: uf(4) t1(9))
  qed
  have old: "distinct (pids t)" "\<forall>i\<in>set (pids t). 0 < i \<and> i < MAX_PID" "F \<inter> set (proc_list t) = {}"
      "\<forall>p. is_idle t p \<longrightarrow> p \<notin> F \<and> p \<notin> set (proc_list t)"
      "nr_process t = 1 + int (length (proc_list t)) + int n + int (card F)" "nr_process t \<le> MAX_PROCESS"
    using ids by (simp_all add: ids_wf_def)
  have "ids_wf (F - {p}) n u"
    unfolding ids_wf_def pids idle uf(5-7)
    using i(2-5) hash card p old unfolding uf(1) by auto
  moreover have ps: "proc_parent (proc_of u c) = proc_parent (proc_of t c)" "state (proc_of u c) = state (proc_of t c)" for c
    by (simp_all add: uf(2) t1(2))
  have "parents_wf u"
    unfolding parents_wf_def idle ps uf(1,8) using par q first np old(4) p by (auto simp: parents_wf_def)
  ultimately have wfu: "table_wf (F - {p}) n u"
    using u(2) by (auto simp: table_wf_def)
  define v where "v = on_sch (wakeup_proc p) u"
  have "table_wf (F - {p}) n v"
    unfolding v_def by (rule wakeup.keeps_wf [OF wfu])
  moreover have pv: "pid (proc_of v c) = pid (proc_of t1 c)" "proc_parent (proc_of v c) = proc_parent (proc_of t c)"
      "state (proc_of v c) = PROC_ZOMBIE \<longleftrightarrow> state (proc_of t c) = PROC_ZOMBIE" for c
    by (simp_all add: v_def wakeup.keeps_pid wakeup.keeps_parent wakeup.keeps_zombies ps uf(2) [symmetric])
  moreover have "fork_publish p t = Some (Ok (pid (proc_of v p)), v)"
    using i(1) u(1) by (simp add: fork_publish_def t1_def [symmetric] v_def)
  moreover have "proc_list v = p # proc_list t" "initproc v = initproc t"
    by (simp_all add: v_def uf)
  moreover have "is_idle v = is_idle t"
    unfolding v_def wakeup.keeps_idle by (rule idle)
  ultimately show ?thesis
    using that [of i v] i(2-4) by (simp add: t1(2))
qed

section \<open>Reaping keeps the invariant\<close>

lemma reap_wf:
  assumes wf: "table_wf F n t" and p: "p \<in> set (proc_list t)" "state (proc_of t p) = PROC_ZOMBIE"
  obtains u where "reap p t = (Ok (), u)" "table_wf F n u" "proc_list u = remove1 p (proc_list t)" "ker u = ker t"
    "exit_code u = exit_code t" "initproc u = initproc t"
proof -
  have ids: "ids_wf F n t" and par: "parents_wf t"
    using wf by (simp_all add: table_wf_def)
  obtain kids where fam: "family {} kids t"
    using wf by (auto simp: table_wf_def)
  note dist = ids_wfD(1) [OF ids]
  obtain q where q: "proc_parent (proc_of t p) = Some q"
    using par p(1) by (auto simp: parents_wf_def)
  let ?t = "unhash_proc p t"
  have "family {} kids ?t"
    using fam by (simp add: family_def unhash_proc_def)
  then obtain yp op cp u where u: "remove_links p ?t = (Ok (), u)" "family {} (kids(q := remove1 p (kids q))) u"
      "u = ?t\<lparr>proc_list := remove1 p (proc_list ?t), yptr := yp, optr := op, cptr := cp, nr_process := nr_process ?t - 1\<rparr>"
    by (rule remove_links_family) (use p(1) dist q in \<open>auto simp: unhash_proc_def\<close>)
  have uf: "proc_list u = remove1 p (proc_list t)" "ker u = ker t" "hash_list u = (\<lambda>b. remove1 p (hash_list t b))"
      "nr_process u = nr_process t - 1" "last_pid u = last_pid t" "next_safe u = next_safe t" "initproc u = initproc t"
      "exit_code u = exit_code t"
    by (simp_all add: u(3) unhash_proc_def)
  have idle: "is_idle u = is_idle t"
    by (simp add: is_idle_def uf fun_eq_iff)
  have "distinct (pids u)" and sub: "set (pids u) \<subseteq> set (pids t)"
    using ids dist unfolding ids_wf_def pids_def uf by (auto simp: distinct_map inj_on_def)
  moreover have "length (proc_list t) = Suc (length (proc_list u))"
    using p(1) by (simp add: uf length_remove1) (metis Suc_pred length_pos_if_in_set)
  moreover have "pid_gap (pids u) (last_pid t) (next_safe t)"
    using ids sub by (auto simp: ids_wf_def pid_gap_def)
  moreover have "distinct (hash_list u b) \<and> set (hash_list u b) = {c \<in> set (proc_list u). pid_hashfn (pid (proc_of u c)) = b}" for b
    using ids dist by (auto simp: ids_wf_def uf)
  ultimately have "ids_wf F n u"
    using ids dist unfolding ids_wf_def idle by (auto simp: uf)
  moreover have "proc_parent (proc_of t c) \<noteq> Some p" if "c \<in> set (proc_list t)" for c
    using par that p(2) by (auto simp: parents_wf_def)
  then have "parents_wf u"
    using par p dist unfolding parents_wf_def idle uf by auto
  ultimately have "table_wf F n u"
    using u(2) by (auto simp: table_wf_def)
  then show ?thesis
    using that u(1) uf by (simp add: reap_def)
qed

section \<open>Exit keeps the invariant\<close>

lemma notify_frame:
  assumes "notify_parent q t = (w, u)"
  shows "u = t\<lparr>ker := ker u\<rparr>" "state (proc_of t q) \<noteq> PROC_ZOMBIE \<Longrightarrow> same_ids (sch (ker t)) (sch (ker u))"
    "\<And>c. proc_parent (proc_of u c) = proc_parent (proc_of t c)"
  using assms by (auto simp: notify_parent_def Let_def on_sch_def on_ker_def same_ids_def signal_queue_def upd_signal_def split: if_splits)

lemma adopt_child_family:
  assumes fam: "family {p} kids t" and k: "kids p = k # ks" and i: "initproc t \<noteq> p"
  shows "family {p} (kids(p := ks, initproc t := k # kids (initproc t))) (adopt_child p k t)"
proof -
  let ?i = "initproc t" and ?u = "adopt_child p k t"
  define yp where "yp = (case cptr t ?i of Some o' \<Rightarrow> ((yptr t)(k := None))(o' := Some k) | None \<Rightarrow> (yptr t)(k := None))"
  define op where "op = (optr t)(k := cptr t ?i)"
  have u: "yptr ?u = yp" "optr ?u = op" "cptr ?u = ((cptr t)(p := optr t k))(?i := Some k)" "proc_list ?u = proc_list t"
      "proc_of ?u = (\<lambda>c. if c = k then (proc_of t k)\<lparr>proc_parent := Some ?i\<rparr> else proc_of t c)"
    using i by (auto simp: adopt_child_def Let_def yp_def op_def fun_eq_iff split: option.splits)
  have mem: "set (kids r) = {c \<in> set (proc_list t). proc_parent (proc_of t c) = Some r}" for r
    by (rule familyD(3) [OF fam])
  have kp: "k \<in> set (proc_list t)" "proc_parent (proc_of t k) = Some p" "k \<notin> set ks" "distinct ks"
    using mem [of p] familyD(2) [OF fam, of p] k by auto
  have other: "k \<notin> set (kids r)" if "r \<noteq> p" for r
    using mem [of r] kp(2) that by auto
  have hd: "cptr t ?i = Some o' \<Longrightarrow> o' \<in> set (kids ?i)" for o'
    using family_head [OF fam, of ?i] by (cases "kids ?i") auto
  have "sibs yp op None (Some k) (k # kids ?i)"
    unfolding yp_def op_def by (rule sibs_add) (use familyD [OF fam] i other in auto)
  moreover have same: "yp c = yptr t c \<and> op c = optr t c" if "c \<in> set (kids r)" "r \<noteq> ?i" "c \<noteq> k" for c r
    using hd mem [of ?i] mem [of r] that unfolding yp_def op_def by (cases "cptr t ?i") auto
  have "sibs yp op None (cptr t r) (kids r)" if "r \<noteq> p" "r \<noteq> ?i" for r
    using familyD(1) [OF fam, of r] that same other [OF that(1)]
    by (subst sibs_cong [where yp = "yptr t" and op = "optr t"]) auto
  moreover have "sibs (yptr t) (optr t) (Some k) (optr t k) ks"
    using familyD(4) [OF fam, of p] k by auto
  then have "sibs yp op (Some k) (optr t k) ks"
    using same [of _ p] i k kp(3) by (subst sibs_cong [where yp = "yptr t" and op = "optr t"]) auto
  moreover have "{c \<in> set (proc_list t). proc_parent (proc_of ?u c) = Some r} =
      set ((kids(p := ks, ?i := k # kids ?i)) r)" for r
    using mem [of r] mem [of p] mem [of ?i] k kp i by (auto simp: u(5))
  ultimately show ?thesis
    unfolding family_def u using familyD(2) [OF fam] other k kp(4) i by auto
qed

lemma other_same: "same_ids (sch (ker t)) (sch k) \<Longrightarrow> same_table t (t\<lparr>ker := k\<rparr>)"
  by (simp add: same_ids_def same_table_def)

lemma same_table_trans: "same_table t u \<Longrightarrow> same_table u v \<Longrightarrow> same_table t v"
  by (simp add: same_table_def)

text \<open>The loop of \<open>do_exit\<close> returns, and gives all children of \<open>p\<close> to \<open>initproc\<close>.\<close>

lemma adopt_children_ok:
  assumes "family {p} kids t" "initproc t \<noteq> p" "state (proc_of t (initproc t)) \<noteq> PROC_ZOMBIE"
  shows "\<exists>w u. adopt_children p b t = Some (w, u) \<and>
    family {} (kids(p := [], initproc t := rev (kids p) @ kids (initproc t))) u \<and> same_table t u \<and> exit_code u = exit_code t \<and>
    (\<forall>c. (state (proc_of u c) = PROC_ZOMBIE \<longleftrightarrow> state (proc_of t c) = PROC_ZOMBIE) \<and>
      proc_parent (proc_of u c) = (if c \<in> set (kids p) then Some (initproc t) else proc_parent (proc_of t c)))"
  using assms
proof (induction "kids p" arbitrary: kids t b)
  case Nil
  have c: "cptr t p = None"
    using family_head [OF Nil(2), of p] Nil(1) by (metis list.simps(4))
  then have "adopt_children p b t = Some (b, t)"
    by (subst adopt_children.simps) simp
  moreover have "family {} kids t"
    unfolding family_def
  proof (intro allI conjI)
    fix r
    show "\<exists>y. (r \<notin> {} \<longrightarrow> y = None) \<and> sibs (yptr t) (optr t) y (cptr t r) (kids r)"
      using familyD(1) [OF Nil(2), of r] Nil(1) c by (cases "r = p") (metis sibs_simps(1), simp)
    show "distinct (kids r)" "set (kids r) = {c \<in> set (proc_list t). proc_parent (proc_of t c) = Some r}"
      using familyD(2,3) [OF Nil(2), of r] by simp_all
  qed
  moreover have eq: "kids(p := [], initproc t := rev (kids p) @ kids (initproc t)) = kids" "c \<notin> set (kids p)" for c
    using Nil(1) by (auto simp: fun_eq_iff simp flip: Nil(1))
  ultimately show ?case
    unfolding eq(1) using eq(2) by (simp add: same_table_def)
next
  case (Cons k ks)
  let ?i = "initproc t" and ?u = "adopt_child p k t"
  let ?kids = "kids(p := ks, ?i := k # kids ?i)"
  have kp: "kids p = k # ks"
    using Cons(2) by simp
  have c: "cptr t p = Some k"
    using family_head [OF Cons(3), of p] kp by simp
  have fam: "family {p} ?kids ?u"
    by (rule adopt_child_family [OF Cons(3) kp Cons(4)])
  have u: "initproc ?u = ?i" "same_table t ?u" "exit_code ?u = exit_code t" "\<And>c. state (proc_of ?u c) = state (proc_of t c)"
      "\<And>c. proc_parent (proc_of ?u c) = (if c = k then Some ?i else proc_parent (proc_of t c))"
    by (auto simp: adopt_child_def Let_def same_table_def split: option.splits)
  define next_step where "next_step = (if state (proc_of ?u k) = PROC_ZOMBIE then notify_parent ?i ?u else (False, ?u))"
  obtain w v where v: "next_step = (w, v)"
    by (cases next_step)
  have "\<exists>kv. v = ?u\<lparr>ker := kv\<rparr> \<and> same_ids (sch (ker ?u)) (sch kv)"
  proof (cases "state (proc_of ?u k) = PROC_ZOMBIE")
    case True
    then have n: "notify_parent ?i ?u = (w, v)"
      using v unfolding next_step_def by simp
    have "state (proc_of ?u ?i) \<noteq> PROC_ZOMBIE"
      using Cons(5) u(4) by simp
    then show ?thesis
      using notify_frame(1,2) [OF n] by blast
  next
    case False
    then show ?thesis
      using v unfolding next_step_def by (intro exI [of _ "ker ?u"]) simp
  qed
  then obtain kv where kv: "v = ?u\<lparr>ker := kv\<rparr>" "same_ids (sch (ker ?u)) (sch kv)"
    by blast
  have run: "adopt_children p b t = adopt_children p (w \<or> b) v"
    using v c u(1) unfolding next_step_def by (subst adopt_children.simps) (auto simp: Let_def split: if_splits)
  have vt: "same_table t v" "initproc v = ?i" "exit_code v = exit_code t"
    using same_table_trans [OF u(2) other_same [OF kv(2)]] u(1,3) kv(1) by simp_all
  have vp: "state (proc_of v c) = PROC_ZOMBIE \<longleftrightarrow> state (proc_of t c) = PROC_ZOMBIE"
      "proc_parent (proc_of v c) = (if c = k then Some ?i else proc_parent (proc_of t c))" for c
    using kv u(4,5) by (simp_all add: same_ids_def)
  have "family {p} ?kids v"
    using fam kv by (simp add: family_def same_ids_def)
  then obtain w' u' where u': "adopt_children p (w \<or> b) v = Some (w', u')"
      "family {} (?kids(p := [], ?i := rev (?kids p) @ ?kids ?i)) u'" "same_table v u'" "exit_code u' = exit_code v"
      "\<forall>c. (state (proc_of u' c) = PROC_ZOMBIE \<longleftrightarrow> state (proc_of v c) = PROC_ZOMBIE) \<and>
        proc_parent (proc_of u' c) = (if c \<in> set (?kids p) then Some ?i else proc_parent (proc_of v c))"
    using Cons(1) [of ?kids v "w \<or> b"] vt(2) vp(1) [of ?i] Cons(4,5) by auto
  moreover have "?kids(p := [], ?i := rev (?kids p) @ ?kids ?i) = kids(p := [], ?i := rev (kids p) @ kids ?i)"
    using kp Cons(4) by (auto simp: fun_eq_iff)
  ultimately have "family {} (kids(p := [], ?i := rev (kids p) @ kids ?i)) u'"
    by simp
  then show ?case
    using run u'(1,3-5) vt vp Cons(4) kp same_table_trans [OF vt(1) u'(3)] by auto
qed

lemma parent_ok:
  assumes "table_wf F n t" "p \<in> set (proc_list t)"
  obtains q where "proc_parent (proc_of t p) = Some q" "q \<noteq> p" "q \<in> set (proc_list t) \<or> is_idle t q"
    "state (proc_of t q) \<noteq> PROC_ZOMBIE" "p = initproc t \<longrightarrow> is_idle t q"
  using assms unfolding table_wf_def parents_wf_def by blast

lemma init_ok:
  assumes "table_wf F n t" "p \<in> set (proc_list t)"
  shows "initproc t \<in> set (proc_list t)" "state (proc_of t (initproc t)) \<noteq> PROC_ZOMBIE"
  using assms by (auto simp: table_wf_def parents_wf_def)

lemma exit_locked_ok:
  assumes wf: "table_wf F n t" and p: "p \<in> set (proc_list t)" "p \<noteq> initproc t" and fam: "family {} kids t"
  obtains wp wi u where "exit_locked p code t = Some (wp, wi, u)" "table_wf F n u" "same_table t u"
    "family {} (kids(p := [], initproc t := rev (kids p) @ kids (initproc t))) u"
    "\<forall>c. state (proc_of u c) = PROC_ZOMBIE \<longleftrightarrow> c = p \<or> state (proc_of t c) = PROC_ZOMBIE"
    "exit_code u = (exit_code t)(p := code)"
proof -
  let ?i = "initproc t"
  obtain q where q: "proc_parent (proc_of t p) = Some q" "q \<noteq> p" "state (proc_of t q) \<noteq> PROC_ZOMBIE"
    by (rule parent_ok [OF wf p(1)])
  note init = init_ok [OF wf p(1)]
  define t1 where "t1 = (on_sch (upd_proc p (\<lambda>g. g\<lparr>state := PROC_ZOMBIE\<rparr>)) t)\<lparr>exit_code := (exit_code t)(p := code),
    children_cpu_ticks := (children_cpu_ticks t)(q := children_cpu_ticks t q + cpu_ticks t p),
    children_switches := (children_switches t)(q := children_switches t q + of_int (runs (proc_of t p)))\<rparr>"
  have t1: "same_table t t1" "exit_code t1 = (exit_code t)(p := code)" "initproc t1 = ?i"
      "\<And>c. proc_parent (proc_of t1 c) = proc_parent (proc_of t c)"
      "\<And>c. state (proc_of t1 c) = (if c = p then PROC_ZOMBIE else state (proc_of t c))" "proc_list t1 = proc_list t"
    by (auto simp: t1_def same_table_def)
  obtain w v where v: "notify_parent q t1 = (w, v)"
    by (cases "notify_parent q t1")
  have vf: "v = t1\<lparr>ker := ker v\<rparr>" "same_ids (sch (ker t1)) (sch (ker v))"
    using notify_frame [OF v] q(2,3) t1(5) by auto
  define kv where "kv = ker v"
  note vk = vf [folded kv_def]
  have same: "same_table t v" "exit_code v = (exit_code t)(p := code)" "initproc v = ?i"
      "\<And>c. proc_parent (proc_of v c) = proc_parent (proc_of t c)"
      "\<And>c. state (proc_of v c) = PROC_ZOMBIE \<longleftrightarrow> c = p \<or> state (proc_of t c) = PROC_ZOMBIE"
    using same_table_trans [OF t1(1) other_same [OF vk(2)]] t1(2-5) vk by (simp_all add: same_ids_def)
  have "sibs (yptr v) (optr v) None (cptr v r) (kids r)" for r
    using familyD(1) [OF fam, of r] vk(1) by (simp add: t1_def)
  then have "family {p} kids v"
    using familyD(2,3) [OF fam] same_table_simps(3) [OF same(1)] same(4) unfolding family_def by auto
  then obtain wi u where u: "adopt_children p False v = Some (wi, u)"
      "family {} (kids(p := [], ?i := rev (kids p) @ kids ?i)) u" "same_table v u" "exit_code u = exit_code v"
      "\<And>c. state (proc_of u c) = PROC_ZOMBIE \<longleftrightarrow> state (proc_of v c) = PROC_ZOMBIE"
      "\<And>c. proc_parent (proc_of u c) = (if c \<in> set (kids p) then Some ?i else proc_parent (proc_of v c))"
    using adopt_children_ok [of p kids v False] same(3,5) p(2) init(2) by metis
  have tu: "same_table t u"
    by (rule same_table_trans [OF same(1) u(3)])
  have "exit_locked p code t = Some (if w then Some q else None, wi, u)"
    using q(1) v u(1) unfolding exit_locked_def t1_def by (simp add: Let_def)
  moreover have "parents_wf u"
    unfolding parents_wf_def same_table_simps [OF tu]
  proof (intro conjI ballI)
    fix c
    assume c: "c \<in> set (proc_list t)"
    obtain r where r: "proc_parent (proc_of t c) = Some r" "r \<noteq> c" "r \<in> set (proc_list t) \<or> is_idle t r"
        "state (proc_of t r) \<noteq> PROC_ZOMBIE" "c = ?i \<longrightarrow> is_idle t r"
      by (rule parent_ok [OF wf c])
    have np: "\<not> is_idle t p"
      using wf p(1) by (auto simp: table_wf_def ids_wf_def)
    have "c \<in> set (kids p) \<longleftrightarrow> r = p"
      using familyD(3) [OF fam, of p] c r(1) by simp
    then show "\<exists>q. proc_parent (proc_of u c) = Some q \<and> q \<noteq> c \<and> (q \<in> set (proc_list t) \<or> is_idle t q) \<and>
        state (proc_of u q) \<noteq> PROC_ZOMBIE \<and> (c = ?i \<longrightarrow> is_idle t q)"
      using r u(5,6) same(4,5) init p(2) np by (cases "r = p") auto
  qed (use init u(5) same(5) p(2) in auto)
  then have "table_wf F n u"
    using wf u(2) same_table_simps(5) [OF tu] by (auto simp: table_wf_def)
  ultimately show ?thesis
    using that tu u(2,4,5) same(2,5) by metis
qed

lemma on_sch_wf: "same_ids (sch (ker t)) (f (sch (ker t))) \<Longrightarrow> table_wf F n t \<Longrightarrow> table_wf F n (on_sch f t)"
  using other_wf [of t "(ker t)\<lparr>sch := f (sch (ker t))\<rparr>"] by (simp add: on_sch_def on_ker_def)

lemma not_idle: "table_wf F n t \<Longrightarrow> p \<in> set (proc_list t) \<Longrightarrow> idleproc (sch (ker t)) c \<noteq> Some p"
  by (auto simp: table_wf_def ids_wf_def is_idle_def)

lemma exit_process_ok:
  assumes wf: "table_wf F n t" and p: "current (sch (ker t)) c = Some p" "p \<in> set (proc_list t)" "p \<noteq> initproc t"
    and fam: "family {} kids t"
  obtains u where "exit_process c code t = Some (Ok (), u)" "table_wf F n u" "proc_list u = proc_list t"
    "family {} (kids(p := [], initproc t := rev (kids p) @ kids (initproc t))) u"
    "\<forall>c. state (proc_of u c) = PROC_ZOMBIE \<longleftrightarrow> c = p \<or> state (proc_of t c) = PROC_ZOMBIE"
    "\<forall>c. pid (proc_of u c) = pid (proc_of t c)" "exit_code u = (exit_code t)(p := code)"
proof -
  obtain wp wi v where v: "exit_locked p code t = Some (wp, wi, v)" "table_wf F n v" "same_table t v"
      "family {} (kids(p := [], initproc t := rev (kids p) @ kids (initproc t))) v"
      "\<forall>c. state (proc_of v c) = PROC_ZOMBIE \<longleftrightarrow> c = p \<or> state (proc_of t c) = PROC_ZOMBIE"
      "exit_code v = (exit_code t)(p := code)"
    by (rule exit_locked_ok [OF wf p(2,3) fam, of code])
  define v1 where "v1 = (case wp of Some q \<Rightarrow> on_sch (wakeup_proc q) v | None \<Rightarrow> v)"
  define v2 where "v2 = (if wi then on_sch (wakeup_proc (initproc v1)) v1 else v1)"
  define u where "u = on_sch (schedule c) v2"
  have "exit_process c code t = Some (Ok (), u)"
    using v(1) p not_idle [OF wf p(2)] unfolding exit_process_def u_def v2_def v1_def by (auto simp: Let_def)
  moreover have "table_wf F n u"
    unfolding u_def v2_def v1_def by (auto split: option.splits intro!: reschedule.keeps_wf wakeup.keeps_wf v(2))
  moreover have "family h ks u = family h ks v" "pid (proc_of u q) = pid (proc_of v q)" "proc_list u = proc_list v"
      "state (proc_of u q) = PROC_ZOMBIE \<longleftrightarrow> state (proc_of v q) = PROC_ZOMBIE" "exit_code u = exit_code v" for h ks q
    unfolding u_def v2_def v1_def
    by (simp_all add: reschedule.keeps_family wakeup.keeps_family reschedule.keeps_pid wakeup.keeps_pid
        reschedule.keeps_zombies wakeup.keeps_zombies split: option.splits)
  ultimately show ?thesis
    using that [of u] v(3-6) by (simp add: same_table_def)
qed

lemma hash_lookup_iff:
  assumes "ids_wf F n t"
  shows "hash_lookup i t = Some p \<longleftrightarrow> p \<in> set (proc_list t) \<and> pid (proc_of t p) = i"
proof -
  have set: "set (hash_list t b) = {p \<in> set (proc_list t). pid_hashfn (pid (proc_of t p)) = b}" for b
    using assms by (simp add: ids_wf_def)
  have inj: "q = p" if "q \<in> set (proc_list t)" "p \<in> set (proc_list t)" "pid (proc_of t q) = pid (proc_of t p)" for q
    using ids_wfD(2) [OF assms] that by (auto dest: inj_onD)
  have dir: "q \<in> set (proc_list t) \<and> pid (proc_of t q) = i" if lookup: "hash_lookup i t = Some q" for q
  proof -
    obtain j where j: "j < length (hash_list t (pid_hashfn i))" "pid (proc_of t q) = i" "q = hash_list t (pid_hashfn i) ! j"
      using lookup unfolding hash_lookup_def find_Some_iff by blast
    then have "q \<in> set (hash_list t (pid_hashfn i))"
      by simp
    then show ?thesis
      using j(2) set [of "pid_hashfn i"] by simp
  qed
  show ?thesis
  proof
    assume p: "p \<in> set (proc_list t) \<and> pid (proc_of t p) = i"
    then have "p \<in> set (hash_list t (pid_hashfn i))"
      using set by simp
    then obtain q where "hash_lookup i t = Some q"
      using p unfolding hash_lookup_def
      by (cases "find (\<lambda>p. pid (proc_of t p) = i) (hash_list t (pid_hashfn i))") (auto simp: find_None_iff)
    then show "hash_lookup i t = Some p"
      using dir p inj by metis
  qed (rule dir)
qed

lemma find_proc_iff: "ids_wf F n t \<Longrightarrow> find_proc i t = Some p \<longleftrightarrow> p \<in> set (proc_list t) \<and> pid (proc_of t p) = i"
  using hash_lookup_iff [of F n t i p] by (auto simp: find_proc_def ids_wf_def pids_def)

lemma kid_loop_find:
  "sibs yp (optr t) y q ks \<Longrightarrow> kid_loop t q b = Some (b \<or> ks \<noteq> [], find (reapable t) ks)"
proof (induction ks arbitrary: y q b)
  case Nil
  then show ?case by (subst kid_loop.simps) simp
next
  case (Cons k ks)
  then show ?case by (subst kid_loop.simps) auto
qed

section \<open>Waiting\<close>

text \<open>The children that a call waits for.\<close>

definition children_for :: "nat \<Rightarrow> int \<Rightarrow> proc_table \<Rightarrow> nat set" where
  "children_for cur i t = {p \<in> set (proc_list t). proc_parent (proc_of t p) = Some cur \<and> (i = 0 \<or> pid (proc_of t p) = i)}"

lemma wait_scan:
  assumes wf: "table_wf F n t"
  obtains found where "(if i \<noteq> 0 then Some (wait_one cur i t) else kid_loop t (cptr t cur) False) = Some (children_for cur i t \<noteq> {}, found)"
    "\<forall>p. found = Some p \<longrightarrow> p \<in> children_for cur i t \<and> reapable t p" "found = None \<longrightarrow> (\<forall>p\<in>children_for cur i t. \<not> reapable t p)"
proof (cases "i = 0")
  case True
  obtain kids where fam: "family {} kids t"
    using wf by (auto simp: table_wf_def)
  have set: "set (kids cur) = children_for cur i t"
    using familyD(3) [OF fam, of cur] True by (simp add: children_for_def)
  have run: "kid_loop t (cptr t cur) False = Some (kids cur \<noteq> [], find (reapable t) (kids cur))"
    using kid_loop_find [OF familyD(1) [OF fam, of cur]] by simp
  have "\<forall>p. find (reapable t) (kids cur) = Some p \<longrightarrow> p \<in> children_for cur i t \<and> reapable t p"
    using set by (auto simp: find_Some_iff)
  moreover have "find (reapable t) (kids cur) = None \<longrightarrow> (\<forall>p\<in>children_for cur i t. \<not> reapable t p)"
    using set by (auto simp: find_None_iff)
  moreover have "kids cur \<noteq> [] \<longleftrightarrow> children_for cur i t \<noteq> {}"
    by (simp flip: set)
  ultimately show ?thesis
    using that [of "find (reapable t) (kids cur)"] run True by simp
next
  case False
  have ids: "ids_wf F n t"
    using wf by (simp add: table_wf_def)
  have hit: "find_proc i t = Some p \<longleftrightarrow> p \<in> set (proc_list t) \<and> pid (proc_of t p) = i" for p
    by (rule find_proc_iff [OF ids])
  have one: "children_for cur i t = (case find_proc i t of
      Some p \<Rightarrow> if proc_parent (proc_of t p) = Some cur then {p} else {} | None \<Rightarrow> {})"
  proof (cases "find_proc i t")
    case None
    then have "\<not> (p \<in> set (proc_list t) \<and> pid (proc_of t p) = i)" for p
      using hit [of p] by simp
    then show ?thesis
      using None False by (auto simp: children_for_def)
  next
    case (Some p)
    then have "q \<in> set (proc_list t) \<and> pid (proc_of t q) = i \<longleftrightarrow> q = p" for q
      using hit [of q] by auto
    then have "children_for cur i t = {q. q = p \<and> proc_parent (proc_of t q) = Some cur}"
      using False unfolding children_for_def by blast
    then show ?thesis
      using Some by auto
  qed
  have "wait_one cur i t = (children_for cur i t \<noteq> {}, case find_proc i t of
      Some p \<Rightarrow> if proc_parent (proc_of t p) = Some cur \<and> reapable t p then Some p else None | None \<Rightarrow> None)"
    unfolding one by (simp add: wait_one_def find_proc_def split: option.splits)
  then have "(if i \<noteq> 0 then Some (wait_one cur i t) else kid_loop t (cptr t cur) False) =
      Some (children_for cur i t \<noteq> {}, case find_proc i t of
        Some p \<Rightarrow> if proc_parent (proc_of t p) = Some cur \<and> reapable t p then Some p else None | None \<Rightarrow> None)"
    using False by simp
  then show ?thesis
    by (rule that) (auto simp: one split: option.splits if_splits)
qed

lemma listed_pid: "table_wf F n t \<Longrightarrow> p \<in> set (proc_list t) \<Longrightarrow> 0 < pid (proc_of t p) \<and> pid (proc_of t p) < MAX_PID"
  by (auto simp: table_wf_def ids_wf_def pids_def)

lemma sleep_wf:
  assumes "table_wf F n t" "state (proc_of t cur) \<noteq> PROC_ZOMBIE"
  shows "table_wf F n (wait_sleep c cur t)"
  unfolding wait_sleep_def
  by (rule on_sch_wf [OF _ assms(1)], rule same_ids_trans [OF same_ids_upd same_ids_schedule]) (use assms(2) in auto)

text \<open>What a pass of \<open>do_wait_options\<close> does in a well-formed table.\<close>

lemma wait_pass_cases:
  assumes wf: "table_wf F n t" and go: "\<not> signal_should_interrupt cur (ker t)"
  obtains (reaped) p u where "p \<in> children_for cur i t" "reapable t p" "reap p t = (Ok (), u)"
      "wait_pass c cur i options t = Some (Ok (Done (Some (exit_code t p))), u)"
    | (none) "children_for cur i t = {}" "wait_pass c cur i options t = Some (Err E_BAD_PROC, t)"
    | (busy) "children_for cur i t \<noteq> {}" "\<forall>p\<in>children_for cur i t. \<not> reapable t p"
      "wait_pass c cur i options t = Some (if options AND WNOHANG = 0 then (Ok Asleep, wait_sleep c cur t) else (Ok (Done None), t))"
proof -
  obtain found where f: "(if i \<noteq> 0 then Some (wait_one cur i t) else kid_loop t (cptr t cur) False) = Some (children_for cur i t \<noteq> {}, found)"
    "\<forall>p. found = Some p \<longrightarrow> p \<in> children_for cur i t \<and> reapable t p" "found = None \<longrightarrow> (\<forall>p\<in>children_for cur i t. \<not> reapable t p)"
    by (rule wait_scan [OF wf])
  show ?thesis
  proof (cases found)
    case None
    then show ?thesis
      using none busy f(1,3) go unfolding wait_pass_def by (cases "children_for cur i t = {}") auto
  next
    case (Some p)
    then have p: "p \<in> children_for cur i t" "reapable t p"
      using f(2) by simp_all
    then have l: "p \<in> set (proc_list t)" "state (proc_of t p) = PROC_ZOMBIE"
      by (simp_all add: children_for_def reapable_def)
    obtain u where u: "reap p t = (Ok (), u)" "exit_code u = exit_code t"
      by (rule reap_wf [OF wf l])
    have "p \<noteq> initproc t"
      using init_ok(2) [OF wf l(1)] l(2) by auto
    then have "wait_pass c cur i options t = Some (Ok (Done (Some (exit_code t p))), u)"
      using f(1) go Some u not_idle [OF wf l(1)] unfolding wait_pass_def by simp
    then show ?thesis
      using reaped p u by blast
  qed
qed

lemma wait_pass_wf:
  assumes wf: "table_wf F n t" and cur: "state (proc_of t cur) \<noteq> PROC_ZOMBIE" and run: "wait_pass c cur i options t = Some (r, u)"
  shows "table_wf F n u"
proof (cases "signal_should_interrupt cur (ker t)")
  case True
  then show ?thesis
    using wf run by (simp add: wait_pass_def)
next
  case False
  show ?thesis
    by (rule wait_pass_cases [OF wf False, of i c options])
      (use run wf sleep_wf [OF wf cur] in \<open>auto simp: children_for_def reapable_def split: if_splits elim!: reap_wf [OF wf]\<close>)
qed

lemma waitid_pass_wf:
  assumes wf: "table_wf F n t" and cur: "state (proc_of t cur) \<noteq> PROC_ZOMBIE" and check: "waitid_check idtype i options = Ok ()"
    and run: "waitid_pass c cur idtype i options t = Some (r, u)"
  shows "table_wf F n u"
proof (cases "signal_should_interrupt cur (ker t)")
  case True
  then show ?thesis
    using wf run by (simp add: waitid_pass_def)
next
  case False
  define j where "j = (if idtype = P_PID then i else 0)"
  obtain found where f: "(if j \<noteq> 0 then Some (wait_one cur j t) else kid_loop t (cptr t cur) False) = Some (children_for cur j t \<noteq> {}, found)"
    "\<forall>p. found = Some p \<longrightarrow> p \<in> children_for cur j t \<and> reapable t p" "found = None \<longrightarrow> (\<forall>p\<in>children_for cur j t. \<not> reapable t p)"
    by (rule wait_scan [OF wf])
  have scan: "(if idtype = P_PID then Some (wait_one cur i t) else kid_loop t (cptr t cur) False) = Some (children_for cur j t \<noteq> {}, found)"
    using f(1) check unfolding j_def waitid_check_def by (auto split: if_splits)
  show ?thesis
  proof (cases found)
    case None
    then show ?thesis
      using run False wf sleep_wf [OF wf cur] unfolding waitid_pass_def scan by (auto split: if_splits)
  next
    case (Some p)
    then have p: "p \<in> set (proc_list t)" "state (proc_of t p) = PROC_ZOMBIE"
      using f(2) by (simp_all add: children_for_def reapable_def)
    obtain v where v: "reap p t = (Ok (), v)" "table_wf F n v"
      by (rule reap_wf [OF wf p])
    show ?thesis
      using run False Some v wf unfolding waitid_pass_def scan by (auto simp: Let_def split: if_splits)
  qed
qed

lemma kill_locked_frame:
  assumes "kill_locked p signo t = (w, u)" "state (proc_of t p) \<noteq> PROC_ZOMBIE"
  shows "u = t\<lparr>ker := ker u\<rparr>" "same_ids (sch (ker t)) (sch (ker u))"
  using assms by (auto simp: kill_locked_def Let_def on_sch_def on_ker_def same_ids_def signal_queue_def upd_signal_def split: if_splits)

lemma kill_wf:
  assumes "table_wf F n t"
  shows "table_wf F n (snd (do_kill_signal i signo t))"
proof -
  have "table_wf F n (if w then on_sch (wakeup_proc p) u else u)"
    if "kill_locked p signo t = (w, u)" "state (proc_of t p) \<noteq> PROC_ZOMBIE" for p w u
  proof -
    have "table_wf F n (t\<lparr>ker := ker u\<rparr>)"
      by (rule other_wf [OF kill_locked_frame(2) [OF that] assms])
    then have "table_wf F n u"
      using kill_locked_frame(1) [OF that] by metis
    then show ?thesis
      using wakeup.keeps_wf by simp
  qed
  then show ?thesis
    using assms unfolding do_kill_signal_def by (auto split: option.splits prod.splits)
qed

lemma setaffinity_wf: "table_wf F n t \<Longrightarrow> table_wf F n (snd (do_setaffinity c online i m t))"
  using affinity.keeps_wf unfolding do_setaffinity_def by (auto split: option.splits)

section \<open>Reachable tables\<close>

text \<open>
  The runs of the process table.  A fork is the sequence \<open>reserve\<close>, \<open>alloc\<close>, \<open>inherit\<close>, \<open>publish\<close>, or it
  aborts on the way; forks interleave with each other and with everything else.  The guards say what the
  executing process is: it lives while it forks, waits or exits.  \<open>kmalloc\<close> returns memory that is not in
  use, and the first process to be published is \<open>initproc\<close>, which \<open>proc_init\<close> creates.
\<close>

inductive proc_reach :: "nat set \<Rightarrow> nat \<Rightarrow> proc_table \<Rightarrow> bool" where
  boot: "proc_list t = [] \<Longrightarrow> \<forall>b. hash_list t b = [] \<Longrightarrow> \<forall>p. cptr t p = None \<Longrightarrow> nr_process t = 1 \<Longrightarrow>
    last_pid t = MAX_PID \<Longrightarrow> next_safe t = MAX_PID \<Longrightarrow> state (proc_of t (initproc t)) \<noteq> PROC_ZOMBIE \<Longrightarrow> proc_reach {} 0 t"
| reserve: "proc_reach F n t \<Longrightarrow> fork_reserve t = (Ok (), u) \<Longrightarrow> proc_reach F (Suc n) u"
| abort: "proc_reach F (Suc n) t \<Longrightarrow> proc_reach F n (fork_abort t)"
| abort_late: "proc_reach F n t \<Longrightarrow> p \<in> F \<Longrightarrow> proc_reach (F - {p}) n (fork_abort t)"
| alloc: "proc_reach F (Suc n) t \<Longrightarrow> p \<notin> F \<Longrightarrow> p \<notin> set (proc_list t) \<Longrightarrow> \<not> is_idle t p \<Longrightarrow>
    proc_reach (insert p F) n (alloc_proc online p t)"
| inherit: "proc_reach F n t \<Longrightarrow> p \<in> F \<Longrightarrow> fork_inherit cur p t = (Ok (), u) \<Longrightarrow> proc_reach F n u"
| publish: "proc_reach F n t \<Longrightarrow> p \<in> F \<Longrightarrow> proc_parent (proc_of t p) = Some q \<Longrightarrow> q \<in> set (proc_list t) \<or> is_idle t q \<Longrightarrow>
    state (proc_of t q) \<noteq> PROC_ZOMBIE \<Longrightarrow> proc_list t = [] \<longrightarrow> p = initproc t \<Longrightarrow> fork_publish p t = Some (r, u) \<Longrightarrow>
    proc_reach (F - {p}) n u"
| exit: "proc_reach F n t \<Longrightarrow> current (sch (ker t)) c = Some p \<Longrightarrow> p \<in> set (proc_list t) \<Longrightarrow>
    exit_process c code t = Some (r, u) \<Longrightarrow> proc_reach F n u"
| wait: "proc_reach F n t \<Longrightarrow> state (proc_of t cur) \<noteq> PROC_ZOMBIE \<Longrightarrow> wait_pass c cur i options t = Some (r, u) \<Longrightarrow> proc_reach F n u"
| waitid: "proc_reach F n t \<Longrightarrow> state (proc_of t cur) \<noteq> PROC_ZOMBIE \<Longrightarrow> waitid_check idtype i options = Ok () \<Longrightarrow>
    waitid_pass c cur idtype i options t = Some (r', u) \<Longrightarrow> proc_reach F n u"
| kill: "proc_reach F n t \<Longrightarrow> proc_reach F n (snd (do_kill_signal i signo t))"
| affinity: "proc_reach F n t \<Longrightarrow> proc_reach F n (snd (do_setaffinity c online i m t))"
| other: "proc_reach F n t \<Longrightarrow> same_ids (sch (ker t)) (sch k) \<Longrightarrow> proc_reach F n (t\<lparr>ker := k\<rparr>)"

lemma boot_wf:
  assumes "proc_list t = []" "\<forall>b. hash_list t b = []" "\<forall>p. cptr t p = None" "nr_process t = 1"
    "last_pid t = MAX_PID" "next_safe t = MAX_PID" "state (proc_of t (initproc t)) \<noteq> PROC_ZOMBIE"
  shows "table_wf {} 0 t"
proof -
  have "family {} (\<lambda>_. []) t"
    using assms(1,3) by (simp add: family_def)
  then show ?thesis
    using assms by (auto simp: table_wf_def ids_wf_def parents_wf_def pids_def pid_gap_def)
qed

lemma reach_wf: "proc_reach F n t \<Longrightarrow> table_wf F n t"
proof (induction rule: proc_reach.induct)
  case (boot t)
  then show ?case by (rule boot_wf)
next
  case (reserve F n t u)
  then show ?case using count_wf(1) [of F n t] by (auto simp: fork_reserve_def split: if_splits)
next
  case (publish F n t p q r u)
  show ?case
    by (rule publish_wf [OF publish.IH publish.hyps(2-5)]) (use publish.hyps(6,7) in auto)
next
  case (exit F n t c p code r u)
  obtain kids where fam: "family {} kids t"
    using exit.IH by (auto simp: table_wf_def)
  show ?case
  proof (cases "p = initproc t")
    case True
    then show ?thesis using exit by (simp add: exit_process_def)
  next
    case False
    show ?thesis
      by (rule exit_process_ok [OF exit.IH exit.hyps(2,3) False fam, of code]) (use exit.hyps(4) in auto)
  qed
qed (auto intro: count_wf new_process_wf inherit_wf wait_pass_wf waitid_pass_wf kill_wf setaffinity_wf other_wf)

section \<open>Properties\<close>

text \<open>
  C8: The search for a process identifier ends: in every reachable table \<open>get_pid\<close> returns an identifier
  between 1 and \<open>MAX_PID - 1\<close> that no process has.
\<close>

theorem get_pid_returns:
  assumes "proc_reach F n t"
  shows "\<exists>i u. get_pid t = Some (i, u) \<and> 1 \<le> i \<and> i < MAX_PID \<and> (\<forall>p\<in>set (proc_list t). pid (proc_of t p) \<noteq> i)"
proof -
  have "ids_wf F n t"
    using reach_wf [OF assms] by (simp add: table_wf_def)
  then obtain i l where "get_pid t = Some (i, t\<lparr>last_pid := i, next_safe := l\<rparr>)" "1 \<le> i" "i < MAX_PID" "i \<notin> set (pids t)"
    by (rule get_pid_ok)
  then show ?thesis
    by (auto simp: pids_def)
qed

text \<open>
  C5: The process table stays consistent over every interleaving of the steps of forks, exits, waits, signals and
  scheduling: the invariant \<open>table_wf\<close> holds, and \<open>find_proc\<close> finds exactly the process with an identifier.
\<close>

theorem process_table_consistent:
  assumes "proc_reach F n t"
  shows "table_wf F n t \<and> (\<forall>i p. find_proc i t = Some p \<longleftrightarrow> p \<in> set (proc_list t) \<and> pid (proc_of t p) = i)"
  using reach_wf [OF assms] find_proc_iff by (auto simp: table_wf_def)

text \<open>
  C18: A process that exits becomes a zombie with its exit code, and its children, in the abstract family the
  list \<open>kids p\<close>, move in reverse order to the front of the children of \<open>initproc\<close>; the loop over them ends,
  no other process ends or starts, and the table stays consistent.
\<close>

theorem exit_gives_children_to_init:
  assumes "proc_reach F n t" and "current (sch (ker t)) c = Some p" and "p \<in> set (proc_list t)" and "p \<noteq> initproc t"
    and "family {} kids t"
  shows "\<exists>u. exit_process c code t = Some (Ok (), u) \<and> table_wf F n u \<and> proc_list u = proc_list t \<and>
    family {} (kids(p := [], initproc t := rev (kids p) @ kids (initproc t))) u \<and> exit_code u p = code \<and>
    (\<forall>q. state (proc_of u q) = PROC_ZOMBIE \<longleftrightarrow> q = p \<or> state (proc_of t q) = PROC_ZOMBIE)"
proof -
  obtain u where "exit_process c code t = Some (Ok (), u)" "table_wf F n u" "proc_list u = proc_list t"
    "family {} (kids(p := [], initproc t := rev (kids p) @ kids (initproc t))) u"
    "\<forall>q. state (proc_of u q) = PROC_ZOMBIE \<longleftrightarrow> q = p \<or> state (proc_of t q) = PROC_ZOMBIE"
    "\<forall>q. pid (proc_of u q) = pid (proc_of t q)" "exit_code u = (exit_code t)(p := code)"
    by (rule exit_process_ok [OF reach_wf [OF assms(1)] assms(2-5), of code])
  then show ?thesis
    by auto
qed

text \<open>
  C19: While no interrupting signal is pending, a pass of \<open>do_wait_options\<close> is exact.  If a child that is waited for has ended and left its CPU, the
  pass returns the exit code of such a child and takes it, and nothing else, out of the table; if there is
  no such child at all it fails with \<open>E_BAD_PROC\<close>; otherwise it returns at once with \<open>WNOHANG\<close>, and goes
  to sleep without.
\<close>

theorem wait_pass_exact:
  assumes "proc_reach F n t" and "\<not> signal_should_interrupt cur (ker t)"
  shows "if \<exists>p\<in>children_for cur i t. reapable t p
    then \<exists>p u. p \<in> children_for cur i t \<and> reapable t p \<and> proc_list u = remove1 p (proc_list t) \<and> ker u = ker t \<and>
      find_proc (pid (proc_of t p)) u = None \<and> wait_pass c cur i options t = Some (Ok (Done (Some (exit_code t p))), u)
    else wait_pass c cur i options t = Some (
      if children_for cur i t = {} then (Err E_BAD_PROC, t)
      else if options AND WNOHANG = 0 then (Ok Asleep, wait_sleep c cur t) else (Ok (Done None), t))"
proof (rule wait_pass_cases [OF reach_wf [OF assms(1)] assms(2), of i c options])
  note wf = reach_wf [OF assms(1)]
  fix p u
  assume p: "p \<in> children_for cur i t" "reapable t p" "reap p t = (Ok (), u)"
    "wait_pass c cur i options t = Some (Ok (Done (Some (exit_code t p))), u)"
  then have l: "p \<in> set (proc_list t)" "state (proc_of t p) = PROC_ZOMBIE"
    by (simp_all add: children_for_def reapable_def)
  obtain v where v: "reap p t = (Ok (), v)" "table_wf F n v" "proc_list v = remove1 p (proc_list t)" "ker v = ker t"
    by (rule reap_wf [OF wf l])
  have inj: "inj_on (\<lambda>p. pid (proc_of t p)) (set (proc_list t))" "distinct (proc_list t)"
    using ids_wfD [of F n t] wf by (simp_all add: table_wf_def)
  have "ids_wf F n v"
    using v(2) by (simp add: table_wf_def)
  then have "find_proc (pid (proc_of t p)) v \<noteq> Some q" for q
    using find_proc_iff [of F n v "pid (proc_of t p)" q] v(3,4) inj l(1) by (auto dest: inj_onD)
  then have "find_proc (pid (proc_of t p)) v = None"
    by (cases "find_proc (pid (proc_of t p)) v") auto
  then show ?thesis
    using p v by auto
qed auto

lemma wakeup_runnable:
  assumes "state (procs s p) = PROC_RUNNABLE" "\<not> sched_is_idle p s" "queue_wf s" "c < sched_ncpu s" "sched_cpu_allowed p c s"
  shows "state (procs (wakeup_proc p s) p) = PROC_RUNNABLE" "wait_state (procs (wakeup_proc p s) p) = wait_state (procs s p)"
    "on_cpu (procs (wakeup_proc p s) p) \<or> rq (procs (wakeup_proc p s) p) \<noteq> None"
proof -
  obtain b where b: "sched_choose_cpu p s = Some b"
    using choose_cpu_least [where p = p and s = s] assms(4,5) by (cases "sched_choose_cpu p s") auto
  have w: "wakeup_proc p s = (if \<not> on_cpu (procs s p) \<and> rq (procs s p) = None then sched_class_enqueue_locked b p s else s)"
    using assms b queue_wfD(2) [OF assms(3), of p]
    by (auto simp: wakeup_proc_eq Let_def sched_enqueue_proc_def sched_enqueue_proc_locked_def)
  have q: "on_rq (procs s p) \<longleftrightarrow> rq (procs s p) \<noteq> None"
    by (rule queue_wfD(2) [OF assms(3)])
  show "state (procs (wakeup_proc p s) p) = PROC_RUNNABLE" "wait_state (procs (wakeup_proc p s) p) = wait_state (procs s p)"
    "on_cpu (procs (wakeup_proc p s) p) \<or> rq (procs (wakeup_proc p s) p) \<noteq> None"
    using assms(1,2) q unfolding w by (auto simp: sched_class_enqueue_locked_def stride_enqueue_def Let_def)
qed

lemma sigkill_interrupts:
  assumes "bit (pending (signal k p)) SIGKILL"
  shows "signal_should_interrupt p k"
proof -
  have "ready_signals (signal k p) AND signal_bit SIGKILL \<noteq> 0"
    using assms by (simp add: signal_bit_iff ready_signals_def bit_or_iff bit_and_iff bit_signal_bit)
  then show ?thesis
    unfolding signal_should_interrupt_def list_ex_iff Let_def
    by (intro bexI [of _ SIGKILL]) (simp_all add: signal_uncatchable_def)
qed

lemma kill_locked_sigkill:
  assumes "state (proc_of t p) \<noteq> PROC_ZOMBIE" and "wait_state (proc_of t p) AND WT_INTERRUPTED \<noteq> 0 \<or> state (proc_of t p) = PROC_STOPPED"
  obtains u where "kill_locked p (int SIGKILL) t = (True, u)" "bit (pending (signal (ker u) p)) SIGKILL"
    "sch (ker u) = upd_proc p (\<lambda>g. g\<lparr>state := PROC_RUNNABLE, wait_state := 0, need_resched := (on_cpu g \<or> need_resched g)\<rparr>) (sch (ker t))"
proof -
  let ?t = "on_ker (\<lambda>k. snd (signal_queue p (int SIGKILL) k)) t"
  have pend: "bit (pending (signal (ker ?t) p)) SIGKILL" "sch (ker ?t) = sch (ker t)"
    by (simp_all add: signal_queue_def signal_number_valid_def queue_signal_def upd_signal_def Let_def bit_or_iff bit_signal_bit)
  define u where "u = snd (kill_locked p (int SIGKILL) t)"
  have "fst (kill_locked p (int SIGKILL) t)"
    using sigkill_interrupts [OF pend(1)] pend(2) assms by (auto simp: kill_locked_def Let_def)
  moreover have "signal (ker u) = signal (ker ?t)"
    by (simp add: u_def kill_locked_def Let_def)
  moreover have "sch (ker u) = upd_proc p (\<lambda>g. g\<lparr>state := PROC_RUNNABLE, wait_state := 0, need_resched := (on_cpu g \<or> need_resched g)\<rparr>) (sch (ker t))"
    using sigkill_interrupts [OF pend(1)] pend(2) assms by (auto simp: u_def kill_locked_def Let_def upd_proc_def)
  ultimately show ?thesis
    using that [of u] pend(1) by (simp add: u_def prod_eq_iff)
qed

text \<open>
  C26: \<open>SIGKILL\<close> wakes: sent to a process that sleeps interruptibly or is stopped, \<open>do_kill_signal\<close> makes
  the signal pending and the process runnable, and the process is on a CPU or in a run queue, unless its
  affinity mask allows no CPU.
\<close>

theorem sigkill_wakes:
  assumes "proc_reach F n t" and "p \<in> set (proc_list t)" and "state (proc_of t p) \<noteq> PROC_ZOMBIE"
    and "wait_state (proc_of t p) AND WT_INTERRUPTED \<noteq> 0 \<or> state (proc_of t p) = PROC_STOPPED"
    and "queue_wf (sch (ker t))" and "c < sched_ncpu (sch (ker t))" and "sched_cpu_allowed p c (sch (ker t))"
  shows "\<exists>u. do_kill_signal (pid (proc_of t p)) (int SIGKILL) t = (Ok (), u) \<and> bit (pending (signal (ker u) p)) SIGKILL \<and>
    state (proc_of u p) = PROC_RUNNABLE \<and> wait_state (proc_of u p) = 0 \<and> (on_cpu (proc_of u p) \<or> rq (proc_of u p) \<noteq> None)"
proof -
  note wf = reach_wf [OF assms(1)]
  obtain u where u: "kill_locked p (int SIGKILL) t = (True, u)" "bit (pending (signal (ker u) p)) SIGKILL"
    "sch (ker u) = upd_proc p (\<lambda>g. g\<lparr>state := PROC_RUNNABLE, wait_state := 0, need_resched := (on_cpu g \<or> need_resched g)\<rparr>) (sch (ker t))"
    by (rule kill_locked_sigkill [OF assms(3,4)])
  let ?s = "sch (ker u)"
  have look: "hash_lookup (pid (proc_of t p)) t = Some p"
    using hash_lookup_iff assms(2) wf by (auto simp: table_wf_def)
  then have run: "do_kill_signal (pid (proc_of t p)) (int SIGKILL) t = (Ok (), on_sch (wakeup_proc p) u)"
    using u(1) assms(3) listed_pid [OF wf assms(2)] by (simp add: do_kill_signal_def)
  have q: "queue_wf ?s"
    unfolding u(3) using assms(5) queue_wfD(3) [OF assms(5), of p] by (intro queue_wf_cong [OF _ _ _ assms(5)]) auto
  have "state (procs ?s p) = PROC_RUNNABLE" "wait_state (procs ?s p) = 0" "\<not> sched_is_idle p ?s"
      "c < sched_ncpu ?s" "sched_cpu_allowed p c ?s"
    using assms(6,7) listed_pid [OF wf assms(2)] by (simp_all add: u(3) sched_is_idle_def sched_cpu_allowed_def)
  then show ?thesis
    using wakeup_runnable [of ?s p c] q run u(2) by simp
qed

section \<open>A table with two processes\<close>

text \<open>All steps of a fork, one after the other.\<close>

lemma fork_reach:
  assumes "proc_reach {} 0 t" "nr_process t < MAX_PROCESS" "p \<notin> set (proc_list t)" "\<not> is_idle t p" "wait_state (proc_of t cur) = 0"
    "cur \<in> set (proc_list t) \<or> is_idle t cur" "state (proc_of t cur) \<noteq> PROC_ZOMBIE" "proc_list t = [] \<longrightarrow> p = initproc t"
  obtains u where "proc_reach {} 0 u" "proc_list u = p # proc_list t" "proc_parent (proc_of u p) = Some cur"
    "is_idle u = is_idle t" "initproc u = initproc t" "state (proc_of u p) \<noteq> PROC_ZOMBIE"
proof -
  have cp: "cur \<noteq> p"
    using assms(3,4,6) by auto
  define t1 where "t1 = t\<lparr>nr_process := nr_process t + 1\<rparr>"
  define t2 where "t2 = alloc_proc 3 p t1"
  define t3 where "t3 = snd (fork_inherit cur p t2)"
  have r1: "proc_reach {} (Suc 0) t1"
    using assms(2) by (intro proc_reach.reserve [OF assms(1)]) (simp add: fork_reserve_def t1_def)
  have f1: "proc_list t1 = proc_list t" "ker t1 = ker t" "initproc t1 = initproc t" "is_idle t1 = is_idle t"
    by (simp_all add: t1_def is_idle_def fun_eq_iff)
  have r2: "proc_reach {p} 0 t2"
    unfolding t2_def by (rule proc_reach.alloc [OF r1]) (use assms(3,4) f1 in auto)
  have f2: "proc_list t2 = proc_list t" "initproc t2 = initproc t" "is_idle t2 = is_idle t" "proc_of t2 cur = proc_of t cur"
    using cp f1 by (simp_all add: t2_def alloc_proc_def is_idle_def fun_eq_iff)
  have i: "fork_inherit cur p t2 = (Ok (), t3)"
    using assms(5) f2(4) cp by (simp add: t3_def fork_inherit_def Let_def)
  have r3: "proc_reach {p} 0 t3"
    by (rule proc_reach.inherit [OF r2 _ i]) simp
  have f3: "proc_list t3 = proc_list t" "initproc t3 = initproc t" "is_idle t3 = is_idle t" "proc_parent (proc_of t3 p) = Some cur"
      "state (proc_of t3 cur) \<noteq> PROC_ZOMBIE" "state (proc_of t3 p) \<noteq> PROC_ZOMBIE"
    using assms(5,7) cp f2 by (simp_all add: t3_def t2_def alloc_proc_def fork_inherit_def Let_def upd_signal_def is_idle_def fun_eq_iff)
  obtain j u where u: "fork_publish p t3 = Some (Ok j, u)" "proc_list u = p # proc_list t3" "initproc u = initproc t3" "is_idle u = is_idle t3"
      "\<forall>c. proc_parent (proc_of u c) = proc_parent (proc_of t3 c)"
      "\<forall>c. state (proc_of u c) = PROC_ZOMBIE \<longleftrightarrow> state (proc_of t3 c) = PROC_ZOMBIE"
    by (rule publish_wf [OF reach_wf [OF r3], of p cur]) (use f3 assms(6,8) in auto)
  have "proc_reach ({p} - {p}) 0 u"
    by (rule proc_reach.publish [OF r3 _ f3(4) _ f3(5) _ u(1)]) (use f3 assms(6,8) in auto)
  then show ?thesis
    using that [of u] u f3 by simp
qed

definition boot_table :: proc_table where
  "boot_table = \<lparr>ker = (running 0 0)\<lparr>sch := booted\<lparr>idleproc := (\<lambda>c. if c < 2 then Some c else None), sched_ncpu := 2\<rparr>\<rparr>,
     proc_list = [], hash_list = (\<lambda>_. []), cptr = (\<lambda>_. None), yptr = (\<lambda>_. None), optr = (\<lambda>_. None), exit_code = (\<lambda>_. 0),
     cpu_ticks = (\<lambda>_. 0), children_cpu_ticks = (\<lambda>_. 0), children_switches = (\<lambda>_. 0), nr_process = 1, last_pid = MAX_PID,
     next_safe = MAX_PID, initproc = 5\<rparr>"

lemma boot_table_reach: "proc_reach {} 0 boot_table"
  by (rule proc_reach.boot) (simp_all add: boot_table_def booted_def)

text \<open>
  The initial process 5 with its child 6; the scheduling fields are as the scheduler may leave them: the
  child runs on CPU 0, and nobody waits.
\<close>

definition quiet_sched :: "proc_state \<Rightarrow> u32 \<Rightarrow> sched \<Rightarrow> sched" where
  "quiet_sched st w s = booted\<lparr>sched_ncpu := 2, idleproc := idleproc s, current := (\<lambda>_. Some 6),
     procs := (\<lambda>p. (procs booted p)\<lparr>pid := pid (procs s p), proc_parent := proc_parent (procs s p), wait_state := w, on_cpu := False,
       state := (if state (procs s p) = PROC_ZOMBIE then PROC_ZOMBIE else st)\<rparr>)\<rparr>"

lemma quiet_ids: "st \<noteq> PROC_ZOMBIE \<Longrightarrow> same_ids s (quiet_sched st w s)"
  by (simp add: same_ids_def quiet_sched_def)

lemma two_processes:
  obtains t where "proc_reach {} 0 t" "proc_list t = [6, 5]" "proc_parent (proc_of t 6) = Some 5" "initproc t = 5"
    "state (proc_of t 6) \<noteq> PROC_ZOMBIE"
proof -
  have idle: "is_idle boot_table p \<longleftrightarrow> p < 2" for p
    by (auto simp: is_idle_def boot_table_def)
  obtain t where t: "proc_reach {} 0 t" "proc_list t = 5 # proc_list boot_table" "proc_parent (proc_of t 5) = Some 0"
      "is_idle t = is_idle boot_table" "initproc t = initproc boot_table"
    by (rule fork_reach [OF boot_table_reach, of 5 0]) (use idle in \<open>auto simp: boot_table_def booted_def\<close>)
  define u where "u = t\<lparr>ker := (ker t)\<lparr>sch := quiet_sched PROC_RUNNABLE 0 (sch (ker t))\<rparr>\<rparr>"
  have r: "proc_reach {} 0 u"
    unfolding u_def by (rule proc_reach.other [OF t(1)]) (simp add: quiet_ids)
  have wf: "table_wf {} 0 u"
    by (rule reach_wf [OF r])
  have f: "proc_list u = [5]" "initproc u = 5" "is_idle u = is_idle boot_table" "wait_state (proc_of u 5) = 0"
    using t(2,4,5) by (simp_all add: u_def boot_table_def quiet_sched_def is_idle_def fun_eq_iff)
  have n: "nr_process u < MAX_PROCESS"
    using wf f(1) by (simp add: table_wf_def ids_wf_def)
  obtain v where v: "proc_reach {} 0 v" "proc_list v = 6 # proc_list u" "proc_parent (proc_of v 6) = Some 5" "initproc v = initproc u"
      "state (proc_of v 6) \<noteq> PROC_ZOMBIE"
    by (rule fork_reach [OF r n, of 6 5]) (use f idle init_ok(2) [OF wf, of 5] in auto)
  then show ?thesis
    using that f by simp
qed

theorem get_pid_returns_witness:
  "\<exists>t i u. proc_list t = [6, 5] \<and> get_pid t = Some (i, u) \<and> 1 \<le> i \<and> i < MAX_PID \<and> pid (proc_of t 6) \<noteq> i"
proof -
  obtain t where t: "proc_reach {} 0 t" "proc_list t = [6, 5]"
    by (rule two_processes)
  then show ?thesis
    using get_pid_returns [OF t(1)] by fastforce
qed

theorem process_table_consistent_witness: "\<exists>t. proc_list t = [6, 5] \<and> find_proc (pid (proc_of t 6)) t = Some 6"
proof -
  obtain t where t: "proc_reach {} 0 t" "proc_list t = [6, 5]"
    by (rule two_processes)
  then show ?thesis
    using process_table_consistent [OF t(1)] by auto
qed

lemma two_running:
  assumes "st \<noteq> PROC_ZOMBIE"
  obtains t s where "proc_reach {} 0 t" "proc_list t = [6, 5]" "proc_parent (proc_of t 6) = Some 5" "initproc t = 5"
    "sch (ker t) = quiet_sched st w s" "state (procs s 6) \<noteq> PROC_ZOMBIE"
proof -
  obtain t where t: "proc_reach {} 0 t" "proc_list t = [6, 5]" "proc_parent (proc_of t 6) = Some 5" "initproc t = 5"
      "state (proc_of t 6) \<noteq> PROC_ZOMBIE"
    by (rule two_processes)
  let ?k = "(ker t)\<lparr>sch := quiet_sched st w (sch (ker t))\<rparr>"
  have "proc_reach {} 0 (t\<lparr>ker := ?k\<rparr>)"
    by (rule proc_reach.other [OF t(1)]) (simp add: quiet_ids assms)
  then show ?thesis
    using that [of "t\<lparr>ker := ?k\<rparr>" "sch (ker t)"] t by (simp add: quiet_sched_def)
qed

theorem exit_gives_children_to_init_witness:
  "\<exists>t u. proc_list t = [6, 5] \<and> exit_process 0 7 t = Some (Ok (), u) \<and> state (proc_of u 6) = PROC_ZOMBIE \<and> exit_code u 6 = 7"
proof -
  obtain t s where t: "proc_reach {} 0 t" "proc_list t = [6, 5]" "initproc t = 5" "sch (ker t) = quiet_sched PROC_RUNNABLE 0 s"
    by (rule two_running [of PROC_RUNNABLE 0]) simp
  obtain kids where "family {} kids t"
    using reach_wf [OF t(1)] by (auto simp: table_wf_def)
  then show ?thesis
    using exit_gives_children_to_init [OF t(1), of 0 6 kids 7] t(2-4) by (auto simp: quiet_sched_def)
qed

lemma ended_child:
  obtains t where "proc_reach {} 0 t" "proc_list t = [6, 5]" "6 \<in> children_for 5 0 t" "reapable t 6" "exit_code t 6 = 7"
    "\<not> signal_should_interrupt 5 (ker t)"
proof -
  obtain t s where t: "proc_reach {} 0 t" "proc_list t = [6, 5]" "proc_parent (proc_of t 6) = Some 5" "initproc t = 5"
      "sch (ker t) = quiet_sched PROC_RUNNABLE 0 s"
    by (rule two_running [of PROC_RUNNABLE 0]) simp
  obtain kids where fam: "family {} kids t"
    using reach_wf [OF t(1)] by (auto simp: table_wf_def)
  have c: "current (sch (ker t)) 0 = Some 6" "6 \<in> set (proc_list t)" "6 \<noteq> initproc t"
    using t by (simp_all add: quiet_sched_def)
  obtain u where u: "exit_process 0 7 t = Some (Ok (), u)" "proc_list u = proc_list t"
      "family {} (kids(6 := [], initproc t := rev (kids 6) @ kids (initproc t))) u"
      "\<forall>c. state (proc_of u c) = PROC_ZOMBIE \<longleftrightarrow> c = 6 \<or> state (proc_of t c) = PROC_ZOMBIE" "exit_code u = (exit_code t)(6 := 7)"
    by (rule exit_process_ok [OF reach_wf [OF t(1)] c fam, of 7])
  have r: "proc_reach {} 0 u"
    by (rule proc_reach.exit [OF t(1) c(1,2) u(1)])
  have "6 \<in> set (kids 5)"
    using familyD(3) [OF fam, of 5] t by simp
  then have p: "proc_parent (proc_of u 6) = Some 5"
    using familyD(3) [OF u(3), of 5] t(4) by auto
  let ?k = "(ker u)\<lparr>sch := quiet_sched PROC_RUNNABLE 0 (sch (ker u)), signal := (\<lambda>_. signal_state_init)\<rparr>"
  let ?v = "u\<lparr>ker := ?k\<rparr>"
  have "proc_reach {} 0 ?v"
    by (rule proc_reach.other [OF r]) (simp add: quiet_ids)
  moreover have "\<not> signal_should_interrupt 5 ?k"
    by (simp add: signal_should_interrupt_def ready_signals_def signal_state_init_def Let_def list_ex_iff)
  ultimately show ?thesis
    using that [of ?v] u(2,4,5) p t(2) by (simp add: children_for_def reapable_def quiet_sched_def)
qed

theorem wait_pass_exact_witness:
  "\<exists>t p u. proc_list t = [6, 5] \<and> p \<in> children_for 5 0 t \<and> wait_pass 0 5 0 0 t = Some (Ok (Done (Some (exit_code t p))), u)"
proof -
  obtain t where t: "proc_reach {} 0 t" "proc_list t = [6, 5]" "6 \<in> children_for 5 0 t" "reapable t 6" "\<not> signal_should_interrupt 5 (ker t)"
    by (rule ended_child)
  have "\<exists>p\<in>children_for 5 0 t. reapable t p"
    using t(3,4) by blast
  then show ?thesis
    using wait_pass_exact [OF t(1,5), of 0 0 0] t(2) by auto
qed

theorem sigkill_wakes_witness:
  "\<exists>t u. state (proc_of t 6) = PROC_SLEEPING \<and> do_kill_signal (pid (proc_of t 6)) 9 t = (Ok (), u) \<and>
     state (proc_of u 6) = PROC_RUNNABLE"
proof -
  obtain t s where t: "proc_reach {} 0 t" "proc_list t = [6, 5]" "sch (ker t) = quiet_sched PROC_SLEEPING WT_CHILD s"
      "state (procs s 6) \<noteq> PROC_ZOMBIE"
    by (rule two_running [of PROC_SLEEPING WT_CHILD]) simp
  have p: "6 \<in> set (proc_list t)" "state (proc_of t 6) = PROC_SLEEPING" "wait_state (proc_of t 6) AND WT_INTERRUPTED \<noteq> 0"
      "0 < sched_ncpu (sch (ker t))" "sched_cpu_allowed 6 0 (sch (ker t))"
    using t by (simp_all add: quiet_sched_def booted_def sched_cpu_allowed_def bit_0)
  have "queue_wf (sch (ker t))"
    using t(3) by (simp add: queue_wf_def queue_ok_def quiet_sched_def booted_def)
  then show ?thesis
    using sigkill_wakes [OF t(1) p(1), of 0] p by auto
qed

end
