(* ===== verification/Spec2Isabelle.thy ===== *)
theory Spec2Isabelle
  imports Fork Sfs_Dir Proc_Table
begin

text \<open>
  A verification library for the procore kernel: an SMP kernel for i386 with demand paging, copy-on-write
  \<open>fork\<close>, signals, a stride scheduler, a block file system and a small network stack.

  \<^bold>\<open>Parts of the program and how they interact.\<close>  A process (\<open>src/kern/process\<close>) has an address space
  (\<open>src/kern/mm/vmm.c\<close>), a list of areas over page tables (\<open>src/kern/mm/pmm.c\<close>) whose pages come from the
  first-fit allocator (\<open>src/kern/mm/default_pmm.c\<close>) and may be swapped out (\<open>src/kern/mm/swap.c\<close>,
  \<open>swap_fifo.c\<close>, \<open>src/kern/fs/swap/swapfs.c\<close>).  \<open>fork\<close> duplicates the areas and shares the pages for copying on
  write; the page fault handler resolves the faults that follow.  Runnable processes wait in per-CPU run
  pools, skew heaps (\<open>src/libs/skew_heap.h\<close>) ordered by stride (\<open>src/kern/schedule\<close>).  Signals
  (\<open>src/kern/process/signal.c\<close>) are delivered on the way back to user mode through a frame on the user
  stack, which is written and read with the checked copies of \<open>vmm.c\<close>.  Files live in the simple file system
  (\<open>src/kern/fs/sfs\<close>) on a disk of blocks with a free-block bitmap.  Packets are built and parsed by the codec
  \<open>src/kern/net/net_proto.c\<close>.

  \<^bold>\<open>Theories.\<close>  An operation keeps the name of its C function; a C structure is a record; a loop or a block of a
  function that is a definition of its own is named after what it does, and the texts say of which function
  it is a part.
  \<^item> \<open>Prelude\<close>: machine words, error numbers, the result type \<open>outcome\<close> (\<open>Ok\<close>, \<open>Err\<close> for a negative return value,
    \<open>Fault\<close> for a failed assertion, a panic or an access outside an object), state passing with \<open>sbind\<close>, and
    lemmas on bytes, bits and lists.
  \<^item> \<open>Net_Proto\<close>: the frame codec.  What the builders of UDP and TCP frames produce is what the parsers read,
    checksums included; the parsers never read outside the received bytes.  The locale \<open>packed_struct\<close> is the
    contract of a C structure laid out in bytes, interpreted for the five headers and for the signal frame.
  \<^item> \<open>Pmm\<close>: the page allocator on page descriptors and the free list, an address-ordered list of block heads.
    Allocation is first fit, freeing merges with both neighbours, and the free pages are exactly those neither
    reserved nor handed out (locale \<open>page_manager\<close>).
  \<^item> \<open>Paging\<close>: two-level page tables, reference counts, swap slots and the FIFO replacement, \<open>get_pte\<close>,
    \<open>page_insert\<close>, \<open>page_remove_pte\<close>, \<open>copy_range\<close>, \<open>unmap_range\<close>, \<open>exit_range\<close>.  A swap slot in use keeps its
    contents while allocations swap out other pages.
  \<^item> \<open>Vma\<close>, \<open>Vma_Refinement\<close>: areas and the calls on them.  The abstract specification of an address space is a
    map from addresses to flags; \<open>mm_map\<close>, \<open>mm_unmap\<close>, \<open>mm_mprotect\<close> are shown to implement its update, and
    \<open>user_mem_check\<close> to decide it exactly.
  \<^item> \<open>Pgfault\<close>: \<open>do_pgfault\<close> with copy on write, demand zero and swap-in, and the copies between kernel and user
    memory.  A handled fault makes the entry map the page that got the right
    contents, for an empty, a hidden, a copy-on-write and a swapped-out entry; a forbidden access changes nothing;
    \<open>copy_string\<close> is exact.
  \<^item> \<open>Fork\<close>: \<open>copy_range\<close> and \<open>dup_mmap\<close> as a whole: parent and child map the same pages, and no shared page
    is writable, with swapping on or off.  When swapping is on, a free page is assumed for every page table that the
    child lacks; without it the code may reclaim the page it is sharing (\<open>copy_range_reclaims_source\<close>), and a read-only
    page made writable after a fork stays shared (\<open>mprotect_after_fork_shares_writable\<close>).
  \<^item> \<open>Run_Pool\<close>: the pointer skew heap refines functional trees (locale \<open>run_pool\<close>).
  \<^item> \<open>Sched\<close>: run queues, migration, wakeup, the two halves of a context switch and the timer list.  An operation
    is composed of its critical sections, and \<open>sched_section\<close> is the transition system in which each of them is a step.
    The run queues stay consistent in every reachable state; wakeup picks the least loaded allowed CPU; the pick has the least stride as long as strides
    stay in a window of 32-bit arithmetic; timers
    wake their processes in time.
  \<^item> \<open>Signal\<close>: dispositions, masks, delivery and return.  Delivery followed by \<open>signal_sigreturn\<close> restores
    registers and mask; no forged frame leads out of user mode; \<open>SIGKILL\<close> cannot be held off.
  \<^item> \<open>Proc\<close>, \<open>Proc_Table\<close>: process identifiers, hash lists and the family pointers, with fork, exit, wait and kill
    on them.  The table is consistent over every interleaving of their steps; the search for an identifier ends; exit and wait
    implement moving and removing children in an abstract family.  The locale \<open>table_neutral\<close> is what the table
    relies on in the scheduler.
  \<^item> \<open>Bitmap\<close>, \<open>Sfs\<close>, \<open>Sfs_Map\<close>, \<open>Sfs_File\<close>, \<open>Sfs_Dir\<close>: the free map (locale \<open>bit_allocator\<close>), the block
    transfers and inode operations, the block maps with direct and indirect blocks, and what the operations mean
    for the bytes of a file and for a directory as a finite map from names to inodes.  Writing, reading and
    truncating do to the bytes what they should and leave other files alone, also on a full disk;
    no block gets lost, and the bounds on free blocks under which the calls cannot fail are stated.

  \<^bold>\<open>Conventions, bounds and fuel.\<close>  Memory allocation of the kernel heap is an argument of an operation (a list of
  results, or an optional address), so that every failure branch is covered; allocation of pages is modelled.
  Disk blocks that fail are an argument of the transfers; the
  theorems on files and directories are for a device without failing blocks and with at most \<open>2\<^sup>1\<^sup>9\<close> blocks
  (\<open>fs_wf\<close>), and for files of up to the 1036 blocks that an inode maps.  Loops over pointers that could be cyclic are
  partial functions with the value \<open>None\<close> when they do not end, and theorems state that they end:
  \<open>get_pid\<close>, the loops of \<open>do_exit\<close> and \<open>do_wait_options\<close>, the skew heap operations.  The walk of \<open>sfs_dir_reaches\<close>
  towards the root is bounded by the number of blocks of the file system, as in the source.  Other loops are
  recursive functions with a termination proof.  Page and block contents are functions from offsets to
  bytes.  Machine integers have their width where they wrap (checksums, strides, page table entries, masks,
  signal frames, hashes); sizes and addresses that the code bounds are natural numbers.

  \<^bold>\<open>Concurrency.\<close>  In \<open>Sched\<close> a critical section of a run queue or of the timer list is one step of \<open>sched_section\<close>, and
  changes of process states may come between any two of them.  \<open>sched_step\<close>, whose steps are uninterrupted operations,
  describes the runs in which operations do not overlap and is used to exhibit one.  In \<open>Proc_Table\<close> a critical section of
  \<open>proc_lock\<close> is a step together with the wake-ups and the call of \<open>schedule\<close> that follow it in \<open>do_exit\<close>,
  \<open>do_fork\<close> and \<open>do_kill_signal\<close>; in \<open>Signal\<close> an operation is a step.  The memory management and the file system are
  sequential: their locks are held across a whole call.

  \<^bold>\<open>Not modelled.\<close>
  \<^item> Boot loader, initialisation, device drivers, interrupt controllers and the trap entry (\<open>src/boot\<close>,
    \<open>src/kern/init\<close>, \<open>driver\<close>, \<open>trap\<close>, \<open>smp\<close>, \<open>virt\<close>, \<open>debug\<close>): they are port and memory-mapped input and output,
    assembly, and tables fixed at start.
  \<^item> Spin locks, inter-processor interrupts and TLB shootdown: a step is atomic here.
  \<^item> \<open>load_icode\<close> and \<open>do_execve\<close>, which read an ELF file through the file layer.
  \<^item> The file layer over the file system (\<open>src/kern/fs/file.c\<close>, \<open>sysfile.c\<close>, \<open>fs.c\<close>, \<open>vfs\<close>, \<open>devs\<close>), the socket
    layer \<open>src/kern/net/net.c\<close>, and the system call dispatch, which marshals arguments for the operations above.
  \<^item> The user programs and libraries under \<open>src/user\<close>, with the third-party trees \<open>mbedtls\<close> and \<open>tcc\<close>, and the host
    tools under \<open>src/tools\<close>: they are not part of the kernel.
\<close>

end
